(* ===== verification/Defcon_Prelude.thy ===== *)
theory Defcon_Prelude
  imports Main "HOL-Library.Word" "HOL-Library.List_Lexorder"
begin

text \<open>
  Shared vocabulary of the development: the fixed-width integer types of the C++ source, the
  outcome of code that can hit an \<^verbatim>\<open>assert\<close> or throw, and generic facts on lists and words
  that several components use.

  Conventions. An unsigned C++ integer whose wrap-around is observable is a word of its width
  (\<^verbatim>\<open>uint32_t\<close> is \<open>u32\<close>). A signed integer (\<^verbatim>\<open>int\<close>, \<^verbatim>\<open>int64_t\<close>, \<^verbatim>\<open>CAmount\<close>) is an
  \<open>int\<close>: signed overflow is undefined behaviour in C++, so where a result must stay in range
  the theorems say so. A \<^verbatim>\<open>uint256\<close> blob is the list of its 32 bytes in memory order, so that
  the library's lexicographic order on lists is the \<^verbatim>\<open>memcmp\<close> order of
  \<^verbatim>\<open>base_blob::Compare\<close>.
\<close>

unbundle bit_operations_syntax

type_synonym u8 = "8 word"
type_synonym u16 = "16 word"
type_synonym u32 = "32 word"
type_synonym u64 = "64 word"
type_synonym byte = "8 word"
type_synonym uint256 = "byte list"
type_synonym CAmount = int

text \<open>What a call can do instead of returning: fail an \<^verbatim>\<open>assert\<close>, throw the
  division-by-zero \<^verbatim>\<open>uint_error\<close>, throw another exception, dereference a null (or dangling) pointer, or index a container
  past its end. Dereferencing and indexing are undefined behaviour in C++; the model keeps them as outcomes so
  that theorems can exclude them.\<close>

datatype abort = AssertFailed | DivisionByZero | NullDeref | OutOfBounds | Thrown

text \<open>Collections of rewrite rules: the value semantics of limb operations, and the
  characteristic equations of component states.\<close>

named_theorems limb_val \<open>the natural number a limb operation computes\<close>
named_theorems state_simps \<open>characteristic equations of component state\<close>

definition uint256_null :: uint256 where
  "uint256_null = replicate 32 0"

definition uint256_IsNull :: "uint256 \<Rightarrow> bool" where
  "uint256_IsNull h = list_all (\<lambda>b. b = 0) h"

definition INT64_MAX :: int where
  "INT64_MAX = 9223372036854775807"

definition INT32_MAX :: int where
  "INT32_MAX = 2147483647"

text \<open>C++ \<^verbatim>\<open>/\<close> and \<^verbatim>\<open>%\<close> on signed integers truncate towards zero.\<close>

definition cdiv :: "int \<Rightarrow> int \<Rightarrow> int" where
  "cdiv a b = sgn a * sgn b * (\<bar>a\<bar> div \<bar>b\<bar>)"

definition cmod :: "int \<Rightarrow> int \<Rightarrow> int" where
  "cmod a b = a - b * cdiv a b"

definition clamp :: "int \<Rightarrow> int \<Rightarrow> int \<Rightarrow> int" where
  "clamp v lo hi = (if v < lo then lo else if hi < v then hi else v)"

lemma cdiv_nonneg [simp]: "0 \<le> a \<Longrightarrow> 0 < b \<Longrightarrow> cdiv a b = a div b"
  by (cases "a = 0") (simp_all add: cdiv_def)

lemma cmod_nonneg [simp]: "0 \<le> a \<Longrightarrow> 0 < b \<Longrightarrow> cmod a b = a mod b"
  by (simp add: cmod_def minus_mult_div_eq_mod)

lemma clamp_bounds: "lo \<le> hi \<Longrightarrow> lo \<le> clamp v lo hi \<and> clamp v lo hi \<le> hi"
  by (simp add: clamp_def)

lemma clamp_id: "lo \<le> v \<Longrightarrow> v \<le> hi \<Longrightarrow> clamp v lo hi = v"
  by (simp add: clamp_def)

lemma uint256_null_IsNull [simp]: "uint256_IsNull uint256_null"
  by (simp add: uint256_null_def uint256_IsNull_def list_all_iff)

subsection \<open>Words\<close>

lemma unat_u32_less: "unat (x :: u32) < 2 ^ 32"
  using unsigned_less [of x] by simp

lemma unat_u32_le: "unat (x :: u32) \<le> 4294967295"
  using unat_u32_less [of x] by simp

lemma unat_u64_less: "unat (x :: u64) < 2 ^ 64"
  using unsigned_less [of x] by simp

lemma unat_ucast_u64 [simp]: "unat (ucast (x :: u32) :: u64) = unat x"
  using unat_u32_less [of x] by (simp add: unsigned_ucast_eq take_bit_nat_eq_self)

lemma unat_low32: "unat (ucast (n AND 0xffffffff :: u64) :: u32) = unat n mod 2 ^ 32"
proof -
  have "n AND 0xffffffff = take_bit 32 n"
    by (simp add: take_bit_eq_mask mask_eq_decr_exp)
  then show ?thesis
    by (simp add: unsigned_ucast_eq take_bit_eq_mod unat_mod)
qed

lemma unat_high32: "unat (drop_bit 32 (n :: u64)) = unat n div 2 ^ 32"
  by (simp add: drop_bit_eq_div unat_div)

subsection \<open>Outcomes\<close>

text \<open>Sequencing: continue with the result, or stop with the error.\<close>

definition sum_bind :: "'e + 'a \<Rightarrow> ('a \<Rightarrow> 'e + 'b) \<Rightarrow> 'e + 'b" where
  "sum_bind r f = (case r of Inl e \<Rightarrow> Inl e | Inr x \<Rightarrow> f x)"

lemma sum_bind_simps [simp]: "sum_bind (Inr x) f = f x" "sum_bind (Inl e) f = Inl e"
  by (simp_all add: sum_bind_def)

lemma sum_bind_ok: "sum_bind r f = Inr y \<longleftrightarrow> (\<exists>x. r = Inr x \<and> f x = Inr y)"
  by (cases r) (simp_all add: sum_bind_def)

text \<open>A loop that stops at the first error.\<close>

fun sum_fold :: "('a \<Rightarrow> 's \<Rightarrow> 'e + 's) \<Rightarrow> 'a list \<Rightarrow> 's \<Rightarrow> 'e + 's" where
  "sum_fold f [] s = Inr s"
| "sum_fold f (x # xs) s = sum_bind (f x s) (sum_fold f xs)"

lemma sum_fold_append: "sum_fold f (xs @ ys) s = sum_bind (sum_fold f xs s) (sum_fold f ys)"
  by (induction xs arbitrary: s) (simp_all add: sum_bind_def split: sum.splits)

text \<open>Case analysis on an outcome or an option inside a \<^verbatim>\<open>partial_function\<close>.\<close>

lemma option_case_monotone [partial_function_mono]:
  "monotone orda ordb B \<Longrightarrow> (\<And>y. monotone orda ordb (\<lambda>f. C f y)) \<Longrightarrow>
   monotone orda ordb (\<lambda>f. case x of None \<Rightarrow> B f | Some y \<Rightarrow> C f y)"
  by (cases x) simp_all

lemma sum_case_monotone [partial_function_mono]:
  "(\<And>y. monotone orda ordb (\<lambda>f. B f y)) \<Longrightarrow> (\<And>y. monotone orda ordb (\<lambda>f. C f y)) \<Longrightarrow>
   monotone orda ordb (\<lambda>f. case x of Inl y \<Rightarrow> B f y | Inr y \<Rightarrow> C f y)"
  by (cases x) simp_all

subsection \<open>Lists\<close>

lemma sorted_distinct_nth_less:
  fixes xs :: "'a :: linorder list"
  shows "sorted xs \<Longrightarrow> distinct xs \<Longrightarrow> i < j \<Longrightarrow> j < length xs \<Longrightarrow> xs ! i < xs ! j"
  using sorted_wrt_nth_less strict_sorted_iff by blast

end
