(* ===== verification/Arith_Uint256.thy ===== *)
theory Arith_Uint256
  imports Defcon_Prelude
begin

text \<open>
  The 256-bit unsigned integers of \<^verbatim>\<open>src/src/arith_uint256.h\<close> and
  \<^verbatim>\<open>src/src/arith_uint256.cpp\<close>: \<^verbatim>\<open>base_uint<256>\<close> with its eight 32-bit limbs \<^verbatim>\<open>pn[0..7]\<close>,
  least significant first. Every loop of the source is a recursion over the limbs with the source's
  64-bit carry. \<open>limbs_val\<close> reads the limbs as a number; the lemmas show that each operation is
  the operation on numbers modulo \<open>2 ^ 256\<close>, and that long division is exact.
\<close>

section \<open>Model\<close>

type_synonym arith_uint256 = "u32 list"

definition WIDTH :: nat where
  "WIDTH = 8"

definition arith_zero :: arith_uint256 where
  "arith_zero = replicate WIDTH 0"

definition arith_of_u64 :: "u64 \<Rightarrow> arith_uint256" where
  "arith_of_u64 b = ucast b # ucast (drop_bit 32 b) # replicate (WIDTH - 2) 0"

definition arith_not :: "arith_uint256 \<Rightarrow> arith_uint256" where
  "arith_not a = map (\<lambda>x. NOT x) a"

fun inc_loop :: "u32 list \<Rightarrow> u32 list" where
  "inc_loop [] = []"
| "inc_loop (x # xs) = (if x + 1 = 0 then 0 # inc_loop xs else (x + 1) # xs)"

fun dec_loop :: "u32 list \<Rightarrow> u32 list" where
  "dec_loop [] = []"
| "dec_loop (x # xs) =
     (if x - 1 = 0xffffffff then (x - 1) # dec_loop xs else (x - 1) # xs)"

definition arith_neg :: "arith_uint256 \<Rightarrow> arith_uint256" where
  "arith_neg a = inc_loop (map (\<lambda>x. NOT x) a)"

fun add_loop :: "u64 \<Rightarrow> u32 list \<Rightarrow> u32 list \<Rightarrow> u32 list" where
  "add_loop carry (x # xs) (y # ys) =
     (let n = carry + ucast x + ucast y
      in ucast (n AND 0xffffffff) # add_loop (drop_bit 32 n) xs ys)"
| "add_loop carry xs ys = []"

definition arith_add :: "arith_uint256 \<Rightarrow> arith_uint256 \<Rightarrow> arith_uint256" where
  "arith_add a b = add_loop 0 a b"

definition arith_sub :: "arith_uint256 \<Rightarrow> arith_uint256 \<Rightarrow> arith_uint256" where
  "arith_sub a b = arith_add a (arith_neg b)"

definition arith_xor :: "arith_uint256 \<Rightarrow> arith_uint256 \<Rightarrow> arith_uint256" where
  "arith_xor a b = map2 (\<lambda>x y. x XOR y) a b"

definition arith_and :: "arith_uint256 \<Rightarrow> arith_uint256 \<Rightarrow> arith_uint256" where
  "arith_and a b = map2 (\<lambda>x y. x AND y) a b"

definition arith_or :: "arith_uint256 \<Rightarrow> arith_uint256 \<Rightarrow> arith_uint256" where
  "arith_or a b = map2 (\<lambda>x y. x OR y) a b"

definition shl_step :: "nat \<Rightarrow> nat \<Rightarrow> arith_uint256 \<Rightarrow> arith_uint256 \<Rightarrow> nat \<Rightarrow> arith_uint256" where
  "shl_step k shift a pn i =
     (let pn = (if i + k + 1 < WIDTH \<and> shift \<noteq> 0
                then pn[i + k + 1 := pn ! (i + k + 1) OR drop_bit (32 - shift) (a ! i)] else pn)
      in if i + k < WIDTH then pn[i + k := pn ! (i + k) OR push_bit shift (a ! i)] else pn)"

definition arith_shl :: "arith_uint256 \<Rightarrow> nat \<Rightarrow> arith_uint256" where
  "arith_shl a shift = foldl (shl_step (shift div 32) (shift mod 32) a) arith_zero [0..<WIDTH]"

definition shr_step :: "nat \<Rightarrow> nat \<Rightarrow> arith_uint256 \<Rightarrow> arith_uint256 \<Rightarrow> nat \<Rightarrow> arith_uint256" where
  "shr_step k shift a pn i =
     (let pn = (if k + 1 \<le> i \<and> shift \<noteq> 0
                then pn[i - k - 1 := pn ! (i - k - 1) OR push_bit (32 - shift) (a ! i)] else pn)
      in if k \<le> i then pn[i - k := pn ! (i - k) OR drop_bit shift (a ! i)] else pn)"

definition arith_shr :: "arith_uint256 \<Rightarrow> nat \<Rightarrow> arith_uint256" where
  "arith_shr a shift = foldl (shr_step (shift div 32) (shift mod 32) a) arith_zero [0..<WIDTH]"

fun mul32_loop :: "u32 \<Rightarrow> u64 \<Rightarrow> u32 list \<Rightarrow> u32 list" where
  "mul32_loop b32 carry [] = []"
| "mul32_loop b32 carry (x # xs) =
     (let n = carry + ucast b32 * ucast x
      in ucast (n AND 0xffffffff) # mul32_loop b32 (drop_bit 32 n) xs)"

definition arith_mul32 :: "arith_uint256 \<Rightarrow> u32 \<Rightarrow> arith_uint256" where
  "arith_mul32 a b32 = mul32_loop b32 0 a"

text \<open>The inner loop of \<^verbatim>\<open>operator*=(const base_uint&)\<close> for one \<open>j\<close>: it runs over the limbs
  \<open>a.pn[j..]\<close> and \<open>b.pn[0..]\<close> in step, until the limbs of \<open>a\<close> end.\<close>

fun mac_loop :: "u32 \<Rightarrow> u64 \<Rightarrow> u32 list \<Rightarrow> u32 list \<Rightarrow> u32 list" where
  "mac_loop p carry (x # xs) (y # ys) =
     (let n = carry + ucast x + ucast p * ucast y
      in ucast (n AND 0xffffffff) # mac_loop p (drop_bit 32 n) xs ys)"
| "mac_loop p carry xs ys = xs"

definition arith_mul :: "arith_uint256 \<Rightarrow> arith_uint256 \<Rightarrow> arith_uint256" where
  "arith_mul pn b =
     foldl (\<lambda>a j. take j a @ mac_loop (pn ! j) 0 (drop j a) b) arith_zero [0..<WIDTH]"

fun compare_loop :: "nat \<Rightarrow> arith_uint256 \<Rightarrow> arith_uint256 \<Rightarrow> int" where
  "compare_loop 0 a b = 0"
| "compare_loop (Suc i) a b =
     (if a ! i < b ! i then -1 else if b ! i < a ! i then 1 else compare_loop i a b)"

definition CompareTo :: "arith_uint256 \<Rightarrow> arith_uint256 \<Rightarrow> int" where
  "CompareTo a b = compare_loop WIDTH a b"

definition EqualTo :: "arith_uint256 \<Rightarrow> u64 \<Rightarrow> bool" where
  "EqualTo a b =
     (if \<exists>i\<in>set [2..<WIDTH]. a ! i \<noteq> 0 then False
      else if ucast (a ! 1) \<noteq> drop_bit 32 b then False
      else if ucast (a ! 0) \<noteq> b AND 0xffffffff then False
      else True)"

fun top_bit_loop :: "u32 \<Rightarrow> nat \<Rightarrow> nat" where
  "top_bit_loop w 0 = 0"
| "top_bit_loop w (Suc n) =
     (if w AND push_bit (Suc n) 1 \<noteq> 0 then Suc n else top_bit_loop w n)"

fun bits_loop :: "nat \<Rightarrow> arith_uint256 \<Rightarrow> nat" where
  "bits_loop 0 a = 0"
| "bits_loop (Suc pos) a =
     (if a ! pos \<noteq> 0 then 32 * pos + top_bit_loop (a ! pos) 31 + 1 else bits_loop pos a)"

definition arith_bits :: "arith_uint256 \<Rightarrow> nat" where
  "arith_bits a = bits_loop WIDTH a"

text \<open>The loop of \<^verbatim>\<open>operator/=\<close>. The first argument is \<open>shift + 1\<close>, the number of rounds the
  loop \<^verbatim>\<open>while (shift >= 0)\<close> still makes.\<close>

fun div_loop :: "nat \<Rightarrow> arith_uint256 \<Rightarrow> arith_uint256 \<Rightarrow> arith_uint256 \<Rightarrow> arith_uint256" where
  "div_loop 0 num dv q = q"
| "div_loop (Suc shift) num dv q =
     (if CompareTo num dv \<ge> 0
      then div_loop shift (arith_sub num dv) (arith_shr dv 1)
             (q[shift div 32 := q ! (shift div 32) OR push_bit (shift mod 32) 1])
      else div_loop shift num (arith_shr dv 1) q)"

definition arith_div :: "arith_uint256 \<Rightarrow> arith_uint256 \<Rightarrow> abort + arith_uint256" where
  "arith_div a b =
     (let num_bits = arith_bits a; div_bits = arith_bits b
      in if div_bits = 0 then Inl DivisionByZero
         else if div_bits > num_bits then Inr arith_zero
         else let shift = num_bits - div_bits
              in Inr (div_loop (Suc shift) a (arith_shl b shift) arith_zero))"

definition GetLow64 :: "arith_uint256 \<Rightarrow> u64" where
  "GetLow64 a = ucast (a ! 0) OR push_bit 32 (ucast (a ! 1))"

section \<open>The number behind the limbs\<close>

primrec limbs_val :: "u32 list \<Rightarrow> nat" where
  "limbs_val [] = 0"
| "limbs_val (x # xs) = unat x + 2 ^ 32 * limbs_val xs"

definition arith_wf :: "arith_uint256 \<Rightarrow> bool" where
  "arith_wf a \<longleftrightarrow> length a = WIDTH"

lemma limbs_val_less: "limbs_val xs < 2 ^ (32 * length xs)"
proof (induction xs)
  case (Cons x xs)
  have "unat x + 2 ^ 32 * limbs_val xs < 2 ^ 32 + 2 ^ 32 * limbs_val xs"
    using unat_u32_less [of x] by simp
  also have "\<dots> = 2 ^ 32 * (limbs_val xs + 1)" by simp
  also have "\<dots> \<le> 2 ^ 32 * 2 ^ (32 * length xs)"
    using Cons.IH by (intro mult_le_mono2) simp
  finally show ?case by (simp add: power_add)
qed simp

lemma limbs_val_append:
  "limbs_val (xs @ ys) = limbs_val xs + 2 ^ (32 * length xs) * limbs_val ys"
  by (induction xs) (simp_all add: power_add algebra_simps)

lemma limbs_val_replicate_0 [simp]: "limbs_val (replicate n 0) = 0"
  by (induction n) simp_all

text \<open>One limb of a carry chain: the low part stays, the high part is the carry.\<close>

lemma carry_step:
  fixes n :: nat
  shows "(n + B * s) mod (B * M) = n mod B + B * ((n div B + s) mod M)"
  by (cases "B = 0") (simp_all add: mod_mult2_eq add.commute)

lemma limbs_val_inject:
  "length xs = length ys \<Longrightarrow> limbs_val xs = limbs_val ys \<Longrightarrow> xs = ys"
proof (induction xs ys rule: list_induct2)
  case (Cons x xs y ys)
  have "(unat x + 2 ^ 32 * limbs_val xs) mod 2 ^ 32 = (unat y + 2 ^ 32 * limbs_val ys) mod 2 ^ 32"
    using Cons.prems by simp
  then have *: "unat x = unat y"
    using unat_u32_less [of x] unat_u32_less [of y] by simp
  with Cons.prems have "limbs_val xs = limbs_val ys" by simp
  with * Cons.IH show ?case by (simp add: word_unat_eq_iff)
qed simp

lemma arith_wf_zero [simp]: "arith_wf arith_zero"
  by (simp add: arith_wf_def arith_zero_def)

lemma limbs_val_zero [limb_val, simp]: "limbs_val arith_zero = 0"
  by (simp add: arith_zero_def)

lemma arith_val_less: "arith_wf a \<Longrightarrow> limbs_val a < 2 ^ 256"
  using limbs_val_less [of a] by (simp add: arith_wf_def WIDTH_def)

lemma arith_val_inject: "arith_wf a \<Longrightarrow> arith_wf b \<Longrightarrow> limbs_val a = limbs_val b \<longleftrightarrow> a = b"
  by (auto simp: arith_wf_def intro: limbs_val_inject)

subsection \<open>Addition, negation, subtraction\<close>

lemma length_add_loop: "length xs = length ys \<Longrightarrow> length (add_loop c xs ys) = length xs"
  by (induction c xs ys rule: add_loop.induct) (auto simp: Let_def)

lemma add_loop_val:
  "length xs = length ys \<Longrightarrow> unat c < 2 ^ 32 \<Longrightarrow>
   limbs_val (add_loop c xs ys) = (unat c + limbs_val xs + limbs_val ys) mod 2 ^ (32 * length xs)"
proof (induction xs ys arbitrary: c rule: list_induct2)
  case (Cons x xs y ys)
  define n where "n = c + ucast x + ucast y"
  have n: "unat n = unat c + unat x + unat y"
    using Cons.prems unat_u32_less [of x] unat_u32_less [of y]
    by (simp add: n_def unat_word_ariths)
  have c': "unat (drop_bit 32 n) < 2 ^ 32"
    using Cons.prems unat_u32_less [of x] unat_u32_less [of y] by (simp add: unat_high32 n)
  have "limbs_val (add_loop c (x # xs) (y # ys)) =
      unat n mod 2 ^ 32 + 2 ^ 32 * ((unat n div 2 ^ 32 + (limbs_val xs + limbs_val ys)) mod 2 ^ (32 * length xs))"
    using Cons.IH [OF c'] by (simp add: Let_def flip: n_def) (simp add: unat_low32 unat_high32 add.assoc)
  also have "\<dots> = (unat n + 2 ^ 32 * (limbs_val xs + limbs_val ys)) mod (2 ^ 32 * 2 ^ (32 * length xs))"
    by (simp only: carry_step)
  finally show ?case by (simp add: n power_add algebra_simps)
qed simp

lemma arith_wf_add [simp]: "arith_wf a \<Longrightarrow> arith_wf b \<Longrightarrow> arith_wf (arith_add a b)"
  by (simp add: arith_wf_def arith_add_def length_add_loop)

lemma arith_add_val [limb_val]:
  "arith_wf a \<Longrightarrow> arith_wf b \<Longrightarrow>
   limbs_val (arith_add a b) = (limbs_val a + limbs_val b) mod 2 ^ 256"
  by (simp add: arith_wf_def arith_add_def add_loop_val WIDTH_def)

lemma unat_not_u32: "unat (NOT (x :: u32)) = 2 ^ 32 - 1 - unat x"
proof -
  have "NOT x = - 1 - x" by (simp add: not_eq_complement)
  then show ?thesis by (simp add: unat_sub unsigned_minus_1_eq_mask mask_eq_exp_minus_1)
qed

lemma limbs_val_not: "limbs_val (map (\<lambda>x. NOT x) xs) + limbs_val xs = 2 ^ (32 * length xs) - 1"
proof (induction xs)
  case (Cons x xs)
  have "unat (NOT x) + unat x = 2 ^ 32 - 1"
    using unat_u32_less [of x] by (simp add: unat_not_u32)
  moreover obtain P where "(2 :: nat) ^ (32 * length xs) = Suc P"
    using not0_implies_Suc [of "2 ^ (32 * length xs)"] by auto
  ultimately show ?case
    using Cons.IH by (simp add: power_add)
qed simp

lemma arith_wf_not [simp]: "arith_wf a \<Longrightarrow> arith_wf (arith_not a)"
  by (simp add: arith_wf_def arith_not_def)

lemma arith_not_val [limb_val]: "arith_wf a \<Longrightarrow> limbs_val (arith_not a) = 2 ^ 256 - 1 - limbs_val a"
  using limbs_val_not [of a] by (simp add: arith_not_def arith_wf_def WIDTH_def)

lemma length_inc_loop [simp]: "length (inc_loop xs) = length xs"
  by (induction xs) simp_all

lemma inc_loop_val: "limbs_val (inc_loop xs) = (limbs_val xs + 1) mod 2 ^ (32 * length xs)"
proof (induction xs)
  case (Cons x xs)
  show ?case
  proof (cases "x + 1 = 0")
    case True
    then have "x = - 1" by (simp add: eq_neg_iff_add_eq_0)
    then have "unat x = 2 ^ 32 - 1" by (simp add: unsigned_minus_1_eq_mask mask_eq_exp_minus_1)
    then show ?thesis
      using Cons.IH carry_step [of "2 ^ 32" "2 ^ 32" "limbs_val xs" "2 ^ (32 * length xs)"] True
      by (simp add: power_add algebra_simps)
  next
    case False
    then have x: "unat (x + 1) = unat x + 1"
      by (metis Suc_eq_plus1 unatSuc add.commute)
    have "limbs_val ((x + 1) # xs) < 2 ^ (32 * length ((x + 1) # xs))"
      by (rule limbs_val_less)
    then show ?thesis using False by (simp add: x)
  qed
qed simp

lemma arith_wf_neg [simp]: "arith_wf a \<Longrightarrow> arith_wf (arith_neg a)"
  by (simp add: arith_wf_def arith_neg_def)

lemma arith_neg_val [limb_val]: "arith_wf a \<Longrightarrow> limbs_val (arith_neg a) = (2 ^ 256 - limbs_val a) mod 2 ^ 256"
proof -
  assume wf: "arith_wf a"
  have "limbs_val (map (\<lambda>x. NOT x) a) + 1 = 2 ^ 256 - limbs_val a"
    using limbs_val_not [of a] arith_val_less [OF wf] wf by (simp add: arith_wf_def WIDTH_def)
  then show ?thesis
    using wf by (simp add: arith_neg_def inc_loop_val arith_wf_def WIDTH_def)
qed

lemma arith_wf_sub [simp]: "arith_wf a \<Longrightarrow> arith_wf b \<Longrightarrow> arith_wf (arith_sub a b)"
  by (simp add: arith_sub_def)

lemma arith_sub_val [limb_val]:
  "arith_wf a \<Longrightarrow> arith_wf b \<Longrightarrow>
   limbs_val (arith_sub a b) = (limbs_val a + (2 ^ 256 - limbs_val b)) mod 2 ^ 256"
  by (simp add: arith_sub_def arith_add_val arith_neg_val mod_add_right_eq)

lemma arith_sub_val_le:
  "arith_wf a \<Longrightarrow> arith_wf b \<Longrightarrow> limbs_val b \<le> limbs_val a \<Longrightarrow>
   limbs_val (arith_sub a b) = limbs_val a - limbs_val b"
proof -
  assume wf: "arith_wf a" "arith_wf b" and le: "limbs_val b \<le> limbs_val a"
  have "limbs_val a + (2 ^ 256 - limbs_val b) = (limbs_val a - limbs_val b) + 2 ^ 256"
    using arith_val_less [OF wf(2)] le by simp
  then have "limbs_val (arith_sub a b) = (limbs_val a - limbs_val b) mod 2 ^ 256"
    by (simp only: arith_sub_val [OF wf] mod_add_self2)
  then show ?thesis
    using arith_val_less [OF wf(1)] by simp
qed

subsection \<open>Bits of the number\<close>

lemma limbs_val_take_drop:
  "take_bit 32 (limbs_val (x # xs)) = unat x" "drop_bit 32 (limbs_val (x # xs)) = limbs_val xs"
  using unat_u32_less [of x] by (simp_all add: take_bit_eq_mod drop_bit_eq_div)

lemma bit_limbs_val:
  "bit (limbs_val xs) p \<longleftrightarrow> p div 32 < length xs \<and> bit (xs ! (p div 32)) (p mod 32)"
proof (induction xs arbitrary: p)
  case (Cons x xs)
  show ?case
  proof (cases "p < 32")
    case True
    then have "bit (limbs_val (x # xs)) p = bit (take_bit 32 (limbs_val (x # xs))) p"
      by (simp only: bit_take_bit_iff) simp
    then show ?thesis
      using True by (simp only: limbs_val_take_drop) (simp add: bit_unsigned_iff)
  next
    case False
    then have "bit (limbs_val (x # xs)) p = bit (drop_bit 32 (limbs_val (x # xs))) (p - 32)"
      by (simp only: bit_drop_bit_eq) simp
    moreover have "p div 32 = Suc ((p - 32) div 32)" "p mod 32 = (p - 32) mod 32"
      using False by (simp_all add: le_div_geq le_mod_geq)
    ultimately show ?thesis
      using Cons.IH [of "p - 32"] by (simp only: limbs_val_take_drop) simp
  qed
qed simp

lemma bit_limbs_val_at:
  "b < 32 \<Longrightarrow> bit (limbs_val xs) (32 * j + b) \<longleftrightarrow> j < length xs \<and> bit (xs ! j) b"
  by (simp add: bit_limbs_val)

lemma arith_val_eqI:
  assumes "arith_wf a" "n < 2 ^ 256"
    and "\<And>j b. j < 8 \<Longrightarrow> b < 32 \<Longrightarrow> bit (a ! j) b = bit n (32 * j + b)"
  shows "limbs_val a = n"
proof (rule bit_eqI)
  fix p
  show "bit (limbs_val a) p = bit n p"
  proof (cases "p div 32 < 8")
    case True
    then have "bit (a ! (p div 32)) (p mod 32) = bit n (32 * (p div 32) + p mod 32)"
      by (intro assms(3)) auto
    then show ?thesis
      using True assms(1) by (simp add: bit_limbs_val arith_wf_def WIDTH_def)
  next
    case False
    then have "256 \<le> p" by simp
    with assms(2) have "\<not> bit n p"
      by (metis bit_take_bit_iff not_less take_bit_nat_eq_self_iff)
    with False assms(1) show ?thesis
      by (simp add: bit_limbs_val arith_wf_def WIDTH_def)
  qed
qed

lemma length_shl_fold: "length (foldl (shl_step k s a) pn is) = length pn"
  by (induction "is" arbitrary: pn) (simp_all add: shl_step_def Let_def)

lemma length_shr_fold: "length (foldl (shr_step k s a) pn is) = length pn"
  by (induction "is" arbitrary: pn) (simp_all add: shr_step_def Let_def)

lemma arith_wf_shl [simp]: "arith_wf (arith_shl a n)"
  by (simp add: arith_wf_def arith_shl_def length_shl_fold arith_zero_def)

lemma arith_wf_shr [simp]: "arith_wf (arith_shr a n)"
  by (simp add: arith_wf_def arith_shr_def length_shr_fold arith_zero_def)

lemma shl_step_nth:
  "length pn = WIDTH \<Longrightarrow> i < WIDTH \<Longrightarrow> j < WIDTH \<Longrightarrow> shl_step k s a pn i ! j =
     pn ! j OR (if i + k = j then push_bit s (a ! i) else 0) OR
     (if i + k + 1 = j \<and> s \<noteq> 0 then drop_bit (32 - s) (a ! i) else 0)"
  by (auto simp: shl_step_def Let_def nth_list_update)

lemma shr_step_nth:
  "length pn = WIDTH \<Longrightarrow> i < WIDTH \<Longrightarrow> j < WIDTH \<Longrightarrow> shr_step k s a pn i ! j =
     pn ! j OR (if j + k = i then drop_bit s (a ! i) else 0) OR
     (if j + k + 1 = i \<and> s \<noteq> 0 then push_bit (32 - s) (a ! i) else 0)"
  by (auto simp: shr_step_def Let_def nth_list_update)

lemma shl_fold_nth:
  "j < WIDTH \<Longrightarrow> n \<le> WIDTH \<Longrightarrow> foldl (shl_step k s a) arith_zero [0..<n] ! j =
     (if k \<le> j \<and> j < k + n then push_bit s (a ! (j - k)) else 0) OR
     (if k + 1 \<le> j \<and> j < k + 1 + n \<and> s \<noteq> 0 then drop_bit (32 - s) (a ! (j - k - 1)) else 0)"
proof (induction n)
  case 0
  then show ?case by (auto simp: arith_zero_def)
next
  case (Suc n)
  have len: "length (foldl (shl_step k s a) arith_zero [0..<n]) = WIDTH"
    by (simp add: length_shl_fold arith_zero_def)
  consider "j < k + n" | "j = k + n" | "j = k + n + 1" | "k + n + 1 < j" by linarith
  then show ?case
    by cases (use Suc len in \<open>simp_all add: shl_step_nth or.assoc or.commute\<close>)
qed

lemma shr_fold_nth:
  "j < WIDTH \<Longrightarrow> n \<le> WIDTH \<Longrightarrow> foldl (shr_step k s a) arith_zero [0..<n] ! j =
     (if j + k < n then drop_bit s (a ! (j + k)) else 0) OR
     (if j + k + 1 < n \<and> s \<noteq> 0 then push_bit (32 - s) (a ! (j + k + 1)) else 0)"
proof (induction n)
  case 0
  then show ?case by (simp add: arith_zero_def)
next
  case (Suc n)
  have len: "length (foldl (shr_step k s a) arith_zero [0..<n]) = WIDTH"
    by (simp add: length_shr_fold arith_zero_def)
  consider "j + k + 1 < n" | "n = j + k + 1" | "n = j + k" | "n < j + k" by linarith
  then show ?case
    by cases (use Suc len in \<open>simp_all add: shr_step_nth or.assoc\<close>)
qed

lemma split_shift: obtains k s :: nat where "n = 32 * k + s" "s < 32" "n div 32 = k" "n mod 32 = s"
  by (rule that [of "n div 32" "n mod 32"]) simp_all

lemma bit_u32_high: "32 \<le> b \<Longrightarrow> \<not> bit (x :: u32) b"
  using bit_imp_le_length [of x b] by auto

lemma arith_shl_bit:
  assumes "arith_wf a" "j < 8" "b < 32"
  shows "bit (arith_shl a n ! j) b = bit (push_bit n (limbs_val a)) (32 * j + b)"
proof -
  obtain k s where n: "n = 32 * k + s" "s < 32" and ks: "n div 32 = k" "n mod 32 = s"
    by (rule split_shift)
  have len: "length a = 8" using assms(1) by (simp add: arith_wf_def WIDTH_def)
  have nth: "arith_shl a n ! j =
      (if k \<le> j then push_bit s (a ! (j - k)) else 0) OR
      (if k + 1 \<le> j \<and> s \<noteq> 0 then drop_bit (32 - s) (a ! (j - k - 1)) else 0)"
    using assms(2) by (auto simp: arith_shl_def ks shl_fold_nth WIDTH_def)
  show ?thesis
  proof (cases "s \<le> b")
    case True
    have "n \<le> 32 * j + b \<longleftrightarrow> k \<le> j" using n True assms(3) by linarith
    moreover have "32 * j + b - n = 32 * (j - k) + (b - s)" if "k \<le> j"
      using n True that by simp
    ultimately have "bit (push_bit n (limbs_val a)) (32 * j + b) \<longleftrightarrow> k \<le> j \<and> bit (a ! (j - k)) (b - s)"
      using assms len by (auto simp: bit_push_bit_iff bit_limbs_val_at)
    moreover have "\<not> bit (drop_bit (32 - s) (a ! (j - k - 1))) b"
      using True n by (simp add: bit_drop_bit_eq bit_u32_high)
    ultimately show ?thesis
      using True assms(3) by (auto simp: nth bit_or_iff bit_push_bit_iff)
  next
    case False
    have lt: "b + 32 - s < 32" and eq: "32 - s + b = b + 32 - s" using n False by simp_all
    have "n \<le> 32 * j + b \<longleftrightarrow> k + 1 \<le> j" using n False assms(3) by linarith
    moreover have "32 * j + b - n = 32 * (j - k - 1) + (b + 32 - s)" if "k + 1 \<le> j"
      using n False that by simp
    ultimately have "bit (push_bit n (limbs_val a)) (32 * j + b) \<longleftrightarrow>
        k + 1 \<le> j \<and> bit (a ! (j - k - 1)) (b + 32 - s)"
      using assms len lt by (auto simp: bit_push_bit_iff bit_limbs_val_at simp del: One_nat_def)
    then show ?thesis
      using False by (auto simp: nth bit_or_iff bit_push_bit_iff bit_drop_bit_eq eq)
  qed
qed

lemma arith_shr_bit:
  assumes "arith_wf a" "j < 8" "b < 32"
  shows "bit (arith_shr a n ! j) b = bit (drop_bit n (limbs_val a)) (32 * j + b)"
proof -
  obtain k s where n: "n = 32 * k + s" "s < 32" and ks: "n div 32 = k" "n mod 32 = s"
    by (rule split_shift)
  have len: "length a = 8" using assms(1) by (simp add: arith_wf_def WIDTH_def)
  have nth: "arith_shr a n ! j =
      (if j + k < 8 then drop_bit s (a ! (j + k)) else 0) OR
      (if j + k + 1 < 8 \<and> s \<noteq> 0 then push_bit (32 - s) (a ! (j + k + 1)) else 0)"
    using assms(2) by (simp add: arith_shr_def ks shr_fold_nth WIDTH_def)
  show ?thesis
  proof (cases "s + b < 32")
    case True
    have "n + (32 * j + b) = 32 * (j + k) + (s + b)" using n by simp
    then have "bit (drop_bit n (limbs_val a)) (32 * j + b) \<longleftrightarrow> j + k < 8 \<and> bit (a ! (j + k)) (s + b)"
      using True len by (simp only: bit_drop_bit_eq o_def bit_limbs_val_at)
    then show ?thesis
      using True by (auto simp: nth bit_or_iff bit_push_bit_iff bit_drop_bit_eq)
  next
    case False
    have lt: "s + b - 32 < 32" and eq: "b - (32 - s) = s + b - 32" and le: "32 - s \<le> b" "s \<noteq> 0"
      using n False assms(3) by simp_all
    have "n + (32 * j + b) = 32 * (j + k + 1) + (s + b - 32)" using n False by simp
    then have "bit (drop_bit n (limbs_val a)) (32 * j + b) \<longleftrightarrow>
        j + k + 1 < 8 \<and> bit (a ! (j + k + 1)) (s + b - 32)"
      using lt len by (simp only: bit_drop_bit_eq o_def bit_limbs_val_at)
    moreover have "\<not> bit (drop_bit s (a ! (j + k))) b"
      using False by (simp add: bit_drop_bit_eq bit_u32_high)
    ultimately show ?thesis
      using le assms(3) by (auto simp: nth bit_or_iff bit_push_bit_iff eq)
  qed
qed

lemma arith_shl_val [limb_val]:
  assumes "arith_wf a"
  shows "limbs_val (arith_shl a n) = (limbs_val a * 2 ^ n) mod 2 ^ 256"
proof -
  have "limbs_val (arith_shl a n) = take_bit 256 (push_bit n (limbs_val a))"
  proof (rule arith_val_eqI)
    show "take_bit 256 (push_bit n (limbs_val a)) < 2 ^ 256"
      by (rule take_bit_nat_less_exp)
    show "bit (arith_shl a n ! j) b = bit (take_bit 256 (push_bit n (limbs_val a))) (32 * j + b)"
      if "j < 8" "b < 32" for j b
      using arith_shl_bit [OF assms that] that by (simp add: bit_take_bit_iff)
  qed simp
  then show ?thesis by (simp add: take_bit_eq_mod push_bit_eq_mult)
qed

lemma arith_shr_val [limb_val]:
  assumes "arith_wf a"
  shows "limbs_val (arith_shr a n) = limbs_val a div 2 ^ n"
proof -
  have "drop_bit n (limbs_val a) < 2 ^ 256"
    using arith_val_less [OF assms] le_less_trans [OF div_le_dividend] by (simp add: drop_bit_eq_div)
  then have "limbs_val (arith_shr a n) = drop_bit n (limbs_val a)"
    by (intro arith_val_eqI) (simp_all add: arith_shr_bit assms)
  then show ?thesis by (simp add: drop_bit_eq_div)
qed

subsection \<open>Comparison and bit length\<close>

lemma limbs_val_take_Suc:
  "i < length a \<Longrightarrow> limbs_val (take (Suc i) a) = limbs_val (take i a) + 2 ^ (32 * i) * unat (a ! i)"
  by (simp add: take_Suc_conv_app_nth limbs_val_append)

lemma limbs_val_take_less: "i \<le> length a \<Longrightarrow> limbs_val (take i a) < 2 ^ (32 * i)"
  using limbs_val_less [of "take i a"] by simp

lemma high_limb_less:
  fixes l l' x x' P :: nat
  assumes "l < P" "x < x'"
  shows "l + P * x < l' + P * x'"
proof -
  have "l + P * x < P + P * x" using assms(1) by simp
  also have "\<dots> = P * Suc x" by simp
  also have "\<dots> \<le> P * x'" using assms(2) by (intro mult_le_mono2) simp
  finally show ?thesis by simp
qed

lemma compare_loop_val:
  "i \<le> length a \<Longrightarrow> i \<le> length b \<Longrightarrow> compare_loop i a b =
     (if limbs_val (take i a) < limbs_val (take i b) then -1
      else if limbs_val (take i b) < limbs_val (take i a) then 1 else 0)"
proof (induction i)
  case (Suc i)
  note le = limbs_val_take_less [of i a] limbs_val_take_less [of i b]
  consider "a ! i < b ! i" | "b ! i < a ! i" | "a ! i = b ! i" by (meson linorder_cases)
  then show ?case
  proof cases
    case 1
    then have "limbs_val (take (Suc i) a) < limbs_val (take (Suc i) b)"
      using Suc.prems le by (simp add: limbs_val_take_Suc high_limb_less word_less_nat_alt)
    with 1 show ?thesis by simp
  next
    case 2
    then have "limbs_val (take (Suc i) b) < limbs_val (take (Suc i) a)"
      using Suc.prems le by (simp add: limbs_val_take_Suc high_limb_less word_less_nat_alt)
    with 2 show ?thesis by auto
  next
    case 3
    then show ?thesis using Suc by (simp add: limbs_val_take_Suc)
  qed
qed simp

lemma CompareTo_val:
  assumes "arith_wf a" "arith_wf b"
  shows "CompareTo a b = (if limbs_val a < limbs_val b then -1
           else if limbs_val b < limbs_val a then 1 else 0)"
  using assms compare_loop_val [of WIDTH a b] by (simp add: CompareTo_def arith_wf_def)

lemma CompareTo_ge: "arith_wf a \<Longrightarrow> arith_wf b \<Longrightarrow> 0 \<le> CompareTo a b \<longleftrightarrow> limbs_val b \<le> limbs_val a"
  by (simp add: CompareTo_val)

lemma CompareTo_gt: "arith_wf a \<Longrightarrow> arith_wf b \<Longrightarrow> 0 < CompareTo a b \<longleftrightarrow> limbs_val b < limbs_val a"
  by (simp add: CompareTo_val)

lemma top_bit_loop_Suc:
  "top_bit_loop w (Suc n) = (if bit w (Suc n) then Suc n else top_bit_loop w n)"
  by (simp only: top_bit_loop.simps bit_iff_and_push_bit_not_eq_0)

lemma top_bit_loop_bounds:
  "w \<noteq> 0 \<Longrightarrow> unat w < 2 ^ Suc n \<Longrightarrow>
   2 ^ top_bit_loop w n \<le> unat w \<and> unat w < 2 ^ Suc (top_bit_loop w n) \<and> top_bit_loop w n \<le> n"
proof (induction n)
  case 0
  then show ?case by (simp add: unat_gt_0 Suc_le_eq)
next
  case (Suc n)
  show ?case
  proof (cases "bit w (Suc n)")
    case True
    then have "bit (unat w) (Suc n)" by (simp add: bit_unsigned_iff)
    then have "2 ^ Suc n \<le> unat w"
      by (metis bit_iff_odd div_less even_zero not_less)
    then show ?thesis
      using True Suc.prems by (simp add: top_bit_loop_Suc del: top_bit_loop.simps)
  next
    case False
    then have "\<not> bit (unat w) (Suc n)" by (simp add: bit_unsigned_iff)
    then have "even (unat w div 2 ^ Suc n)" by (simp only: bit_iff_odd not_not)
    moreover have "unat w div 2 ^ Suc n < 2"
      using Suc.prems(2) by (simp add: less_mult_imp_div_less)
    ultimately have "unat w div 2 ^ Suc n = 0" by (metis One_nat_def less_2_cases odd_one)
    then have "unat w < 2 ^ Suc n" by (simp add: div_eq_0_iff)
    with Suc.IH [OF Suc.prems(1)] False show ?thesis
      by (simp add: top_bit_loop_Suc del: top_bit_loop.simps)
  qed
qed

lemma bits_loop_bounds:
  "i \<le> length a \<Longrightarrow>
   limbs_val (take i a) < 2 ^ bits_loop i a \<and> bits_loop i a \<le> 32 * i \<and>
   (if limbs_val (take i a) = 0 then bits_loop i a = 0
    else 0 < bits_loop i a \<and> 2 ^ (bits_loop i a - 1) \<le> limbs_val (take i a))"
proof (induction i)
  case (Suc i)
  then have i: "i < length a" by simp
  show ?case
  proof (cases "a ! i = 0")
    case True
    then show ?thesis using Suc i by (simp add: limbs_val_take_Suc split: if_splits)
  next
    case False
    define t where "t = top_bit_loop (a ! i) 31"
    have t: "2 ^ t \<le> unat (a ! i)" "unat (a ! i) < 2 ^ Suc t" "t \<le> 31"
      using top_bit_loop_bounds [OF False, of 31] unat_u32_less [of "a ! i"] by (simp_all add: t_def)
    have bits: "bits_loop (Suc i) a = 32 * i + t + 1" using False by (simp add: t_def)
    have "limbs_val (take (Suc i) a) < 2 ^ (32 * i) * 2 ^ Suc t"
      using high_limb_less [OF limbs_val_take_less [of i a] t(2), of 0] i
      by (simp add: limbs_val_take_Suc)
    moreover have "2 ^ (32 * i) * 2 ^ t \<le> limbs_val (take (Suc i) a)"
      using t(1) i by (simp add: limbs_val_take_Suc trans_le_add2)
    moreover from this have "limbs_val (take (Suc i) a) \<noteq> 0"
      by (metis le_zero_eq mult_is_0 power_not_zero zero_neq_numeral)
    ultimately show ?thesis
      using t(3) by (simp add: bits power_add algebra_simps del: bits_loop.simps)
  qed
qed simp

lemma arith_bits_upper: "arith_wf a \<Longrightarrow> limbs_val a < 2 ^ arith_bits a"
  using bits_loop_bounds [of WIDTH a] by (simp add: arith_bits_def arith_wf_def)

lemma arith_bits_le: "arith_wf a \<Longrightarrow> arith_bits a \<le> 256"
  using bits_loop_bounds [of WIDTH a] by (simp add: arith_bits_def arith_wf_def WIDTH_def)

lemma arith_bits_lower:
  "arith_wf a \<Longrightarrow> limbs_val a \<noteq> 0 \<Longrightarrow> 0 < arith_bits a \<and> 2 ^ (arith_bits a - 1) \<le> limbs_val a"
  using bits_loop_bounds [of WIDTH a] by (simp add: arith_bits_def arith_wf_def)

lemma arith_bits_0: "arith_wf a \<Longrightarrow> arith_bits a = 0 \<longleftrightarrow> limbs_val a = 0"
  using bits_loop_bounds [of WIDTH a] by (simp add: arith_bits_def arith_wf_def split: if_splits)

subsection \<open>Multiplication\<close>

lemma length_mac_loop [simp]: "length (mac_loop p c xs ys) = length xs"
  by (induction p c xs ys rule: mac_loop.induct) (auto simp: Let_def)

lemma length_mul32_loop [simp]: "length (mul32_loop b c xs) = length xs"
  by (induction b c xs rule: mul32_loop.induct) (auto simp: Let_def)

lemma u32_mac_bound:
  assumes "c < 2 ^ 32" "x < 2 ^ 32" "p < 2 ^ 32" "y < (2 :: nat) ^ 32"
  shows "c + x + p * y < 2 ^ 64"
proof -
  have "p * y \<le> (2 ^ 32 - 1) * (2 ^ 32 - 1)" using assms(3,4) by (intro mult_le_mono) auto
  then show ?thesis using assms(1,2) by simp
qed

lemma mac_loop_val:
  "length xs \<le> length ys \<Longrightarrow> unat c < 2 ^ 32 \<Longrightarrow>
   limbs_val (mac_loop p c xs ys) =
     (unat c + limbs_val xs + unat p * limbs_val ys) mod 2 ^ (32 * length xs)"
proof (induction p c xs ys rule: mac_loop.induct)
  case (1 p c x xs y ys)
  define n where "n = c + ucast x + ucast p * ucast y"
  have bound: "unat c + unat x + unat p * unat y < 2 ^ 64"
    using "1.prems"(2) unat_u32_less by (intro u32_mac_bound) auto
  then have n: "unat n = unat c + unat x + unat p * unat y"
    by (simp add: n_def unat_word_ariths)
  have c': "unat (drop_bit 32 n) < 2 ^ 32"
    using bound by (simp add: unat_high32 n less_mult_imp_div_less)
  have "limbs_val (mac_loop p c (x # xs) (y # ys)) = unat n mod 2 ^ 32 +
      2 ^ 32 * ((unat n div 2 ^ 32 + (limbs_val xs + unat p * limbs_val ys)) mod 2 ^ (32 * length xs))"
    using "1.IH" [OF refl _ c'[unfolded n_def]] "1.prems"(1)
    by (simp add: Let_def flip: n_def) (simp add: unat_low32 unat_high32 add.assoc)
  also have "\<dots> = (unat n + 2 ^ 32 * (limbs_val xs + unat p * limbs_val ys)) mod (2 ^ 32 * 2 ^ (32 * length xs))"
    by (simp only: carry_step)
  also have "unat n + 2 ^ 32 * (limbs_val xs + unat p * limbs_val ys) =
      unat c + limbs_val (x # xs) + unat p * limbs_val (y # ys)"
    by (simp add: n algebra_simps)
  finally show ?case by (simp add: power_add)
qed simp_all

lemma mul32_loop_val:
  "unat c < 2 ^ 32 \<Longrightarrow>
   limbs_val (mul32_loop b c xs) = (unat c + unat b * limbs_val xs) mod 2 ^ (32 * length xs)"
proof (induction b c xs rule: mul32_loop.induct)
  case (2 b c x xs)
  define n where "n = c + ucast b * ucast x"
  have bound: "unat c + 0 + unat b * unat x < 2 ^ 64"
    using "2.prems" unat_u32_less by (intro u32_mac_bound) auto
  then have n: "unat n = unat c + unat b * unat x"
    by (simp add: n_def unat_word_ariths)
  have c': "unat (drop_bit 32 n) < 2 ^ 32"
    using bound by (simp add: unat_high32 n less_mult_imp_div_less)
  have "limbs_val (mul32_loop b c (x # xs)) = unat n mod 2 ^ 32 +
      2 ^ 32 * ((unat n div 2 ^ 32 + unat b * limbs_val xs) mod 2 ^ (32 * length xs))"
    using "2.IH" [OF refl c'[unfolded n_def]]
    by (simp add: Let_def flip: n_def) (simp add: unat_low32 unat_high32)
  also have "\<dots> = (unat n + 2 ^ 32 * (unat b * limbs_val xs)) mod (2 ^ 32 * 2 ^ (32 * length xs))"
    by (simp only: carry_step)
  also have "unat n + 2 ^ 32 * (unat b * limbs_val xs) = unat c + unat b * limbs_val (x # xs)"
    by (simp add: n algebra_simps)
  finally show ?case by (simp add: power_add)
qed simp

lemma arith_mul32_val [limb_val]:
  "arith_wf a \<Longrightarrow> limbs_val (arith_mul32 a b) = (unat b * limbs_val a) mod 2 ^ 256"
  by (simp add: arith_mul32_def mul32_loop_val arith_wf_def WIDTH_def)

lemma low_part_mod:
  fixes l x :: nat
  assumes "l < P"
  shows "l + P * (x mod Q) = (l + P * x) mod (P * Q)"
  using assms carry_step [of l P x Q] by simp

lemma mul_round:
  assumes "length a = 8" "length b = 8" "j < 8"
  shows "limbs_val (take j a @ mac_loop p 0 (drop j a) b) =
    (limbs_val a + 2 ^ (32 * j) * (unat p * limbs_val b)) mod 2 ^ 256"
proof -
  have a: "limbs_val a = limbs_val (take j a) + 2 ^ (32 * j) * limbs_val (drop j a)"
    using limbs_val_append [of "take j a" "drop j a"] assms(1,3) by simp
  have pow: "2 ^ (32 * j) * 2 ^ (32 * (8 - j)) = (2 ^ 256 :: nat)"
    using assms(3) by (simp add: diff_mult_distrib2 flip: power_add)
  have "limbs_val (take j a @ mac_loop p 0 (drop j a) b) = limbs_val (take j a) +
      2 ^ (32 * j) * ((limbs_val (drop j a) + unat p * limbs_val b) mod 2 ^ (32 * (8 - j)))"
    using assms by (simp add: limbs_val_append mac_loop_val)
  also have "\<dots> = (limbs_val (take j a) + 2 ^ (32 * j) * (limbs_val (drop j a) + unat p * limbs_val b))
      mod (2 ^ (32 * j) * 2 ^ (32 * (8 - j)))"
    using assms by (intro low_part_mod limbs_val_take_less) simp
  finally show ?thesis by (simp only: pow a distrib_left add.assoc)
qed

lemma mul_fold:
  assumes "length pn = 8" "length b = 8" "n \<le> 8"
  defines "r \<equiv> \<lambda>n. foldl (\<lambda>a j. take j a @ mac_loop (pn ! j) 0 (drop j a) b) arith_zero [0..<n]"
  shows "length (r n) = 8 \<and> limbs_val (r n) = (limbs_val (take n pn) * limbs_val b) mod 2 ^ 256"
  using assms(3)
proof (induction n)
  case 0
  then show ?case by (simp add: r_def arith_zero_def WIDTH_def)
next
  case (Suc n)
  then have len: "length (r n) = 8" and val: "limbs_val (r n) = (limbs_val (take n pn) * limbs_val b) mod 2 ^ 256"
    by simp_all
  have step: "r (Suc n) = take n (r n) @ mac_loop (pn ! n) 0 (drop n (r n)) b"
    by (simp add: r_def)
  have "limbs_val (r (Suc n)) = ((limbs_val (take n pn) * limbs_val b) mod 2 ^ 256 +
      2 ^ (32 * n) * (unat (pn ! n) * limbs_val b)) mod 2 ^ 256"
    unfolding step using mul_round [OF len assms(2), of n "pn ! n"] Suc.prems by (simp add: val)
  also have "\<dots> = (limbs_val (take n pn) * limbs_val b + 2 ^ (32 * n) * (unat (pn ! n) * limbs_val b)) mod 2 ^ 256"
    by (rule mod_add_left_eq)
  also have "\<dots> = (limbs_val (take (Suc n) pn) * limbs_val b) mod 2 ^ 256"
    using Suc.prems assms(1) by (simp add: limbs_val_take_Suc algebra_simps)
  finally show ?case using len Suc.prems by (simp add: step)
qed

lemma arith_wf_mul [simp]: "arith_wf a \<Longrightarrow> arith_wf b \<Longrightarrow> arith_wf (arith_mul a b)"
  using mul_fold [of a b 8] by (simp add: arith_mul_def arith_wf_def WIDTH_def)

lemma arith_mul_val [limb_val]:
  "arith_wf a \<Longrightarrow> arith_wf b \<Longrightarrow> limbs_val (arith_mul a b) = (limbs_val a * limbs_val b) mod 2 ^ 256"
  using mul_fold [of a b 8] by (simp add: arith_mul_def arith_wf_def WIDTH_def)

subsection \<open>Long division\<close>

lemma set_quotient_bit:
  assumes "arith_wf q" "2 ^ Suc s dvd limbs_val q" "s < 256"
  defines "q' \<equiv> q[s div 32 := q ! (s div 32) OR push_bit (s mod 32) 1]"
  shows "arith_wf q' \<and> limbs_val q' = limbs_val q + 2 ^ s"
proof
  show wf: "arith_wf q'" using assms(1) by (simp add: q'_def arith_wf_def)
  have len: "length q = 8" using assms(1) by (simp add: arith_wf_def WIDTH_def)
  obtain m where "limbs_val q = 2 ^ Suc s * m" using assms(2) by (auto elim: dvdE)
  then have "\<not> bit (limbs_val q) s" by (simp add: bit_iff_odd)
  then have "limbs_val q AND push_bit s 1 = 0"
    by (intro bit_eqI) (auto simp: bit_and_iff bit_exp_iff)
  then have plus: "limbs_val q + 2 ^ s = limbs_val q OR push_bit s 1"
    by (simp flip: disjunctive_add_eq_or)
  have "limbs_val q' = limbs_val q OR push_bit s 1"
  proof (rule bit_eqI)
    fix p
    have "s = p \<longleftrightarrow> s div 32 = p div 32 \<and> s mod 32 = p mod 32"
      by (metis div_mult_mod_eq)
    then show "bit (limbs_val q') p = bit (limbs_val q OR push_bit s 1) p"
      using assms(3) len
      by (auto simp: bit_limbs_val q'_def nth_list_update bit_or_iff bit_exp_iff)
  qed
  then show "limbs_val q' = limbs_val q + 2 ^ s" by (simp only: plus)
qed

lemma div_loop_val:
  assumes "arith_wf num" "arith_wf dv" "arith_wf q" "0 < D" "s \<le> 256"
    and "2 ^ s dvd limbs_val q" "limbs_val num < 2 ^ s * D"
    and "0 < s \<Longrightarrow> limbs_val dv = D * 2 ^ (s - 1)"
  shows "arith_wf (div_loop s num dv q) \<and>
    limbs_val (div_loop s num dv q) = (limbs_val q * D + limbs_val num) div D"
  using assms(1-3,5-8)
proof (induction s arbitrary: num dv q)
  case 0
  then show ?case using \<open>0 < D\<close> by simp
next
  case (Suc k)
  have dv: "limbs_val dv = D * 2 ^ k" using Suc.prems by simp
  have half: "limbs_val (arith_shr dv 1) = D * 2 ^ (k - 1)" if "0 < k"
    using that Suc.prems(2) by (cases k) (simp_all add: arith_shr_val dv)
  show ?case
  proof (cases "limbs_val dv \<le> limbs_val num")
    case True
    define q' where "q' = q[k div 32 := q ! (k div 32) OR push_bit (k mod 32) 1]"
    have q': "arith_wf q'" "limbs_val q' = limbs_val q + 2 ^ k"
      using set_quotient_bit [OF Suc.prems(3,5)] Suc.prems(4) by (simp_all add: q'_def)
    have num': "limbs_val (arith_sub num dv) = limbs_val num - D * 2 ^ k"
      using True Suc.prems(1,2) by (simp add: arith_sub_val_le flip: dv)
    have "2 ^ k dvd limbs_val q'"
      using Suc.prems(5) unfolding q'(2) by (intro dvd_add) (auto elim: dvd_mult_left)
    moreover have "limbs_val (arith_sub num dv) < 2 ^ k * D"
      using Suc.prems(6) by (simp add: num' algebra_simps)
    ultimately have "arith_wf (div_loop k (arith_sub num dv) (arith_shr dv 1) q') \<and>
        limbs_val (div_loop k (arith_sub num dv) (arith_shr dv 1) q') =
        (limbs_val q' * D + limbs_val (arith_sub num dv)) div D"
      using Suc.prems half q'(1) by (intro Suc.IH) simp_all
    moreover have "limbs_val q' * D + limbs_val (arith_sub num dv) = limbs_val q * D + limbs_val num"
      using True by (simp add: q'(2) num' dv algebra_simps)
    moreover have "div_loop (Suc k) num dv q = div_loop k (arith_sub num dv) (arith_shr dv 1) q'"
      using True Suc.prems(1,2) by (simp add: CompareTo_ge q'_def)
    ultimately show ?thesis by simp
  next
    case False
    have "2 ^ k dvd limbs_val q" using Suc.prems(5) by (auto elim: dvd_mult_left)
    then have "arith_wf (div_loop k num (arith_shr dv 1) q) \<and>
        limbs_val (div_loop k num (arith_shr dv 1) q) = (limbs_val q * D + limbs_val num) div D"
      using Suc.prems half False by (intro Suc.IH) (simp_all add: dv algebra_simps)
    then show ?thesis using False Suc.prems(1,2) by (simp add: CompareTo_ge)
  qed
qed

lemma arith_div_val:
  assumes wf: "arith_wf a" "arith_wf b" and b0: "limbs_val b \<noteq> 0"
  shows "\<exists>q. arith_div a b = Inr q \<and> arith_wf q \<and> limbs_val q = limbs_val a div limbs_val b"
proof -
  define n d where "n = arith_bits a" and "d = arith_bits b"
  have d: "d \<noteq> 0" "2 ^ (d - 1) \<le> limbs_val b" "limbs_val b < 2 ^ d"
    using arith_bits_lower [OF wf(2) b0] arith_bits_upper [OF wf(2)] by (simp_all add: d_def)
  have n: "limbs_val a < 2 ^ n" "n \<le> 256"
    using arith_bits_upper [OF wf(1)] arith_bits_le [OF wf(1)] by (simp_all add: n_def)
  show ?thesis
  proof (cases "d > n")
    case True
    then have "2 ^ n \<le> (2 :: nat) ^ (d - 1)" by (intro power_increasing) auto
    with n d have "limbs_val a < limbs_val b" by linarith
    with True d show ?thesis by (simp add: arith_div_def Let_def n_def [symmetric] d_def [symmetric])
  next
    case False
    define s where "s = n - d"
    have "limbs_val b * 2 ^ s < 2 ^ d * 2 ^ s" using d(3) by simp
    also have "\<dots> = 2 ^ n" using False by (simp add: s_def flip: power_add)
    also have "\<dots> \<le> (2 :: nat) ^ 256" using n(2) by (intro power_increasing) auto
    finally have shl: "limbs_val (arith_shl b s) = limbs_val b * 2 ^ s"
      using wf(2) by (simp add: arith_shl_val)
    have "(2 :: nat) ^ n = 2 ^ Suc s * 2 ^ (d - 1)"
      using False d(1) by (simp add: s_def flip: power_add power_Suc)
    also have "\<dots> \<le> 2 ^ Suc s * limbs_val b" using d(2) by (rule mult_le_mono2)
    finally have "limbs_val a < 2 ^ Suc s * limbs_val b" using n(1) by linarith
    then have "arith_wf (div_loop (Suc s) a (arith_shl b s) arith_zero) \<and>
        limbs_val (div_loop (Suc s) a (arith_shl b s) arith_zero) =
        (limbs_val arith_zero * limbs_val b + limbs_val a) div limbs_val b"
      using wf b0 n(2) d(1) False shl by (intro div_loop_val) (simp_all add: s_def)
    moreover have "arith_div a b = Inr (div_loop (Suc s) a (arith_shl b s) arith_zero)"
      using d(1) False
      by (simp add: arith_div_def Let_def s_def flip: n_def d_def del: div_loop.simps)
    ultimately show ?thesis by simp
  qed
qed

lemma arith_div_zero: "arith_wf b \<Longrightarrow> limbs_val b = 0 \<Longrightarrow> arith_div a b = Inl DivisionByZero"
  by (simp add: arith_div_def Let_def arith_bits_0)

subsection \<open>64-bit values\<close>

lemma arith_wf_of_u64 [simp]: "arith_wf (arith_of_u64 b)"
  by (simp add: arith_wf_def arith_of_u64_def WIDTH_def)

lemma unat_ucast_u32: "unat (ucast (b :: u64) :: u32) = unat b mod 2 ^ 32"
  by (simp add: unsigned_ucast_eq take_bit_eq_mod)

lemma arith_of_u64_val [limb_val]: "limbs_val (arith_of_u64 b) = unat b"
proof -
  have "unat b div 2 ^ 32 < 2 ^ 32"
    using unat_u64_less [of b] by (simp add: less_mult_imp_div_less)
  then have "limbs_val (arith_of_u64 b) = unat b mod 2 ^ 32 + 2 ^ 32 * (unat b div 2 ^ 32)"
    by (simp add: arith_of_u64_def unat_ucast_u32 unat_high32)
  then show ?thesis by simp
qed

lemma GetLow64_val: "arith_wf a \<Longrightarrow> unat (GetLow64 a) = limbs_val a mod 2 ^ 64"
proof -
  assume wf: "arith_wf a"
  then have len: "length a = 8" by (simp add: arith_wf_def WIDTH_def)
  have "unat (GetLow64 a) = take_bit 64 (limbs_val a)"
  proof (rule bit_eqI)
    fix p
    show "bit (unat (GetLow64 a)) p = bit (take_bit 64 (limbs_val a)) p"
    proof (cases "p < 32")
      case True
      then show ?thesis
        using len by (simp add: GetLow64_def bit_unsigned_iff bit_or_iff bit_push_bit_iff
            bit_take_bit_iff bit_limbs_val bit_ucast_iff)
    next
      case ge: False
      show ?thesis
      proof (cases "p < 64")
        case True
        with ge have "p div 32 = 1" "p mod 32 = p - 32" by (simp_all add: div_if mod_if)
        then show ?thesis
          using True ge len by (auto simp: GetLow64_def bit_unsigned_iff bit_or_iff bit_push_bit_iff
            bit_take_bit_iff bit_limbs_val bit_ucast_iff bit_u32_high)
      next
        case False
        then show ?thesis
          using bit_imp_le_length [of "GetLow64 a" p] by (auto simp: bit_unsigned_iff bit_take_bit_iff)
      qed
    qed
  qed
  then show ?thesis by (simp add: take_bit_eq_mod)
qed

lemma ucast_u64_u32: "ucast (ucast (x :: u32) :: u64) = x"
  by (rule bit_word_eqI) (simp add: bit_ucast_iff)

lemma replicate_eval: "replicate (numeral k) x = x # replicate (pred_numeral k) x"
  by (simp add: numeral_eq_Suc)

lemma EqualTo_val:
  assumes "arith_wf a"
  shows "EqualTo a b \<longleftrightarrow> limbs_val a = unat b"
proof -
  obtain a0 a1 a2 a3 a4 a5 a6 a7 where a: "a = [a0, a1, a2, a3, a4, a5, a6, a7]"
    using assms by (auto simp: arith_wf_def WIDTH_def length_Suc_conv numeral_eq_Suc)
  have tail: "(\<exists>i\<in>set [2..<WIDTH]. a ! i \<noteq> 0) \<longleftrightarrow> [a2, a3, a4, a5, a6, a7] \<noteq> [0, 0, 0, 0, 0, 0]"
    by (simp add: a WIDTH_def upt_rec)
  have lo: "ucast a0 = b AND 0xffffffff \<longleftrightarrow> a0 = ucast b"
  proof -
    have "ucast (b AND 0xffffffff) = (ucast b :: u32)" 
      using take_bit_eq_mask [of 32 b, symmetric]
      by (intro bit_word_eqI) (simp add: bit_ucast_iff bit_take_bit_iff mask_eq_decr_exp)
    moreover have "ucast (ucast b :: u32) = b AND 0xffffffff"
      using take_bit_eq_mask [of 32 b, symmetric]
      by (intro bit_word_eqI) (simp add: bit_ucast_iff bit_take_bit_iff mask_eq_decr_exp conj_commute)
    moreover have "ucast (ucast a0 :: u64) = a0" by (rule ucast_u64_u32)
    ultimately show ?thesis by metis
  qed
  have hi: "ucast a1 = drop_bit 32 b \<longleftrightarrow> a1 = ucast (drop_bit 32 b)"
  proof -
    have "unat (ucast (ucast (drop_bit 32 b) :: u32) :: u64) = unat (drop_bit 32 b)"
      using unat_u64_less [of b]
      by (simp add: unat_ucast_u32 unat_high32 less_mult_imp_div_less)
    then have "ucast (ucast (drop_bit 32 b) :: u32) = drop_bit 32 b" by (rule unsigned_word_eqI)
    moreover have "ucast (ucast a1 :: u64) = a1" by (rule ucast_u64_u32)
    ultimately show ?thesis by metis
  qed
  have "EqualTo a b \<longleftrightarrow> a = arith_of_u64 b"
  proof -
    have "arith_of_u64 b = [ucast b, ucast (drop_bit 32 b), 0, 0, 0, 0, 0, 0]"
      by (simp add: arith_of_u64_def WIDTH_def replicate_eval)
    then show ?thesis unfolding EqualTo_def tail by (auto simp: a lo hi)
  qed
  also have "\<dots> \<longleftrightarrow> limbs_val a = unat b"
    using arith_val_inject [OF assms arith_wf_of_u64] by (simp add: arith_of_u64_val)
  finally show ?thesis .
qed

section \<open>The contract of the number type\<close>

text \<open>
  What the chain-work and difficulty code relies on: a fixed-width number type whose operations
  are the ones on naturals modulo \<open>2 ^ N\<close>, and whose division is exact.
\<close>

locale modular_uint =
  fixes N :: nat
    and wf :: "'a \<Rightarrow> bool"
    and val :: "'a \<Rightarrow> nat"
    and one :: "'a"
    and add :: "'a \<Rightarrow> 'a \<Rightarrow> 'a"
    and mul :: "'a \<Rightarrow> 'a \<Rightarrow> 'a"
    and neg :: "'a \<Rightarrow> 'a"
    and dv :: "'a \<Rightarrow> 'a \<Rightarrow> abort + 'a"
  assumes wf_closed: "wf one" "wf a \<Longrightarrow> wf (neg a)" "wf a \<Longrightarrow> wf b \<Longrightarrow> wf (add a b)"
      "wf a \<Longrightarrow> wf b \<Longrightarrow> wf (mul a b)"
    and val_less: "wf a \<Longrightarrow> val a < 2 ^ N"
    and val_one: "val one = 1"
    and val_add: "wf a \<Longrightarrow> wf b \<Longrightarrow> val (add a b) = (val a + val b) mod 2 ^ N"
    and val_mul: "wf a \<Longrightarrow> wf b \<Longrightarrow> val (mul a b) = (val a * val b) mod 2 ^ N"
    and val_neg: "wf a \<Longrightarrow> val (neg a) = 2 ^ N - 1 - val a"
    and dv_exact: "wf a \<Longrightarrow> wf b \<Longrightarrow> val b \<noteq> 0 \<Longrightarrow> \<exists>q. dv a b = Inr q \<and> wf q \<and> val q = val a div val b"
begin

lemma work_of_target:
  assumes "wf t" "0 < val t" "val t + 1 < 2 ^ N"
  shows "\<exists>q. dv (neg t) (add t one) = Inr q \<and> wf q \<and> val (add q one) = 2 ^ N div (val t + 1)"
proof -
  have t1: "val (add t one) = val t + 1" using assms by (simp add: val_add val_one wf_closed)
  then obtain q where q: "dv (neg t) (add t one) = Inr q" "wf q" "val q = val (neg t) div (val t + 1)"
    using dv_exact [of "neg t" "add t one"] assms(1) by (auto simp: wf_closed)
  have "2 ^ N div (val t + 1) = (2 ^ N - (val t + 1)) div (val t + 1) + 1"
    using assms by (subst le_div_geq) auto
  then have w: "val q + 1 = 2 ^ N div (val t + 1)" using assms(1) by (simp add: q val_neg)
  have "2 ^ N div (val t + 1) < 2 ^ N" using assms by (intro div_less_dividend) auto
  then have "val (add q one) = 2 ^ N div (val t + 1)"
    using q(2) w by (simp add: val_add val_one wf_closed)
  with q show ?thesis by blast
qed

lemma scaled_quotient:
  assumes "wf a" "wf b" "wf c" "val a * val b < 2 ^ N" "val c \<noteq> 0"
  shows "\<exists>q. dv (mul a b) c = Inr q \<and> wf q \<and> val q = val a * val b div val c"
  using dv_exact [of "mul a b" c] assms by (simp add: wf_closed val_mul)

lemma sum_no_wrap:
  assumes "\<forall>x\<in>set xs. wf x" "wf a" "val a + sum_list (map val xs) < 2 ^ N"
  shows "wf (foldl add a xs) \<and> val (foldl add a xs) = val a + sum_list (map val xs)"
  using assms
proof (induction xs arbitrary: a)
  case (Cons x xs)
  then have "val (add a x) = val a + val x" by (simp add: val_add)
  with Cons.prems show ?case using Cons.IH [of "add a x"] by (simp add: wf_closed)
qed simp

end

interpretation u256: modular_uint 256 arith_wf limbs_val "arith_of_u64 1" arith_add arith_mul arith_not arith_div
  by unfold_locales
    (use arith_val_less in \<open>auto intro: arith_div_val simp: arith_add_val arith_mul_val arith_not_val arith_of_u64_val\<close>)

section \<open>Properties\<close>

text \<open>\<^bold>\<open>C14\<close>: the limb loops of \<^verbatim>\<open>base_uint\<close> compute arithmetic modulo \<open>2 ^ 256\<close>: addition,
  subtraction (two's complement of the subtrahend), complement, multiplication by a word and by
  a number, and both shifts, on every pair of eight-limb numbers and every shift distance.\<close>

theorem arith_ops_modular:
  assumes "arith_wf a" "arith_wf b"
  shows "limbs_val (arith_add a b) = (limbs_val a + limbs_val b) mod 2 ^ 256 \<and>
    limbs_val (arith_sub a b) = (limbs_val a + (2 ^ 256 - limbs_val b)) mod 2 ^ 256 \<and>
    limbs_val (arith_not a) = 2 ^ 256 - 1 - limbs_val a \<and>
    limbs_val (arith_mul32 a w) = (unat w * limbs_val a) mod 2 ^ 256 \<and>
    limbs_val (arith_mul a b) = (limbs_val a * limbs_val b) mod 2 ^ 256 \<and>
    limbs_val (arith_shl a n) = (limbs_val a * 2 ^ n) mod 2 ^ 256 \<and>
    limbs_val (arith_shr a n) = limbs_val a div 2 ^ n"
  using assms by (intro conjI) (rule limb_val; assumption)+

theorem arith_ops_modular_witness:
  "arith_wf (arith_of_u64 5) \<and> arith_wf (arith_of_u64 9) \<and>
   limbs_val (arith_sub (arith_of_u64 5) (arith_of_u64 9)) = (5 + (2 ^ 256 - 9)) mod 2 ^ 256"
  using arith_ops_modular [of "arith_of_u64 5" "arith_of_u64 9"]
  by (intro conjI arith_wf_of_u64) (simp only: arith_wf_of_u64 arith_of_u64_val unat_numeral simp_thms, simp add: arith_of_u64_val)

text \<open>\<^bold>\<open>C15\<close>: the shift-and-subtract loop of \<^verbatim>\<open>operator/=\<close> is exact. On a non-zero divisor it
  returns the integer quotient; on zero it throws \<^verbatim>\<open>uint_error("Division by zero")\<close>.\<close>

theorem arith_div_exact:
  assumes "arith_wf a" "arith_wf b"
  shows "if limbs_val b = 0 then arith_div a b = Inl DivisionByZero
    else \<exists>q. arith_div a b = Inr q \<and> arith_wf q \<and> limbs_val q = limbs_val a div limbs_val b"
  using arith_div_zero [OF assms(2)] arith_div_val [OF assms] by simp

theorem arith_div_exact_witness:
  "arith_wf (arith_of_u64 100) \<and> arith_wf (arith_of_u64 7) \<and>
   (\<exists>q. arith_div (arith_of_u64 100) (arith_of_u64 7) = Inr q \<and> limbs_val q = 14)"
  using arith_div_exact [of "arith_of_u64 100" "arith_of_u64 7"] by (auto simp: arith_of_u64_val)

end
