(* ===== verification/Compact_Target.thy ===== *)
theory Compact_Target
  imports Arith_Uint256
begin

text \<open>
  The compact encoding of difficulty targets (\<^verbatim>\<open>arith_uint256::SetCompact\<close> and
  \<^verbatim>\<open>GetCompact\<close>) and the byte view of 256-bit numbers (\<^verbatim>\<open>ArithToUint256\<close>,
  \<^verbatim>\<open>UintToArith256\<close>), from \<^verbatim>\<open>src/src/arith_uint256.cpp\<close> and \<^verbatim>\<open>src/src/crypto/common.h\<close>.
  The lemmas give the number a compact word denotes, show that the overflow flag is raised
  exactly when that number does not fit 256 bits, and bound what encoding loses.
\<close>

section \<open>Model\<close>

text \<open>\<^verbatim>\<open>SetCompact\<close> returns the number and the two flags \<^verbatim>\<open>*pfNegative\<close>, \<^verbatim>\<open>*pfOverflow\<close>.\<close>

definition SetCompact :: "u32 \<Rightarrow> arith_uint256 \<times> bool \<times> bool" where
  "SetCompact nCompact =
     (let nSize = unat (drop_bit 24 nCompact);
          nWord0 = nCompact AND 0x007fffff;
          nWord = (if nSize \<le> 3 then drop_bit (8 * (3 - nSize)) nWord0 else nWord0);
          num = (if nSize \<le> 3 then arith_of_u64 (ucast nWord)
                 else arith_shl (arith_of_u64 (ucast nWord)) (8 * (nSize - 3)))
      in (num,
          nWord \<noteq> 0 \<and> nCompact AND 0x00800000 \<noteq> 0,
          nWord \<noteq> 0 \<and> (nSize > 34 \<or> nWord > 0xff \<and> nSize > 33 \<or> nWord > 0xffff \<and> nSize > 32)))"

definition GetCompact :: "arith_uint256 \<Rightarrow> bool \<Rightarrow> abort + u32" where
  "GetCompact a fNegative =
     (let nSize0 = (arith_bits a + 7) div 8;
          nCompact0 = (if nSize0 \<le> 3 then ucast (push_bit (8 * (3 - nSize0)) (GetLow64 a))
                       else ucast (GetLow64 (arith_shr a (8 * (nSize0 - 3))))) :: u32;
          big = nCompact0 AND 0x00800000 \<noteq> 0;
          nCompact = (if big then drop_bit 8 nCompact0 else nCompact0);
          nSize = (if big then nSize0 + 1 else nSize0)
      in if nCompact AND NOT 0x007fffff \<noteq> 0 then Inl AssertFailed
         else if \<not> nSize < 256 then Inl AssertFailed
         else let c = nCompact OR push_bit 24 (of_nat nSize)
              in Inr (c OR (if fNegative \<and> c AND 0x007fffff \<noteq> 0 then 0x00800000 else 0)))"

definition ReadLE32 :: "byte list \<Rightarrow> u32" where
  "ReadLE32 p = ucast (p ! 0) OR push_bit 8 (ucast (p ! 1)) OR push_bit 16 (ucast (p ! 2)) OR
     push_bit 24 (ucast (p ! 3))"

definition WriteLE32 :: "u32 \<Rightarrow> byte list" where
  "WriteLE32 x = [ucast x, ucast (drop_bit 8 x), ucast (drop_bit 16 x), ucast (drop_bit 24 x)]"

definition ArithToUint256 :: "arith_uint256 \<Rightarrow> uint256" where
  "ArithToUint256 a = concat (map (\<lambda>x. WriteLE32 (a ! x)) [0..<WIDTH])"

definition UintToArith256 :: "uint256 \<Rightarrow> arith_uint256" where
  "UintToArith256 b = map (\<lambda>x. ReadLE32 (drop (x * 4) b)) [0..<WIDTH]"

section \<open>Decoding\<close>

definition compact_size :: "u32 \<Rightarrow> nat" where
  "compact_size c = unat c div 2 ^ 24"

definition compact_value :: "u32 \<Rightarrow> nat" where
  "compact_value c =
     (let m = unat c mod 2 ^ 23; sz = compact_size c
      in if sz \<le> 3 then m div 256 ^ (3 - sz) else m * 256 ^ (sz - 3))"

lemma unat_drop_u32: "unat (drop_bit k (w :: u32)) = unat w div 2 ^ k"
  using unat_u32_less [of w]
  by (simp only: unsigned_drop_bit_eq) (simp add: drop_bit_eq_div take_bit_nat_eq_self)

lemma unat_mask23: "unat (w AND 0x007fffff :: u32) = unat w mod 2 ^ 23"
proof -
  have "w AND 0x007fffff = take_bit 23 w"
    by (simp add: take_bit_eq_mask mask_eq_decr_exp)
  then show ?thesis by (simp add: take_bit_eq_mod unat_mod)
qed

lemma sign_bit_iff: "(w :: u32) AND 0x00800000 \<noteq> 0 \<longleftrightarrow> bit w 23"
  using bit_iff_and_push_bit_not_eq_0 [of w 23] by simp

lemma compact_size_less: "compact_size c < 256"
  using unat_u32_less [of c] by (simp add: compact_size_def less_mult_imp_div_less)

lemma pow256: "(256 :: nat) ^ k = 2 ^ (8 * k)"
  by (simp add: power_mult)

lemma SetCompact_word:
  "unat (if compact_size c \<le> 3 then drop_bit (8 * (3 - compact_size c)) (c AND 0x007fffff)
         else c AND 0x007fffff) =
   (if compact_size c \<le> 3 then unat c mod 2 ^ 23 div 256 ^ (3 - compact_size c) else unat c mod 2 ^ 23)"
  unfolding if_distrib [of unat] unat_drop_u32 unat_mask23 pow256 ..

lemma compact_overflow_iff:
  fixes m :: nat
  assumes "m < 2 ^ 23" "3 < sz"
  shows "m \<noteq> 0 \<and> (sz > 34 \<or> m > 0xff \<and> sz > 33 \<or> m > 0xffff \<and> sz > 32) \<longleftrightarrow>
    2 ^ 256 \<le> m * 256 ^ (sz - 3)"
proof -
  consider "sz \<le> 32" | "sz = 33" | "sz = 34" | "34 < sz" by linarith
  then show ?thesis
  proof cases
    case 1
    then have "m * 256 ^ (sz - 3) \<le> m * 256 ^ 29" by (intro mult_le_mono2 power_increasing) auto
    also have "\<dots> < 2 ^ 23 * 256 ^ 29" using assms(1) by simp
    finally show ?thesis using 1 by simp
  next
    case 4
    have "256 ^ 32 \<le> (256 :: nat) ^ (sz - 3)" using 4 by (intro power_increasing) auto
    then have "m \<noteq> 0 \<Longrightarrow> 256 ^ 32 \<le> m * 256 ^ (sz - 3)"
      by (metis One_nat_def Suc_leI le_trans mult_le_mono1 nat_mult_1 neq0_conv)
    with 4 show ?thesis by (cases "m = 0") auto
  qed auto
qed

theorem SetCompact_spec:
  assumes "SetCompact c = (n, neg, ovf)"
  shows "arith_wf n" and "limbs_val n = compact_value c mod 2 ^ 256"
    and "ovf \<longleftrightarrow> 2 ^ 256 \<le> compact_value c" and "neg \<longleftrightarrow> compact_value c \<noteq> 0 \<and> bit c 23"
proof -
  define sz where "sz = compact_size c"
  define w where "w = (if sz \<le> 3 then drop_bit (8 * (3 - sz)) (c AND 0x007fffff) else c AND 0x007fffff)"
  have sz: "unat (drop_bit 24 c) = sz" by (simp add: sz_def compact_size_def unat_drop_u32)
  have w: "unat w = (if sz \<le> 3 then unat c mod 2 ^ 23 div 256 ^ (3 - sz) else unat c mod 2 ^ 23)"
    unfolding w_def sz_def by (rule SetCompact_word)
  have val: "compact_value c = unat w * (if sz \<le> 3 then 1 else 256 ^ (sz - 3))"
    by (simp add: compact_value_def w flip: sz_def)
  have eq: "n = (if sz \<le> 3 then arith_of_u64 (ucast w) else arith_shl (arith_of_u64 (ucast w)) (8 * (sz - 3)))"
    "neg = (w \<noteq> 0 \<and> c AND 0x00800000 \<noteq> 0)"
    "ovf = (w \<noteq> 0 \<and> (sz > 34 \<or> w > 0xff \<and> sz > 33 \<or> w > 0xffff \<and> sz > 32))"
    using assms unfolding SetCompact_def sz Let_def w_def [symmetric] prod.inject by metis+
  have w0: "w = 0 \<longleftrightarrow> unat w = 0" by (simp add: unat_eq_0)
  have lt: "unat w < 2 ^ 23"
    by (simp add: w le_less_trans [OF div_le_dividend])
  show "arith_wf n" by (simp add: eq)
  show "limbs_val n = compact_value c mod 2 ^ 256"
    using lt by (simp add: eq val arith_shl_val arith_of_u64_val pow256)
  show "ovf \<longleftrightarrow> 2 ^ 256 \<le> compact_value c"
  proof (cases "sz \<le> 3")
    case True
    then show ?thesis using lt by (simp add: eq val)
  next
    case False
    then show ?thesis
      using compact_overflow_iff [OF lt, of sz]
      by (simp add: eq val w0 word_less_nat_alt)
  qed
  show "neg \<longleftrightarrow> compact_value c \<noteq> 0 \<and> bit c 23"
    by (simp add: eq val w0 sign_bit_iff)
qed

section \<open>Encoding\<close>

lemma and_not_mask23: "(w :: u32) AND NOT 0x007fffff = 0 \<longleftrightarrow> unat w < 2 ^ 23"
proof -
  have "w AND NOT 0x007fffff = 0 \<longleftrightarrow> take_bit 23 w = w"
  proof -
    have m: "(0x007fffff :: u32) = mask 23" by (simp add: mask_eq_decr_exp)
    show ?thesis unfolding m by (auto simp: bit_eq_iff bit_simps)
  qed
  also have "\<dots> \<longleftrightarrow> unat w < 2 ^ 23"
  proof -
    have "unat (take_bit 23 w) = unat w mod 2 ^ 23"
      by (simp add: take_bit_eq_mod unat_mod)
    then show ?thesis
      by (simp only: word_unat_eq_iff mod_eq_self_iff_div_eq_0 div_eq_0_iff) simp
  qed
  finally show ?thesis .
qed

lemma bit_u32_iff: "bit (w :: u32) n \<longleftrightarrow> odd (unat w div 2 ^ n)"
proof -
  have "bit w n \<longleftrightarrow> bit (unat w) n" by (simp add: bit_unsigned_iff)
  also have "\<dots> \<longleftrightarrow> odd (unat w div 2 ^ n)" by (rule bit_iff_odd)
  finally show ?thesis .
qed

lemma bit23_iff:
  assumes "unat (w :: u32) < 2 ^ 24"
  shows "bit w 23 \<longleftrightarrow> 2 ^ 23 \<le> unat w"
proof -
  have "bit w 23 \<longleftrightarrow> odd (unat w div 2 ^ 23)" by (rule bit_u32_iff)
  moreover have "unat w div 2 ^ 23 = (if 2 ^ 23 \<le> unat w then 1 else 0)"
    using assms by (auto simp: div_nat_eqI)
  ultimately show ?thesis by simp
qed

lemma compact_word_val:
  assumes "unat (m :: u32) < 2 ^ 23" "sz < 256"
  defines "c \<equiv> m OR push_bit 24 (of_nat sz)"
  shows "unat c = unat m + sz * 2 ^ 24" "compact_size c = sz" "unat c mod 2 ^ 23 = unat m" "\<not> bit c 23"
proof -
  have p: "unat (push_bit 24 (of_nat sz :: u32)) = sz * 2 ^ 24"
    using assms(2) by (simp add: push_bit_eq_mult unat_word_ariths unat_of_nat)
  have "m AND push_bit 24 (of_nat sz) = 0"
  proof (rule bit_word_eqI)
    fix n assume "n < LENGTH(32)"
    have "\<not> bit m n" if "24 \<le> n"
    proof -
      have "(2 :: nat) ^ 23 \<le> 2 ^ n" using that by (intro power_increasing) auto
      then have "unat m div 2 ^ n = 0" using assms(1) by (intro div_less) linarith
      then show ?thesis by (simp add: bit_u32_iff)
    qed
    then show "bit (m AND push_bit 24 (of_nat sz)) n = bit (0 :: u32) n"
      by (auto simp: bit_simps)
  qed
  then have "c = m + push_bit 24 (of_nat sz)" unfolding c_def by (simp add: disjunctive_add_eq_or)
  then show v: "unat c = unat m + sz * 2 ^ 24"
    using assms(1,2) p by (simp add: unat_word_ariths)
  show "compact_size c = sz" using assms(1) by (simp add: compact_size_def v)
  have v': "unat c = unat m + (2 * sz) * 2 ^ 23" by (simp add: v)
  show "unat c mod 2 ^ 23 = unat m" using assms(1) by (simp only: v' mod_mult_self1 mod_less)
  have "unat c div 2 ^ 23 = 2 * sz" using assms(1) by (simp only: v' div_mult_self1 div_less)
  then show "\<not> bit c 23" by (simp add: bit_u32_iff)
qed

definition mantissa :: "nat \<Rightarrow> nat \<Rightarrow> nat" where
  "mantissa v sz = (if sz \<le> 3 then v * 256 ^ (3 - sz) else v div 256 ^ (sz - 3))"

definition mantissa_value :: "nat \<Rightarrow> nat \<Rightarrow> nat" where
  "mantissa_value m sz = (if sz \<le> 3 then m div 256 ^ (3 - sz) else m * 256 ^ (sz - 3))"

lemma arith_bytes_bounds:
  assumes "arith_wf a"
  defines "sz \<equiv> (arith_bits a + 7) div 8"
  shows "limbs_val a < 256 ^ sz" "limbs_val a \<noteq> 0 \<Longrightarrow> 0 < sz \<and> 256 ^ (sz - 1) \<le> limbs_val a" "sz \<le> 32"
proof -
  have "arith_bits a \<le> 8 * sz" "8 * (sz - 1) \<le> arith_bits a - 1" unfolding sz_def by linarith+
  then have p: "(2 :: nat) ^ arith_bits a \<le> 256 ^ sz" "(256 :: nat) ^ (sz - 1) \<le> 2 ^ (arith_bits a - 1)"
    by (simp_all add: pow256)
  show "limbs_val a < 256 ^ sz" using arith_bits_upper [OF assms(1)] p(1) by (rule less_le_trans)
  show "sz \<le> 32" using arith_bits_le [OF assms(1)] unfolding sz_def by linarith
  assume "limbs_val a \<noteq> 0"
  from arith_bits_lower [OF assms(1) this] p(2) show "0 < sz \<and> 256 ^ (sz - 1) \<le> limbs_val a"
    unfolding sz_def by linarith
qed

lemma mantissa_less:
  assumes "v < 256 ^ sz"
  shows "mantissa v sz < 2 ^ 24"
proof (cases "sz \<le> 3")
  case True
  have "v * 256 ^ (3 - sz) < 256 ^ sz * 256 ^ (3 - sz)" using assms by simp
  also have "\<dots> = 256 ^ 3" using True by (simp flip: power_add)
  finally show ?thesis using True by (simp add: mantissa_def)
next
  case False
  have "(256 :: nat) ^ sz = 256 ^ 3 * 256 ^ (sz - 3)" using False by (simp only: flip: power_add) simp
  then have "v < 256 ^ 3 * 256 ^ (sz - 3)" using assms by (simp only:)
  then show ?thesis using False by (simp add: mantissa_def less_mult_imp_div_less)
qed

lemma mantissa_ge:
  assumes "256 ^ (sz - 1) \<le> v" "3 \<le> sz"
  shows "2 ^ 16 \<le> mantissa v sz"
proof (cases "sz = 3")
  case True
  then show ?thesis using assms by (simp add: mantissa_def)
next
  case False
  have "256 ^ (sz - 1) = (256 :: nat) ^ (2 + (sz - 3))" using assms False by (intro arg_cong [where f = "(^) 256"]) linarith
  then have "2 ^ 16 * 256 ^ (sz - 3) \<le> v" using assms by (simp add: power_add)
  then show ?thesis using assms False by (simp add: mantissa_def less_eq_div_iff_mult_less_eq)
qed

lemma mantissa_decode: "mantissa_value (mantissa v sz) sz = v div 256 ^ (sz - 3) * 256 ^ (sz - 3)"
  by (simp add: mantissa_value_def mantissa_def)

lemma mantissa_decode_Suc:
  "mantissa_value (mantissa v sz div 256) (sz + 1) = v div 256 ^ (sz + 1 - 3) * 256 ^ (sz + 1 - 3)"
proof -
  consider "sz \<le> 2" | "sz = 3" | "3 < sz" by linarith
  then show ?thesis
  proof cases
    case 1
    then have e: "256 ^ (3 - sz) = (256 :: nat) * 256 ^ (2 - sz)" by (simp add: Suc_diff_le numeral_3_eq_3)
    have "v * 256 ^ (3 - sz) div 256 = v * 256 ^ (2 - sz)" unfolding e by simp
    with 1 show ?thesis by (simp add: mantissa_value_def mantissa_def)
  next
    case 3
    then have "sz - 2 = Suc (sz - 3)" by simp
    then have "256 ^ (sz - 2) = (256 :: nat) ^ (sz - 3) * 256" by (simp only: power_Suc2)
    with 3 show ?thesis by (simp add: mantissa_value_def mantissa_def div_mult2_eq)
  qed (simp add: mantissa_value_def mantissa_def)
qed

lemma GetCompact_mantissa:
  assumes "arith_wf a"
  defines "sz \<equiv> (arith_bits a + 7) div 8"
  shows "unat (if sz \<le> 3 then ucast (push_bit (8 * (3 - sz)) (GetLow64 a))
     else ucast (GetLow64 (arith_shr a (8 * (sz - 3)))) :: u32) = mantissa (limbs_val a) sz"
proof -
  have lt: "limbs_val a < 256 ^ sz" unfolding sz_def using assms(1) by (rule arith_bytes_bounds)
  have m: "mantissa (limbs_val a) sz < 2 ^ 24" using lt by (rule mantissa_less)
  show ?thesis
  proof (cases "sz \<le> 3")
    case True
    then have "limbs_val a < 256 ^ 3" using lt by (metis less_le_trans one_le_numeral power_increasing)
    then have "unat (push_bit (8 * (3 - sz)) (GetLow64 a)) = limbs_val a * 256 ^ (3 - sz) mod 2 ^ 64"
      by (simp only: unsigned_push_bit_eq GetLow64_val [OF assms(1)])
        (simp add: push_bit_eq_mult take_bit_eq_mod pow256)
    with True m show ?thesis by (simp add: mantissa_def unat_ucast_u32)
  next
    case False
    with m assms(1) show ?thesis
      by (simp add: mantissa_def unat_ucast_u32 GetLow64_val arith_shr_val pow256)
  qed
qed

lemma compact_value_mantissa: "compact_value c = mantissa_value (unat c mod 2 ^ 23) (compact_size c)"
  by (simp add: compact_value_def mantissa_value_def Let_def)

lemma compact_precision:
  fixes v :: nat
  assumes "0 < (k :: nat) \<Longrightarrow> 2 ^ 15 \<le> v div 256 ^ k"
  shows "(v - v div 256 ^ k * 256 ^ k) * 2 ^ 15 \<le> v"
proof (cases "k = 0")
  case False
  have "(v - v div 256 ^ k * 256 ^ k) * 2 ^ 15 \<le> 256 ^ k * 2 ^ 15"
    by (intro mult_le_mono1) (simp add: minus_div_mult_eq_mod less_imp_le)
  also have "\<dots> \<le> 256 ^ k * (v div 256 ^ k)" using assms False by (intro mult_le_mono2) auto
  also have "\<dots> \<le> v" by simp
  finally show ?thesis .
qed simp

text \<open>The word \<open>GetCompact\<close> builds: mantissa and size after the sign-bit adjustment.\<close>

lemma GetCompact_word:
  assumes wf: "arith_wf a"
  defines "sz0 \<equiv> (arith_bits a + 7) div 8"
  obtains m sz where
    "GetCompact a False = Inr (m OR push_bit 24 (of_nat sz))" "unat m < 2 ^ 23" "sz < 256"
    "sz = sz0 \<and> unat m = mantissa (limbs_val a) sz0 \<or>
     sz = sz0 + 1 \<and> unat m = mantissa (limbs_val a) sz0 div 256 \<and> 2 ^ 23 \<le> mantissa (limbs_val a) sz0"
proof -
  define w where "w = (if sz0 \<le> 3 then ucast (push_bit (8 * (3 - sz0)) (GetLow64 a))
     else ucast (GetLow64 (arith_shr a (8 * (sz0 - 3)))) :: u32)"
  have w: "unat w = mantissa (limbs_val a) sz0"
    unfolding w_def sz0_def by (rule GetCompact_mantissa [OF wf])
  have w24: "unat w < 2 ^ 24"
    unfolding w sz0_def by (rule mantissa_less) (rule arith_bytes_bounds [OF wf])
  have sz0: "sz0 \<le> 32" unfolding sz0_def by (rule arith_bytes_bounds [OF wf])
  define big where "big = (w AND 0x00800000 \<noteq> 0)"
  have big: "big \<longleftrightarrow> 2 ^ 23 \<le> unat w" unfolding big_def sign_bit_iff by (rule bit23_iff [OF w24])
  define m where "m = (if big then drop_bit 8 w else w)"
  define sz where "sz = (if big then sz0 + 1 else sz0)"
  have m: "unat m < 2 ^ 23" using w24 big by (auto simp: m_def unat_drop_u32 less_mult_imp_div_less)
  have "GetCompact a False = Inr (m OR push_bit 24 (of_nat sz))"
    using sz0 m unfolding GetCompact_def Let_def sz0_def [symmetric] w_def [symmetric] big_def [symmetric]
      m_def [symmetric] sz_def [symmetric] and_not_mask23
    by (simp add: sz_def)
  moreover have "sz = sz0 \<and> unat m = mantissa (limbs_val a) sz0 \<or>
     sz = sz0 + 1 \<and> unat m = mantissa (limbs_val a) sz0 div 256 \<and> 2 ^ 23 \<le> mantissa (limbs_val a) sz0"
    using big by (simp add: sz_def m_def w unat_drop_u32)
  moreover have "sz < 256" using sz0 by (simp add: sz_def)
  ultimately show thesis using m that by blast
qed

lemma GetCompact_value:
  assumes wf: "arith_wf a"
  obtains c where "GetCompact a False = Inr c" "\<not> bit c 23"
    "compact_value c = limbs_val a div 256 ^ (compact_size c - 3) * 256 ^ (compact_size c - 3)"
    "(limbs_val a - compact_value c) * 2 ^ 15 \<le> limbs_val a"
proof -
  define sz0 where "sz0 = (arith_bits a + 7) div 8"
  obtain m sz where c: "GetCompact a False = Inr (m OR push_bit 24 (of_nat sz))" "unat m < 2 ^ 23" "sz < 256"
    and m: "sz = sz0 \<and> unat m = mantissa (limbs_val a) sz0 \<or>
     sz = sz0 + 1 \<and> unat m = mantissa (limbs_val a) sz0 div 256 \<and> 2 ^ 23 \<le> mantissa (limbs_val a) sz0"
    unfolding sz0_def by (rule GetCompact_word [OF wf])
  note cw = compact_word_val [OF c(2,3)]
  have v: "mantissa_value (unat m) sz = limbs_val a div 256 ^ (sz - 3) * 256 ^ (sz - 3)"
    using m mantissa_decode [of "limbs_val a" sz0] mantissa_decode_Suc [of "limbs_val a" sz0] by auto
  have "2 ^ 15 \<le> limbs_val a div 256 ^ (sz - 3)" if "0 < sz - 3"
  proof -
    have "sz0 = 0" if "limbs_val a = 0" using that by (simp add: sz0_def arith_bits_0 [OF wf, THEN iffD2])
    then have "limbs_val a \<noteq> 0" using m \<open>0 < sz - 3\<close> by fastforce
    then have "256 ^ (sz0 - 1) \<le> limbs_val a" unfolding sz0_def using arith_bytes_bounds(2) [OF wf] by blast
    then have "2 ^ 16 \<le> mantissa (limbs_val a) sz0" using m that by (intro mantissa_ge) auto
    then have "2 ^ 15 \<le> unat m" using m by auto
    moreover have "unat m = limbs_val a div 256 ^ (sz - 3)"
      using v that by (simp add: mantissa_value_def)
    ultimately show ?thesis by simp
  qed
  from compact_precision [OF this] v show thesis
    by (intro that [OF c(1) cw(4)]) (simp_all only: compact_value_mantissa cw(2,3))
qed

section \<open>Byte order\<close>

lemma WriteLE32_nth: "k < 4 \<Longrightarrow> WriteLE32 x ! k = ucast (drop_bit (8 * k) x)"
  by (auto simp: WriteLE32_def less_Suc_eq numeral_eq_Suc)

lemma ReadLE32_WriteLE32: "ReadLE32 (WriteLE32 x @ r) = x"
proof (rule bit_word_eqI)
  fix n assume "n < LENGTH(32)"
  then consider "n < 8" | "8 \<le> n" "n < 16" | "16 \<le> n" "n < 24" | "24 \<le> n" "n < 32" by fastforce
  then show "bit (ReadLE32 (WriteLE32 x @ r)) n = bit x n"
    by cases (auto simp: ReadLE32_def WriteLE32_def bit_simps)
qed

lemma WriteLE32_ReadLE32:
  assumes "4 \<le> length p"
  shows "WriteLE32 (ReadLE32 p) = take 4 p"
proof -
  obtain b0 b1 b2 b3 r where p: "p = b0 # b1 # b2 # b3 # r"
    using assms by (auto simp: numeral_eq_Suc Suc_le_length_iff)
  have "ucast (ReadLE32 p) = b0" "ucast (drop_bit 8 (ReadLE32 p)) = b1"
    "ucast (drop_bit 16 (ReadLE32 p)) = b2" "ucast (drop_bit 24 (ReadLE32 p)) = b3"
    by (rule bit_word_eqI; auto simp: ReadLE32_def p bit_simps dest: bit_imp_le_length)+
  then show ?thesis by (simp add: WriteLE32_def p)
qed

lemma UintToArith256_wf [simp]: "arith_wf (UintToArith256 b)"
  by (simp add: UintToArith256_def arith_wf_def)

lemma concat_map_upt_split: "i < n \<Longrightarrow>
  concat (map f [0..<n]) = concat (map f [0..<i]) @ f i @ concat (map f [Suc i..<n])"
  by (metis append_assoc concat.simps(2) concat_append less_imp_le_nat list.simps(9) map_append upt_add_eq_append upt_conv_Cons zero_le le_add_diff_inverse)

lemma length_concat_WriteLE32: "length (concat (map (\<lambda>x. WriteLE32 (a ! x)) xs)) = 4 * length xs"
  by (induction xs) (simp_all add: WriteLE32_def)

lemma UintToArith256_ArithToUint256:
  assumes "arith_wf a"
  shows "UintToArith256 (ArithToUint256 a) = a"
proof (rule nth_equalityI)
  show "length (UintToArith256 (ArithToUint256 a)) = length a"
    using assms by (simp add: UintToArith256_def arith_wf_def)
  fix i assume "i < length (UintToArith256 (ArithToUint256 a))"
  then have i: "i < WIDTH" by (simp add: UintToArith256_def)
  have "drop (i * 4) (ArithToUint256 a) = WriteLE32 (a ! i) @ concat (map (\<lambda>x. WriteLE32 (a ! x)) [Suc i..<WIDTH])"
    unfolding ArithToUint256_def concat_map_upt_split [OF i]
    using length_concat_WriteLE32 [of a "[0..<i]"] by (simp add: mult.commute)
  then show "UintToArith256 (ArithToUint256 a) ! i = a ! i"
    using i by (simp add: UintToArith256_def ReadLE32_WriteLE32)
qed

lemma ArithToUint256_UintToArith256:
  assumes "length b = 32"
  shows "ArithToUint256 (UintToArith256 b) = b"
proof -
  have "concat (map (\<lambda>x. WriteLE32 (UintToArith256 b ! x)) [0..<n]) = take (4 * n) b" if "n \<le> WIDTH" for n
    using that
  proof (induction n)
    case (Suc n)
    then have "WriteLE32 (UintToArith256 b ! n) = take 4 (drop (4 * n) b)"
      using assms by (simp add: UintToArith256_def WIDTH_def WriteLE32_ReadLE32 mult.commute)
    moreover have "take (4 * Suc n) b = take (4 * n) b @ take 4 (drop (4 * n) b)"
      using take_add [of "4 * n" 4 b] by (simp add: add.commute)
    ultimately show ?case using Suc by simp
  qed simp
  from this [of WIDTH] show ?thesis using assms by (simp add: ArithToUint256_def WIDTH_def)
qed

section \<open>Properties\<close>

text \<open>\<^bold>\<open>C28\<close>: \<^verbatim>\<open>SetCompact\<close> decodes every 32-bit word. The limbs it leaves hold the
  mantissa (23 bits) scaled by 256 to the size byte minus three, modulo \<open>2 ^ 256\<close>; the overflow
  flag is raised exactly when the scaled mantissa does not fit 256 bits, and the negative flag
  exactly when the sign bit is set on a value that is not zero.\<close>

theorem SetCompact_decodes:
  "case SetCompact c of (n, neg, ovf) \<Rightarrow>
     arith_wf n \<and> limbs_val n = compact_value c mod 2 ^ 256 \<and>
     (ovf \<longleftrightarrow> 2 ^ 256 \<le> compact_value c) \<and> (neg \<longleftrightarrow> compact_value c \<noteq> 0 \<and> bit c 23)"
proof -
  obtain n neg ovf where "SetCompact c = (n, neg, ovf)" by (cases "SetCompact c") auto
  from this SetCompact_spec [OF this] show ?thesis by simp
qed

text \<open>\<^bold>\<open>C27\<close>: encoding then decoding a target. For every 256-bit number \<^verbatim>\<open>GetCompact\<close> passes
  both of its assertions; \<^verbatim>\<open>SetCompact\<close> decodes the word it returns with neither flag raised, to
  a number that never exceeds the original (a stored target is never easier than the computed
  one) and falls short of it by at most one part in \<open>2 ^ 15\<close>.\<close>

theorem GetCompact_SetCompact:
  assumes "arith_wf a"
  shows "\<exists>c n. GetCompact a False = Inr c \<and> SetCompact c = (n, False, False) \<and> arith_wf n \<and>
    limbs_val n = limbs_val a div 256 ^ (compact_size c - 3) * 256 ^ (compact_size c - 3) \<and>
    limbs_val n \<le> limbs_val a \<and> (limbs_val a - limbs_val n) * 2 ^ 15 \<le> limbs_val a"
proof -
  obtain c where c: "GetCompact a False = Inr c" "\<not> bit c 23"
    and v: "compact_value c = limbs_val a div 256 ^ (compact_size c - 3) * 256 ^ (compact_size c - 3)"
    and p: "(limbs_val a - compact_value c) * 2 ^ 15 \<le> limbs_val a"
    by (rule GetCompact_value [OF assms])
  obtain n neg ovf where s: "SetCompact c = (n, neg, ovf)" by (cases "SetCompact c") auto
  note spec = SetCompact_spec [OF s]
  have le: "compact_value c \<le> limbs_val a" unfolding v by simp
  then have lt: "compact_value c < 2 ^ 256" using arith_val_less [OF assms] by linarith
  have n: "limbs_val n = compact_value c" unfolding spec(2) using lt by (rule mod_less)
  have "\<not> ovf" "\<not> neg" using spec(3,4) lt c(2) by auto
  then show ?thesis using c(1) s spec(1) v p le n by auto
qed

theorem GetCompact_SetCompact_witness:
  "arith_wf (arith_of_u64 0x123456789abc) \<and>
   (\<exists>c n. GetCompact (arith_of_u64 0x123456789abc) False = Inr c \<and> SetCompact c = (n, False, False) \<and>
     limbs_val n \<le> 0x123456789abc)"
  using GetCompact_SetCompact [of "arith_of_u64 0x123456789abc"] by (auto simp: arith_of_u64_val)

text \<open>The number view and the byte view of a 256-bit value are inverse to each other:
  \<^verbatim>\<open>UintToArith256\<close> undoes \<^verbatim>\<open>ArithToUint256\<close> on every eight-limb number, and the other way
  round on every 32-byte string.\<close>

theorem uint256_arith_round_trip:
  assumes "arith_wf a" "length b = 32"
  shows "UintToArith256 (ArithToUint256 a) = a \<and> ArithToUint256 (UintToArith256 b) = b"
  using UintToArith256_ArithToUint256 [OF assms(1)] ArithToUint256_UintToArith256 [OF assms(2)] ..

theorem uint256_arith_round_trip_witness:
  "arith_wf (arith_of_u64 7) \<and> length (uint256_null) = 32 \<and>
   UintToArith256 (ArithToUint256 (arith_of_u64 7)) = arith_of_u64 7 \<and>
   ArithToUint256 (UintToArith256 uint256_null) = uint256_null"
  using uint256_arith_round_trip [of "arith_of_u64 7" uint256_null] by (simp add: uint256_null_def)

end
