(* ===== verification/Block_Index.thy ===== *)
theory Block_Index
  imports Arith_Uint256
begin

text \<open>
  The block tree: \<^verbatim>\<open>CBlockIndex\<close> of \<^verbatim>\<open>src/src/chain.h\<close> with the skip-list of
  \<^verbatim>\<open>src/src/chain.cpp\<close>. Index entries live in a store from addresses to entries, so that
  \<^verbatim>\<open>pprev\<close> and \<^verbatim>\<open>pskip\<close> are pointers as in the source. The entries are the nodes of
  \<^verbatim>\<open>BlockManager::m_block_index\<close>, a map keyed by block hash whose nodes never move: the address
  of an entry is identified with its key. \<open>nth_prev\<close> iterates \<^verbatim>\<open>pprev\<close>; the lemmas
  show that on a well-formed store the skip-list walk of \<^verbatim>\<open>GetAncestor\<close> terminates, never
  fails its assertion, and returns what iterating \<^verbatim>\<open>pprev\<close> returns, that \<^verbatim>\<open>BuildSkip\<close> keeps the
  store well-formed, and that \<^verbatim>\<open>LastCommonAncestor\<close> finds the fork point.
\<close>

section \<open>Model\<close>

type_synonym ptr = uint256

record COutPoint =
  op_hash :: uint256
  op_n :: u32

record CBlockIndex =
  phashBlock :: "uint256 option"
  pprev :: "ptr option"
  pskip :: "ptr option"
  nHeight :: int
  nFile :: int
  nDataPos :: u32
  nUndoPos :: u32
  nChainWork :: arith_uint256
  nTx :: u32
  nChainTx :: u32
  nStatus :: u32
  nVersion :: int
  hashMerkleRoot :: uint256
  nTime :: u32
  nBits :: u32
  nNonce :: u32
  nSequenceId :: int
  nTimeMax :: u32
  nMint :: CAmount
  nMoneySupply :: CAmount
  nStakeModifier :: uint256
  prevoutStake :: COutPoint
  hashProof :: uint256

definition COutPoint_null :: COutPoint where
  "COutPoint_null = \<lparr>op_hash = uint256_null, op_n = 0xffffffff\<rparr>"

definition CBlockIndex_default :: CBlockIndex where
  "CBlockIndex_default =
     \<lparr>phashBlock = None, pprev = None, pskip = None, nHeight = 0, nFile = 0, nDataPos = 0, nUndoPos = 0,
      nChainWork = arith_zero, nTx = 0, nChainTx = 0, nStatus = 0, nVersion = 0,
      hashMerkleRoot = uint256_null, nTime = 0, nBits = 0, nNonce = 0, nSequenceId = 0, nTimeMax = 0,
      nMint = 0, nMoneySupply = 0, nStakeModifier = uint256_null, prevoutStake = COutPoint_null,
      hashProof = uint256_null\<rparr>"

type_synonym block_store = "ptr \<Rightarrow> CBlockIndex option"

definition GetBlockTime :: "CBlockIndex \<Rightarrow> int" where
  "GetBlockTime b = uint (nTime b)"

definition GetBlockTimeMax :: "CBlockIndex \<Rightarrow> int" where
  "GetBlockTimeMax b = uint (nTimeMax b)"

definition GetBlockHash :: "CBlockIndex \<Rightarrow> abort + uint256" where
  "GetBlockHash b = (case phashBlock b of None \<Rightarrow> Inl AssertFailed | Some h \<Rightarrow> Inr h)"

definition IsProofOfStake :: "CBlockIndex \<Rightarrow> bool" where
  "IsProofOfStake b \<longleftrightarrow> nNonce b = 0"

definition IsProofOfWork :: "CBlockIndex \<Rightarrow> bool" where
  "IsProofOfWork b \<longleftrightarrow> \<not> IsProofOfStake b"

definition HaveTxsDownloaded :: "CBlockIndex \<Rightarrow> bool" where
  "HaveTxsDownloaded b \<longleftrightarrow> nChainTx b \<noteq> 0"

subsection \<open>Validity flags\<close>

definition BLOCK_VALID_SCRIPTS :: u32 where "BLOCK_VALID_SCRIPTS = 5"
definition BLOCK_VALID_MASK :: u32 where "BLOCK_VALID_MASK = 1 OR 2 OR 3 OR 4 OR 5"
definition BLOCK_FAILED_MASK :: u32 where "BLOCK_FAILED_MASK = 32 OR 64"
definition BLOCK_ASSUMED_VALID :: u32 where "BLOCK_ASSUMED_VALID = 256"

definition IsValid :: "CBlockIndex \<Rightarrow> u32 \<Rightarrow> abort + bool" where
  "IsValid b nUpTo =
     (if nUpTo AND NOT BLOCK_VALID_MASK \<noteq> 0 then Inl AssertFailed
      else if nStatus b AND BLOCK_FAILED_MASK \<noteq> 0 then Inr False
      else Inr (nStatus b AND BLOCK_VALID_MASK \<ge> nUpTo))"

definition IsAssumedValid :: "CBlockIndex \<Rightarrow> bool" where
  "IsAssumedValid b \<longleftrightarrow> nStatus b AND BLOCK_ASSUMED_VALID \<noteq> 0"

definition RaiseValidity :: "CBlockIndex \<Rightarrow> u32 \<Rightarrow> abort + (CBlockIndex \<times> bool)" where
  "RaiseValidity b nUpTo =
     (if nUpTo AND NOT BLOCK_VALID_MASK \<noteq> 0 then Inl AssertFailed
      else if nStatus b AND BLOCK_FAILED_MASK \<noteq> 0 then Inr (b, False)
      else if nStatus b AND BLOCK_VALID_MASK < nUpTo then
        let st = (if nStatus b AND BLOCK_ASSUMED_VALID \<noteq> 0 \<and> nUpTo \<ge> BLOCK_VALID_SCRIPTS
                  then nStatus b AND NOT BLOCK_ASSUMED_VALID else nStatus b)
        in Inr (b\<lparr>nStatus := (st AND NOT BLOCK_VALID_MASK) OR nUpTo\<rparr>, True)
      else Inr (b, False))"

subsection \<open>The skip list\<close>

definition InvertLowestOne :: "int \<Rightarrow> int" where
  "InvertLowestOne n = n AND (n - 1)"

definition GetSkipHeight :: "int \<Rightarrow> int" where
  "GetSkipHeight height =
     (if height < 2 then 0
      else if height AND 1 \<noteq> 0 then InvertLowestOne (InvertLowestOne (height - 1)) + 1
      else InvertLowestOne height)"

lemma InvertLowestOne_bounds:
  assumes "0 < n"
  shows "0 \<le> InvertLowestOne n \<and> InvertLowestOne n < n"
proof -
  have "InvertLowestOne n \<le> n - 1" using assms by (simp add: InvertLowestOne_def AND_upper2)
  then show ?thesis using assms by (simp add: InvertLowestOne_def)
qed

lemma GetSkipHeight_bounds:
  assumes "0 < h"
  shows "0 \<le> GetSkipHeight h \<and> GetSkipHeight h < h"
proof (cases "h < 2")
  case True
  then show ?thesis using assms by (simp add: GetSkipHeight_def)
next
  case False
  then have i: "0 \<le> InvertLowestOne (h - 1)" "InvertLowestOne (h - 1) < h - 1"
    and j: "0 \<le> InvertLowestOne h" "InvertLowestOne h < h"
    using InvertLowestOne_bounds [of "h - 1"] InvertLowestOne_bounds [of h] by auto
  have "0 \<le> InvertLowestOne (InvertLowestOne (h - 1)) \<and> InvertLowestOne (InvertLowestOne (h - 1)) < h - 1"
    using i InvertLowestOne_bounds [of "InvertLowestOne (h - 1)"]
    by (cases "InvertLowestOne (h - 1) = 0") (auto simp: InvertLowestOne_def)
  with False j show ?thesis by (simp add: GetSkipHeight_def)
qed

text \<open>The loop of \<^verbatim>\<open>GetAncestor\<close>. Its caller's guard \<open>0 \<le> height\<close> is repeated in the loop
  condition; with it the walk height decreases in every round.\<close>

function ancestor_walk :: "block_store \<Rightarrow> int \<Rightarrow> ptr \<Rightarrow> int \<Rightarrow> abort + ptr" where
  "ancestor_walk st height pindexWalk heightWalk =
     (if \<not> (0 \<le> height \<and> height < heightWalk) then Inr pindexWalk
      else case st pindexWalk of
        None \<Rightarrow> Inl NullDeref
      | Some b \<Rightarrow>
          let heightSkip = GetSkipHeight heightWalk;
              heightSkipPrev = GetSkipHeight (heightWalk - 1)
          in if pskip b \<noteq> None \<and>
                (heightSkip = height \<or>
                 (heightSkip > height \<and> \<not> (heightSkipPrev < heightSkip - 2 \<and> heightSkipPrev \<ge> height)))
             then ancestor_walk st height (the (pskip b)) heightSkip
             else case pprev b of
               None \<Rightarrow> Inl AssertFailed
             | Some q \<Rightarrow> ancestor_walk st height q (heightWalk - 1))"
  by pat_completeness auto
termination
  by (relation "measure (\<lambda>(st, height, p, heightWalk). nat heightWalk)")
    (use GetSkipHeight_bounds in fastforce)+

declare ancestor_walk.simps [simp del]

definition GetAncestor :: "block_store \<Rightarrow> ptr \<Rightarrow> int \<Rightarrow> abort + ptr option" where
  "GetAncestor st p height =
     (case st p of
        None \<Rightarrow> Inl NullDeref
      | Some b \<Rightarrow>
          if height > nHeight b \<or> height < 0 then Inr None
          else map_sum id Some (ancestor_walk st height p (nHeight b)))"

definition BuildSkip :: "block_store \<Rightarrow> ptr \<Rightarrow> abort + block_store" where
  "BuildSkip st p =
     (case st p of
        None \<Rightarrow> Inl NullDeref
      | Some b \<Rightarrow>
          (case pprev b of
             None \<Rightarrow> Inr st
           | Some q \<Rightarrow> map_sum id (\<lambda>s. st(p \<mapsto> b\<lparr>pskip := s\<rparr>)) (GetAncestor st q (GetSkipHeight (nHeight b)))))"

text \<open>The loop of \<^verbatim>\<open>LastCommonAncestor\<close> steps both sides back until they meet.\<close>

partial_function (option) lca_loop :: "block_store \<Rightarrow> ptr option \<Rightarrow> ptr option \<Rightarrow> (abort + ptr option) option" where
  "lca_loop st pa pb =
     (if pa \<noteq> pb \<and> pa \<noteq> None \<and> pb \<noteq> None then
        (case st (the pa) of
           None \<Rightarrow> Some (Inl NullDeref)
         | Some a \<Rightarrow>
             (case st (the pb) of
                None \<Rightarrow> Some (Inl NullDeref)
              | Some b \<Rightarrow> lca_loop st (pprev a) (pprev b)))
      else if pa = pb then Some (Inr pa) else Some (Inl AssertFailed))"

definition LastCommonAncestor :: "block_store \<Rightarrow> ptr \<Rightarrow> ptr \<Rightarrow> (abort + ptr option) option" where
  "LastCommonAncestor st pa pb =
     (case (st pa, st pb) of
        (Some a, Some b) \<Rightarrow>
          (let ra = (if nHeight a > nHeight b then GetAncestor st pa (nHeight b) else Inr (Some pa));
               rb = (if nHeight a > nHeight b then Inr (Some pb)
                     else if nHeight b > nHeight a then GetAncestor st pb (nHeight a) else Inr (Some pb))
           in case (ra, rb) of
                (Inr pa', Inr pb') \<Rightarrow> lca_loop st pa' pb'
              | (Inl e, _) \<Rightarrow> Some (Inl e)
              | (_, Inl e) \<Rightarrow> Some (Inl e))
      | _ \<Rightarrow> Some (Inl NullDeref))"

section \<open>Well-formed stores\<close>

text \<open>The reference: \<open>n\<close> steps along \<^verbatim>\<open>pprev\<close>.\<close>

primrec nth_prev :: "block_store \<Rightarrow> nat \<Rightarrow> ptr \<Rightarrow> ptr option" where
  "nth_prev st 0 p = Some p"
| "nth_prev st (Suc n) p = Option.bind (Option.bind (st p) pprev) (nth_prev st n)"

definition index_wf :: "block_store \<Rightarrow> bool" where
  "index_wf st \<longleftrightarrow> (\<forall>p b. st p = Some b \<longrightarrow>
     0 \<le> nHeight b \<and>
     (case pprev b of None \<Rightarrow> nHeight b = 0 | Some q \<Rightarrow> \<exists>c. st q = Some c \<and> nHeight b = nHeight c + 1) \<and>
     (\<forall>s. pskip b = Some s \<longrightarrow> nth_prev st (nat (nHeight b - GetSkipHeight (nHeight b))) p = Some s))"

lemma index_wf_height: "index_wf st \<Longrightarrow> st p = Some b \<Longrightarrow> 0 \<le> nHeight b"
  by (auto simp: index_wf_def)

lemma index_wf_prev:
  "index_wf st \<Longrightarrow> st p = Some b \<Longrightarrow> pprev b = Some q \<Longrightarrow> \<exists>c. st q = Some c \<and> nHeight b = nHeight c + 1"
  unfolding index_wf_def by fastforce

lemma index_wf_root:
  assumes "index_wf st" "st p = Some b"
  shows "pprev b = None \<longleftrightarrow> nHeight b = 0"
proof (cases "pprev b")
  case None
  have "case pprev b of None \<Rightarrow> nHeight b = 0 | Some q \<Rightarrow> \<exists>c. st q = Some c \<and> nHeight b = nHeight c + 1"
    using assms unfolding index_wf_def by blast
  then show ?thesis using None by simp
next
  case (Some q)
  then obtain c where "st q = Some c" "nHeight b = nHeight c + 1" using index_wf_prev [OF assms] by auto
  then show ?thesis using Some index_wf_height [OF assms(1)] by fastforce
qed

lemma index_wf_skip:
  "index_wf st \<Longrightarrow> st p = Some b \<Longrightarrow> pskip b = Some s \<Longrightarrow>
   nth_prev st (nat (nHeight b - GetSkipHeight (nHeight b))) p = Some s"
  unfolding index_wf_def by blast

lemma nth_prev_add: "nth_prev st (m + n) p = Option.bind (nth_prev st m p) (nth_prev st n)"
  by (induction m arbitrary: p) (simp_all split: bind_split)

lemma nth_prev_height:
  assumes "index_wf st" "st p = Some b" "int n \<le> nHeight b"
  shows "\<exists>q c. nth_prev st n p = Some q \<and> st q = Some c \<and> nHeight c = nHeight b - int n"
  using assms(2,3)
proof (induction n arbitrary: p b)
  case (Suc n)
  then have "pprev b \<noteq> None" using index_wf_root [OF assms(1)] by fastforce
  then obtain q where q: "pprev b = Some q" by auto
  then obtain c where c: "st q = Some c" "nHeight b = nHeight c + 1"
    using index_wf_prev [OF assms(1) Suc.prems(1)] by auto
  then show ?case using Suc.IH [of q c] Suc.prems q by auto
qed simp

lemma nth_prev_beyond:
  assumes "index_wf st" "st p = Some b" "nHeight b < int n"
  shows "nth_prev st n p = None"
  using assms(2,3)
proof (induction n arbitrary: p b)
  case 0
  then show ?case using index_wf_height [OF assms(1)] by fastforce
next
  case (Suc n)
  show ?case
  proof (cases "pprev b")
    case (Some q)
    then obtain c where "st q = Some c" "nHeight b = nHeight c + 1"
      using index_wf_prev [OF assms(1) Suc.prems(1)] by auto
    then show ?thesis using Suc.IH [of q c] Suc.prems Some by auto
  qed (use Suc.prems in auto)
qed

lemma ancestor_walk_back:
  assumes "index_wf st"
  shows "st p = Some b \<Longrightarrow> nHeight b = hw \<Longrightarrow> 0 \<le> h \<Longrightarrow> h \<le> hw \<Longrightarrow>
    \<exists>q. ancestor_walk st h p hw = Inr q \<and> nth_prev st (nat (hw - h)) p = Some q"
  using assms
proof (induction st h p hw arbitrary: b rule: ancestor_walk.induct)
  case (1 st h p hw)
  show ?case
  proof (cases "h < hw")
    case False
    then show ?thesis using 1 by (subst ancestor_walk.simps) simp
  next
    case lt: True
    let ?hs = "GetSkipHeight hw" and ?hp = "GetSkipHeight (hw - 1)"
    have hs: "0 \<le> ?hs" "?hs < hw" using GetSkipHeight_bounds [of hw] lt 1 by auto
    let ?skip = "pskip b \<noteq> None \<and> (?hs = h \<or> (?hs > h \<and> \<not> (?hp < ?hs - 2 \<and> ?hp \<ge> h)))"
    show ?thesis
    proof (cases ?skip)
      case True
      then obtain s where s: "pskip b = Some s" by auto
      have bs: "nth_prev st (nat (hw - ?hs)) p = Some s" using index_wf_skip [OF 1(7) 1(3) s] 1(4) by simp
      then obtain c where c: "st s = Some c" "nHeight c = ?hs"
        using nth_prev_height [OF 1(7) 1(3), of "nat (hw - ?hs)"] hs 1(4) by auto
      obtain q where "ancestor_walk st h s ?hs = Inr q" "nth_prev st (nat (?hs - h)) s = Some q"
        using 1(1) [OF _ 1(3) refl refl True, of c] True lt 1(5,7) s c by auto
      moreover have "nat (hw - h) = nat (hw - ?hs) + nat (?hs - h)" using True hs lt by auto
      ultimately show ?thesis
        using True lt 1(3,5) s bs by (subst ancestor_walk.simps) (simp add: Let_def nth_prev_add)
    next
      case False
      obtain p' where p': "pprev b = Some p'" using index_wf_root [OF 1(7) 1(3)] lt 1 by auto
      then obtain c where c: "st p' = Some c" "nHeight b = nHeight c + 1"
        using index_wf_prev [OF 1(7) 1(3)] by auto
      obtain q where "ancestor_walk st h p' (hw - 1) = Inr q" "nth_prev st (nat (hw - 1 - h)) p' = Some q"
        using 1(2) [OF _ 1(3) refl refl False p' c(1)] lt 1(4,5,7) c(2) by auto
      moreover have "nat (hw - h) = Suc (nat (hw - 1 - h))" using lt by auto
      ultimately show ?thesis
        using False lt 1(3,5) p' by (subst ancestor_walk.simps) (auto simp: Let_def)
    qed
  qed
qed

lemma GetAncestor_nth_prev:
  assumes "index_wf st" "st p = Some b"
  shows "GetAncestor st p h =
    Inr (if 0 \<le> h \<and> h \<le> nHeight b then nth_prev st (nat (nHeight b - h)) p else None)"
proof (cases "0 \<le> h \<and> h \<le> nHeight b")
  case True
  then obtain q where "ancestor_walk st h p (nHeight b) = Inr q" "nth_prev st (nat (nHeight b - h)) p = Some q"
    using ancestor_walk_back [OF assms refl] by auto
  with True show ?thesis by (simp add: GetAncestor_def assms(2))
qed (auto simp: GetAncestor_def assms(2))

lemma GetAncestor_in_range:
  assumes "index_wf st" "st p = Some b" "0 \<le> h" "h \<le> nHeight b"
  obtains q c where "GetAncestor st p h = Inr (Some q)" "nth_prev st (nat (nHeight b - h)) p = Some q"
    "st q = Some c" "nHeight c = h"
  using nth_prev_height [OF assms(1,2), of "nat (nHeight b - h)"] GetAncestor_nth_prev [OF assms(1,2), of h] assms(3,4)
  by auto

subsection \<open>Changes that keep a store well-formed\<close>

definition same_links :: "block_store \<Rightarrow> block_store \<Rightarrow> bool" where
  "same_links st st' \<longleftrightarrow> (\<forall>q. map_option pprev (st' q) = map_option pprev (st q))"

lemma nth_prev_same_links: "same_links st st' \<Longrightarrow> nth_prev st' n p = nth_prev st n p"
proof (induction n arbitrary: p)
  case (Suc n)
  then have "Option.bind (st' p) pprev = Option.bind (st p) pprev"
    unfolding same_links_def by (cases "st p"; cases "st' p"; force dest: spec [of _ p])
  moreover have "nth_prev st' n = nth_prev st n" using Suc by auto
  ultimately show ?case by simp
qed simp

lemma index_wf_update:
  assumes wf: "index_wf st" "st p = Some b"
    and b': "pprev b' = pprev b" "nHeight b' = nHeight b"
    and skip: "\<And>s. pskip b' = Some s \<Longrightarrow> nth_prev st (nat (nHeight b - GetSkipHeight (nHeight b))) p = Some s"
  shows "index_wf (st(p \<mapsto> b'))"
proof -
  have "same_links st (st(p \<mapsto> b'))" using assms by (simp add: same_links_def)
  note np = nth_prev_same_links [OF this]
  have prev: "case pprev c of None \<Rightarrow> nHeight c = 0 | Some q \<Rightarrow> \<exists>d. (st(p \<mapsto> b')) q = Some d \<and> nHeight c = nHeight d + 1"
    if x: "(st(p \<mapsto> b')) x = Some c" for x c
  proof -
    obtain c0 where c0: "st x = Some c0" "pprev c0 = pprev c" "nHeight c0 = nHeight c"
      using x wf b' by (cases "x = p") auto
    show ?thesis
    proof (cases "pprev c")
      case None
      then show ?thesis using index_wf_root [OF wf(1) c0(1)] c0 by simp
    next
      case (Some q)
      then obtain d where "st q = Some d" "nHeight c = nHeight d + 1"
        using index_wf_prev [OF wf(1) c0(1)] c0 by auto
      then show ?thesis using Some wf b' by auto
    qed
  qed
  show ?thesis
    unfolding index_wf_def np
    using prev wf b' skip index_wf_height [OF wf(1)] index_wf_skip [OF wf(1)] by (auto split: if_splits)
qed

lemma index_wf_insert:
  assumes wf: "index_wf st" and fresh: "st p = None" and skip: "pskip b = None"
    and link: "pprev b = None \<and> nHeight b = 0 \<or> (\<exists>q c. pprev b = Some q \<and> st q = Some c \<and> nHeight b = nHeight c + 1)"
  shows "index_wf (st(p \<mapsto> b))"
proof -
  have np: "nth_prev (st(p \<mapsto> b)) n x = nth_prev st n x" if "st x \<noteq> None" for n x
    using that
  proof (induction n arbitrary: x)
    case (Suc n)
    then obtain c where c: "st x = Some c" by auto
    then have "x \<noteq> p" using fresh by auto
    then show ?case using Suc.IH index_wf_prev [OF wf c] c by (cases "pprev c") auto
  qed simp
  have "0 \<le> nHeight b" using link index_wf_height [OF wf] by fastforce
  moreover have "case pprev c of None \<Rightarrow> nHeight c = 0 | Some q \<Rightarrow> \<exists>d. (st(p \<mapsto> b)) q = Some d \<and> nHeight c = nHeight d + 1"
    if "st x = Some c" for x c
    using index_wf_prev [OF wf that] index_wf_root [OF wf that] fresh by (cases "pprev c") force+
  moreover have "case pprev b of None \<Rightarrow> nHeight b = 0 | Some q \<Rightarrow> \<exists>d. (st(p \<mapsto> b)) q = Some d \<and> nHeight b = nHeight d + 1"
    using link fresh by force
  ultimately show ?thesis
    unfolding index_wf_def
    using index_wf_height [OF wf] index_wf_skip [OF wf] skip by (auto simp: np)
qed

lemma BuildSkip_spec:
  assumes wf: "index_wf st" and p: "st p = Some b" and q: "pprev b = Some q"
  obtains s where "BuildSkip st p = Inr (st(p \<mapsto> b\<lparr>pskip := Some s\<rparr>))"
    "nth_prev st (nat (nHeight b - GetSkipHeight (nHeight b))) p = Some s"
    "index_wf (st(p \<mapsto> b\<lparr>pskip := Some s\<rparr>))"
proof -
  obtain c where c: "st q = Some c" "nHeight b = nHeight c + 1" using index_wf_prev [OF wf p q] by auto
  have "0 \<le> nHeight c" using index_wf_height [OF wf c(1)] .
  then have h: "0 \<le> GetSkipHeight (nHeight b)" "GetSkipHeight (nHeight b) \<le> nHeight c"
    using GetSkipHeight_bounds [of "nHeight b"] c(2) by auto
  obtain s where s: "GetAncestor st q (GetSkipHeight (nHeight b)) = Inr (Some s)"
    "nth_prev st (nat (nHeight c - GetSkipHeight (nHeight b))) q = Some s"
    using GetAncestor_in_range [OF wf c(1) h] by blast
  have "nat (nHeight b - GetSkipHeight (nHeight b)) = Suc (nat (nHeight c - GetSkipHeight (nHeight b)))"
    using h c(2) by auto
  then have np: "nth_prev st (nat (nHeight b - GetSkipHeight (nHeight b))) p = Some s" using p q s by simp
  show thesis
  proof (rule that [of s])
    show "BuildSkip st p = Inr (st(p \<mapsto> b\<lparr>pskip := Some s\<rparr>))" using p q s by (simp add: BuildSkip_def)
    show "index_wf (st(p \<mapsto> b\<lparr>pskip := Some s\<rparr>))" using wf p by (rule index_wf_update) (use np in auto)
  qed (rule np)
qed

section \<open>Common ancestors\<close>

definition is_ancestor :: "block_store \<Rightarrow> ptr \<Rightarrow> ptr \<Rightarrow> bool" where
  "is_ancestor st a p \<longleftrightarrow> (\<exists>n. nth_prev st n p = Some a)"

definition single_root :: "block_store \<Rightarrow> bool" where
  "single_root st \<longleftrightarrow> (\<forall>p q b c. st p = Some b \<and> st q = Some c \<and> pprev b = None \<and> pprev c = None \<longrightarrow> p = q)"

lemma nth_prev_at_height:
  assumes "index_wf st" "st p = Some b" "nth_prev st n p = Some q"
  obtains c where "st q = Some c" "nHeight c = nHeight b - int n" "int n \<le> nHeight b"
  using nth_prev_height [OF assms(1,2), of n] nth_prev_beyond [OF assms(1,2), of n] assms(3) by fastforce

lemma lca_loop_meets:
  assumes wf: "index_wf st" and root: "single_root st"
  shows "st pa = Some a \<Longrightarrow> st pb = Some b \<Longrightarrow> nHeight a = int h \<Longrightarrow> nHeight b = int h \<Longrightarrow>
    \<exists>n q. lca_loop st (Some pa) (Some pb) = Some (Inr (Some q)) \<and>
      nth_prev st n pa = Some q \<and> nth_prev st n pb = Some q \<and> (\<forall>m<n. nth_prev st m pa \<noteq> nth_prev st m pb)"
proof (induction h arbitrary: pa pb a b)
  case 0
  then have "pa = pb" using root index_wf_root [OF wf] unfolding single_root_def by fastforce
  then show ?case by (intro exI [of _ 0] exI [of _ pa]) (simp add: lca_loop.simps)
next
  case (Suc h)
  show ?case
  proof (cases "pa = pb")
    case True
    then show ?thesis by (intro exI [of _ 0] exI [of _ pa]) (simp add: lca_loop.simps)
  next
    case False
    obtain qa where qa: "pprev a = Some qa" using index_wf_root [OF wf Suc.prems(1)] Suc.prems by fastforce
    then obtain a' where a': "st qa = Some a'" "nHeight a = nHeight a' + 1"
      using index_wf_prev [OF wf Suc.prems(1)] by auto
    obtain qb where qb: "pprev b = Some qb" using index_wf_root [OF wf Suc.prems(2)] Suc.prems by fastforce
    then obtain b' where b': "st qb = Some b'" "nHeight b = nHeight b' + 1"
      using index_wf_prev [OF wf Suc.prems(2)] by auto
    obtain n q where n: "lca_loop st (Some qa) (Some qb) = Some (Inr (Some q))"
      "nth_prev st n qa = Some q" "nth_prev st n qb = Some q" "\<forall>m<n. nth_prev st m qa \<noteq> nth_prev st m qb"
      using Suc.IH [OF a'(1) b'(1)] a' b' Suc.prems by auto
    show ?thesis
    proof (intro exI conjI)
      show "lca_loop st (Some pa) (Some pb) = Some (Inr (Some q))"
        using n(1) False Suc.prems(1,2) qa qb by (simp add: lca_loop.simps [of st "Some pa"])
      show "nth_prev st (Suc n) pa = Some q" "nth_prev st (Suc n) pb = Some q"
        using n Suc.prems(1,2) qa qb by simp_all
      show "\<forall>m<Suc n. nth_prev st m pa \<noteq> nth_prev st m pb"
        using n(4) False Suc.prems(1,2) qa qb by (auto simp: less_Suc_eq_0_disj)
    qed
  qed
qed

lemma level_ancestor:
  assumes wf: "index_wf st" and p: "st p = Some b" and k: "k \<le> nHeight b" "0 \<le> k"
  obtains p' b' where "GetAncestor st p k = Inr (Some p')" "st p' = Some b'" "nHeight b' = k"
    "is_ancestor st p' p" "\<forall>r c. is_ancestor st r p \<longrightarrow> st r = Some c \<longrightarrow> nHeight c \<le> k \<longrightarrow> is_ancestor st r p'"
proof -
  obtain p' b' where p': "GetAncestor st p k = Inr (Some p')" "nth_prev st (nat (nHeight b - k)) p = Some p'"
    "st p' = Some b'" "nHeight b' = k"
    using GetAncestor_in_range [OF wf p k(2,1)] by blast
  have "is_ancestor st r p'" if r: "is_ancestor st r p" and c: "st r = Some c" "nHeight c \<le> k" for r c
  proof -
    obtain n where n: "nth_prev st n p = Some r" using r by (auto simp: is_ancestor_def)
    then have "nHeight c = nHeight b - int n" using nth_prev_at_height [OF wf p n] c by fastforce
    then have "n = nat (nHeight b - k) + (n - nat (nHeight b - k))" using c k by auto
    then have "nth_prev st (n - nat (nHeight b - k)) p' = Some r"
      using n p' nth_prev_add [of st "nat (nHeight b - k)" "n - nat (nHeight b - k)" p] by simp
    then show ?thesis unfolding is_ancestor_def by blast
  qed
  moreover have "is_ancestor st p' p" using p'(2) unfolding is_ancestor_def by blast
  ultimately show thesis using that [OF p'(1,3,4)] by blast
qed

lemma lca_loop_greatest:
  assumes wf: "index_wf st" and root: "single_root st"
    and a: "st pa = Some a" and b: "st pb = Some b" and h: "nHeight a = nHeight b"
  obtains q where "lca_loop st (Some pa) (Some pb) = Some (Inr (Some q))" "is_ancestor st q pa" "is_ancestor st q pb"
    "\<And>r. is_ancestor st r pa \<Longrightarrow> is_ancestor st r pb \<Longrightarrow> is_ancestor st r q"
proof -
  obtain k where k: "nHeight a = int k" using index_wf_height [OF wf a] nonneg_int_cases by blast
  obtain n q where n: "lca_loop st (Some pa) (Some pb) = Some (Inr (Some q))"
    "nth_prev st n pa = Some q" "nth_prev st n pb = Some q" "\<forall>m<n. nth_prev st m pa \<noteq> nth_prev st m pb"
    using lca_loop_meets [OF wf root a b k] h k by auto
  have "is_ancestor st r q" if ra: "is_ancestor st r pa" and rb: "is_ancestor st r pb" for r
  proof -
    obtain i where i: "nth_prev st i pa = Some r" using ra by (auto simp: is_ancestor_def)
    obtain j where j: "nth_prev st j pb = Some r" using rb by (auto simp: is_ancestor_def)
    obtain c where "st r = Some c" "nHeight c = nHeight a - int i" by (rule nth_prev_at_height [OF wf a i])
    moreover obtain d where "st r = Some d" "nHeight d = nHeight b - int j" by (rule nth_prev_at_height [OF wf b j])
    ultimately have "i = j" using h by simp
    then have "n \<le> i" using n(4) i j not_less by metis
    then have "nth_prev st (i - n) q = Some r" using i n(2) nth_prev_add [of st n "i - n" pa] by simp
    then show ?thesis unfolding is_ancestor_def by blast
  qed
  moreover have "is_ancestor st q pa" "is_ancestor st q pb" using n(2,3) unfolding is_ancestor_def by blast+
  ultimately show thesis using that [OF n(1)] by blast
qed

lemma is_ancestor_refl [simp]: "is_ancestor st p p"
  unfolding is_ancestor_def by (rule exI [of _ 0]) simp

lemma is_ancestor_trans: "is_ancestor st a b \<Longrightarrow> is_ancestor st b c \<Longrightarrow> is_ancestor st a c"
proof -
  assume "is_ancestor st a b" "is_ancestor st b c"
  then obtain m n where "nth_prev st m b = Some a" "nth_prev st n c = Some b" by (auto simp: is_ancestor_def)
  then have "nth_prev st (n + m) c = Some a" by (simp add: nth_prev_add)
  then show ?thesis unfolding is_ancestor_def by blast
qed

lemma is_ancestor_height:
  assumes "index_wf st" "st p = Some b" "is_ancestor st r p"
  obtains c where "st r = Some c" "nHeight c \<le> nHeight b"
proof -
  obtain n where n: "nth_prev st n p = Some r" using assms(3) by (auto simp: is_ancestor_def)
  show thesis by (rule nth_prev_at_height [OF assms(1,2) n], rule that) auto
qed

lemma LastCommonAncestor_greatest:
  assumes wf: "index_wf st" and root: "single_root st" and a: "st pa = Some a" and b: "st pb = Some b"
  obtains q where "LastCommonAncestor st pa pb = Some (Inr (Some q))" "is_ancestor st q pa" "is_ancestor st q pb"
    "\<And>r. is_ancestor st r pa \<Longrightarrow> is_ancestor st r pb \<Longrightarrow> is_ancestor st r q"
proof -
  define k where "k = min (nHeight a) (nHeight b)"
  have k: "k \<le> nHeight a" "k \<le> nHeight b" "0 \<le> k"
    using index_wf_height [OF wf a] index_wf_height [OF wf b] by (auto simp: k_def)
  obtain pa' a' where pa: "GetAncestor st pa k = Inr (Some pa')" "st pa' = Some a'" "nHeight a' = k" "is_ancestor st pa' pa"
    "\<forall>r c. is_ancestor st r pa \<longrightarrow> st r = Some c \<longrightarrow> nHeight c \<le> k \<longrightarrow> is_ancestor st r pa'"
    by (rule level_ancestor [OF wf a k(1,3)])
  obtain pb' b' where pb: "GetAncestor st pb k = Inr (Some pb')" "st pb' = Some b'" "nHeight b' = k" "is_ancestor st pb' pb"
    "\<forall>r c. is_ancestor st r pb \<longrightarrow> st r = Some c \<longrightarrow> nHeight c \<le> k \<longrightarrow> is_ancestor st r pb'"
    by (rule level_ancestor [OF wf b k(2,3)])
  have self: "GetAncestor st pa (nHeight a) = Inr (Some pa)" "GetAncestor st pb (nHeight b) = Inr (Some pb)"
    using GetAncestor_nth_prev [OF wf a, of "nHeight a"] GetAncestor_nth_prev [OF wf b, of "nHeight b"]
      index_wf_height [OF wf a] index_wf_height [OF wf b] by auto
  have eq: "LastCommonAncestor st pa pb = lca_loop st (Some pa') (Some pb')"
    using pa(1) pb(1) self a b by (cases "nHeight a" "nHeight b" rule: linorder_cases)
      (simp_all add: LastCommonAncestor_def k_def)
  obtain q where q: "lca_loop st (Some pa') (Some pb') = Some (Inr (Some q))" "is_ancestor st q pa'" "is_ancestor st q pb'"
    "\<And>r. is_ancestor st r pa' \<Longrightarrow> is_ancestor st r pb' \<Longrightarrow> is_ancestor st r q"
    by (rule lca_loop_greatest [OF wf root pa(2) pb(2)]) (use pa(3) pb(3) in auto)
  show thesis
  proof (rule that [of q])
    fix r assume r: "is_ancestor st r pa" "is_ancestor st r pb"
    obtain c where "st r = Some c" "nHeight c \<le> nHeight a" by (rule is_ancestor_height [OF wf a r(1)])
    moreover obtain d where "st r = Some d" "nHeight d \<le> nHeight b" by (rule is_ancestor_height [OF wf b r(2)])
    ultimately have "st r = Some c" "nHeight c \<le> k" by (auto simp: k_def)
    then show "is_ancestor st r q" using q(4) pa(5) pb(5) r by blast
  qed (use eq q(1) in simp, rule is_ancestor_trans [OF q(2) pa(4)], rule is_ancestor_trans [OF q(3) pb(4)])
qed

section \<open>Status bits\<close>

lemma status_bits:
  fixes V F A s n :: u32
  assumes n: "n AND NOT V = 0"
  shows "((s AND NOT V) OR n) AND V = n"
    and "V AND F = 0 \<Longrightarrow> s AND F = 0 \<Longrightarrow> ((s AND NOT V) OR n) AND F = 0"
    and "((s AND NOT V) OR n) AND NOT (V OR A) = s AND NOT (V OR A)"
    and "F AND A = 0 \<Longrightarrow> s AND F = 0 \<Longrightarrow> (s AND NOT A) AND F = 0"
    and "(s AND NOT A) AND NOT (V OR A) = s AND NOT (V OR A)"
  using n by (auto simp: bit_eq_iff bit_simps)

section \<open>The contract of ancestor queries\<close>

text \<open>What code that walks back from a tip relies on: every height up to the tip has one ancestor,
  queries never abort, and an ancestor's ancestors are the tip's.\<close>

locale ancestor_query =
  fixes ok :: "'s \<Rightarrow> bool"
    and height :: "'s \<Rightarrow> 'p \<Rightarrow> int option"
    and anc :: "'s \<Rightarrow> 'p \<Rightarrow> int \<Rightarrow> abort + 'p option"
  assumes anc_in_range: "ok s \<Longrightarrow> height s p = Some h \<Longrightarrow> 0 \<le> k \<Longrightarrow> k \<le> h \<Longrightarrow>
      \<exists>q. anc s p k = Inr (Some q) \<and> height s q = Some k"
    and anc_out_of_range: "ok s \<Longrightarrow> height s p = Some h \<Longrightarrow> k < 0 \<or> h < k \<Longrightarrow> anc s p k = Inr None"
    and anc_of_anc: "ok s \<Longrightarrow> height s p = Some h \<Longrightarrow> 0 \<le> j \<Longrightarrow> j \<le> k \<Longrightarrow> anc s p k = Inr (Some q) \<Longrightarrow>
      anc s q j = anc s p j"
begin

lemma window_total:
  assumes "ok s" "height s p = Some h" "0 \<le> lo"
  shows "\<exists>qs. map (anc s p) [lo..h] = map (\<lambda>q. Inr (Some q)) qs \<and> map (height s) qs = map Some [lo..h]"
proof -
  have "\<forall>k\<in>set [lo..h]. \<exists>q. anc s p k = Inr (Some q) \<and> height s q = Some k"
    using anc_in_range [OF assms(1,2)] assms(3) by auto
  then obtain f where "\<forall>k\<in>set [lo..h]. anc s p k = Inr (Some (f k)) \<and> height s (f k) = Some k"
    using bchoice [of "set [lo..h]" "\<lambda>k q. anc s p k = Inr (Some q) \<and> height s q = Some k"] by blast
  then show ?thesis by (intro exI [of _ "map f [lo..h]"]) simp
qed

end

lemma ancestor_of_ancestor:
  assumes wf: "index_wf st" "st p = Some b" and "0 \<le> j" "j \<le> k" "GetAncestor st p k = Inr (Some q)"
  shows "GetAncestor st q j = GetAncestor st p j"
proof -
  have k: "0 \<le> k" "k \<le> nHeight b" "nth_prev st (nat (nHeight b - k)) p = Some q"
    using GetAncestor_nth_prev [OF wf, of k] assms(5) by (auto split: if_splits)
  obtain c where c: "st q = Some c" "nHeight c = nHeight b - int (nat (nHeight b - k))"
    by (rule nth_prev_at_height [OF wf k(3)])
  have "nat (nHeight b - j) = nat (nHeight b - k) + nat (nHeight c - j)" using k c assms by auto
  then have "nth_prev st (nat (nHeight b - j)) p = nth_prev st (nat (nHeight c - j)) q" using k by (simp add: nth_prev_add)
  then show ?thesis
    using GetAncestor_nth_prev [OF wf, of j] GetAncestor_nth_prev [OF wf(1) c(1), of j] c k assms by auto
qed

interpretation index_ancestor: ancestor_query index_wf "\<lambda>st p. map_option nHeight (st p)" GetAncestor
proof unfold_locales
  fix s p h k assume a: "index_wf s" "map_option nHeight (s p) = Some h" "0 \<le> k" "k \<le> h"
  then obtain b where b: "s p = Some b" "nHeight b = h" by auto
  obtain q c where "GetAncestor s p k = Inr (Some q)" "s q = Some c" "nHeight c = k"
    by (rule GetAncestor_in_range [OF a(1) b(1) a(3)]) (use a b in auto)
  then show "\<exists>q. GetAncestor s p k = Inr (Some q) \<and> map_option nHeight (s q) = Some k" by auto
qed (auto simp: GetAncestor_nth_prev intro: ancestor_of_ancestor)

section \<open>An example tree\<close>

text \<open>A genesis block, a branch of two blocks above it, and a one-block fork: the concrete input of
  the witnesses of this and later theories.\<close>

definition example_index :: block_store where
  "example_index =
     [[0] \<mapsto> CBlockIndex_default,
      [1] \<mapsto> CBlockIndex_default\<lparr>pprev := Some [0], pskip := Some [0], nHeight := 1, nTime := 60\<rparr>,
      [2] \<mapsto> CBlockIndex_default\<lparr>pprev := Some [1], pskip := Some [0], nHeight := 2, nTime := 120\<rparr>,
      [3] \<mapsto> CBlockIndex_default\<lparr>pprev := Some [0], pskip := Some [0], nHeight := 1, nTime := 70\<rparr>]"

lemma example_index_simps:
  "example_index [0] = Some CBlockIndex_default"
  "example_index [1] = Some (CBlockIndex_default\<lparr>pprev := Some [0], pskip := Some [0], nHeight := 1, nTime := 60\<rparr>)"
  "example_index [2] = Some (CBlockIndex_default\<lparr>pprev := Some [1], pskip := Some [0], nHeight := 2, nTime := 120\<rparr>)"
  "example_index [3] = Some (CBlockIndex_default\<lparr>pprev := Some [0], pskip := Some [0], nHeight := 1, nTime := 70\<rparr>)"
  by (simp_all add: example_index_def)

lemma example_index_dom: "example_index p = Some b \<Longrightarrow> p \<in> {[0], [1], [2], [3]}"
  by (simp add: example_index_def split: if_splits)

lemma example_index_wf: "index_wf example_index"
  unfolding index_wf_def
proof (intro allI impI)
  fix p b assume p: "example_index p = Some b"
  have "GetSkipHeight 1 = 0" "GetSkipHeight 2 = 0" by (simp_all add: GetSkipHeight_def InvertLowestOne_def)
  with example_index_dom [OF p] p show "0 \<le> nHeight b \<and>
     (case pprev b of None \<Rightarrow> nHeight b = 0
      | Some q \<Rightarrow> \<exists>c. example_index q = Some c \<and> nHeight b = nHeight c + 1) \<and>
     (\<forall>s. pskip b = Some s \<longrightarrow> nth_prev example_index (nat (nHeight b - GetSkipHeight (nHeight b))) p = Some s)"
    by (auto simp: example_index_simps CBlockIndex_default_def numeral_2_eq_2)
qed

lemma example_index_root: "single_root example_index"
proof -
  have "p = [0]" if "example_index p = Some b" "pprev b = None" for p b
    using example_index_dom [OF that(1)] that by (auto simp: example_index_simps CBlockIndex_default_def)
  then show ?thesis unfolding single_root_def by blast
qed

section \<open>Properties\<close>

text \<open>\<^bold>\<open>C25\<close>: the skip-list walk of \<^verbatim>\<open>CBlockIndex::GetAncestor\<close> is the walk along \<^verbatim>\<open>pprev\<close>. On a
  well-formed index it terminates without failing its assertion or following a null pointer; for
  a height between zero and the entry's own it returns the entry that many \<^verbatim>\<open>pprev\<close> steps back,
  whose height is the one asked for, and for any other height it returns null.\<close>

theorem GetAncestor_correct:
  assumes "index_wf st" "st p = Some b"
  shows "if 0 \<le> h \<and> h \<le> nHeight b
    then \<exists>q c. GetAncestor st p h = Inr (Some q) \<and> nth_prev st (nat (nHeight b - h)) p = Some q \<and>
           st q = Some c \<and> nHeight c = h
    else GetAncestor st p h = Inr None"
proof (cases "0 \<le> h \<and> h \<le> nHeight b")
  case True
  then show ?thesis using GetAncestor_in_range [OF assms, of h] by metis
next
  case False
  then show ?thesis using GetAncestor_nth_prev [OF assms, of h] by auto
qed

theorem GetAncestor_correct_witness:
  "index_wf example_index \<and> example_index [2] \<noteq> None \<and> GetAncestor example_index [2] 0 = Inr (Some [0])"
proof -
  have "nth_prev example_index (nat 2) [2] = Some [0]"
    by (simp add: example_index_simps CBlockIndex_default_def numeral_2_eq_2)
  then show ?thesis
    using GetAncestor_correct [OF example_index_wf example_index_simps(3), of 0] example_index_wf
    by (auto simp: example_index_simps CBlockIndex_default_def)
qed

text \<open>\<^bold>\<open>C32\<close>: \<^verbatim>\<open>BuildSkip\<close> on an entry of a well-formed index sets \<^verbatim>\<open>pskip\<close> to the entry's ancestor
  at the skip height, a strictly lower one, changes nothing else, and leaves the index
  well-formed. On the root it changes nothing.\<close>

theorem BuildSkip_correct:
  assumes "index_wf st" "st p = Some b"
  shows "if pprev b = None then BuildSkip st p = Inr st
    else \<exists>s c. BuildSkip st p = Inr (st(p \<mapsto> b\<lparr>pskip := Some s\<rparr>)) \<and> index_wf (st(p \<mapsto> b\<lparr>pskip := Some s\<rparr>)) \<and>
      is_ancestor st s p \<and> st s = Some c \<and> nHeight c = GetSkipHeight (nHeight b) \<and> nHeight c < nHeight b"
proof (cases "pprev b")
  case None
  then show ?thesis using assms by (simp add: BuildSkip_def)
next
  case (Some q)
  obtain s where s: "BuildSkip st p = Inr (st(p \<mapsto> b\<lparr>pskip := Some s\<rparr>))"
    "nth_prev st (nat (nHeight b - GetSkipHeight (nHeight b))) p = Some s"
    "index_wf (st(p \<mapsto> b\<lparr>pskip := Some s\<rparr>))"
    by (rule BuildSkip_spec [OF assms Some])
  have "0 < nHeight b" using index_wf_root [OF assms] index_wf_height [OF assms] Some by auto
  then have "GetSkipHeight (nHeight b) < nHeight b" using GetSkipHeight_bounds by simp
  moreover obtain c where "st s = Some c" "nHeight c = nHeight b - int (nat (nHeight b - GetSkipHeight (nHeight b)))"
    by (rule nth_prev_at_height [OF assms s(2)])
  ultimately show ?thesis using Some s unfolding is_ancestor_def by auto
qed

theorem BuildSkip_correct_witness:
  "\<exists>s c st'. index_wf example_index \<and> BuildSkip example_index [2] = Inr st' \<and> index_wf st' \<and>
     is_ancestor example_index s [2] \<and> example_index s = Some c \<and> nHeight c = 0"
  using BuildSkip_correct [OF example_index_wf example_index_simps(3)] example_index_wf
  by (auto simp: CBlockIndex_default_def GetSkipHeight_def InvertLowestOne_def)

text \<open>\<^bold>\<open>C31\<close>: \<^verbatim>\<open>LastCommonAncestor\<close> on an index with one genesis block returns, without failing
  its assertion, the fork point of its two arguments: an ancestor of both that every common
  ancestor is an ancestor of.\<close>

theorem LastCommonAncestor_correct:
  assumes "index_wf st" "single_root st" "st pa = Some a" "st pb = Some b"
  shows "\<exists>q. LastCommonAncestor st pa pb = Some (Inr (Some q)) \<and> is_ancestor st q pa \<and> is_ancestor st q pb \<and>
    (\<forall>r. is_ancestor st r pa \<and> is_ancestor st r pb \<longrightarrow> is_ancestor st r q)"
  using LastCommonAncestor_greatest [OF assms] by metis

theorem LastCommonAncestor_correct_witness:
  "index_wf example_index \<and> single_root example_index \<and> example_index [2] \<noteq> None \<and> example_index [3] \<noteq> None \<and>
   (\<exists>q. LastCommonAncestor example_index [2] [3] = Some (Inr (Some q)) \<and>
     is_ancestor example_index q [2] \<and> is_ancestor example_index q [3])"
  using LastCommonAncestor_correct [OF example_index_wf example_index_root example_index_simps(3,4)]
    example_index_wf example_index_root by (auto simp: example_index_simps)

text \<open>\<^verbatim>\<open>RaiseValidity\<close> to a legal level never lowers an entry: a failed entry is left as it
  is and reported unchanged; otherwise the entry afterwards satisfies \<^verbatim>\<open>IsValid\<close> at that level,
  the call reports a change exactly when it was below it, no flag outside the level bits
  changes except \<^verbatim>\<open>BLOCK_ASSUMED_VALID\<close>, and no other field of the entry changes.\<close>

theorem RaiseValidity_raises:
  assumes "n AND NOT BLOCK_VALID_MASK = 0"
  shows "\<exists>b' ch. RaiseValidity b n = Inr (b', ch) \<and> b' = b\<lparr>nStatus := nStatus b'\<rparr> \<and>
    (if nStatus b AND BLOCK_FAILED_MASK \<noteq> 0 then b' = b \<and> \<not> ch
     else IsValid b' n = Inr True \<and> (ch \<longleftrightarrow> IsValid b n = Inr False) \<and>
       nStatus b' AND NOT (BLOCK_VALID_MASK OR BLOCK_ASSUMED_VALID) =
       nStatus b AND NOT (BLOCK_VALID_MASK OR BLOCK_ASSUMED_VALID))"
proof -
  let ?V = BLOCK_VALID_MASK and ?F = BLOCK_FAILED_MASK and ?A = BLOCK_ASSUMED_VALID
  define st where "st = (if nStatus b AND ?A \<noteq> 0 \<and> n \<ge> BLOCK_VALID_SCRIPTS then nStatus b AND NOT ?A else nStatus b)"
  note bits = status_bits [OF assms]
  have disj: "?V AND ?F = 0" "?F AND ?A = 0"
    by (simp_all add: BLOCK_VALID_MASK_def BLOCK_FAILED_MASK_def BLOCK_ASSUMED_VALID_def)
  have "nStatus b AND ?F = 0 \<Longrightarrow> st AND ?F = 0" using disj bits(4) by (simp add: st_def)
  then have F: "nStatus b AND ?F = 0 \<Longrightarrow> ((st AND NOT ?V) OR n) AND ?F = 0" using disj bits(2) by blast
  have A: "((st AND NOT ?V) OR n) AND NOT (?V OR ?A) = nStatus b AND NOT (?V OR ?A)"
    unfolding bits(3) using bits(5) by (simp add: st_def)
  show ?thesis
    using assms F A bits(1) [of st]
    by (auto simp: RaiseValidity_def IsValid_def Let_def simp flip: st_def)
qed

theorem RaiseValidity_raises_witness:
  "(3 :: u32) AND NOT BLOCK_VALID_MASK = 0 \<and>
   (\<exists>b' ch. RaiseValidity CBlockIndex_default 3 = Inr (b', ch) \<and> IsValid b' 3 = Inr True)"
proof -
  have "(3 :: u32) AND NOT BLOCK_VALID_MASK = 0" by (simp add: BLOCK_VALID_MASK_def)
  then show ?thesis using RaiseValidity_raises [of 3 CBlockIndex_default]
    by (auto simp: CBlockIndex_default_def)
qed

end
