(* ===== verification/Llmq_Params.thy ===== *)
theory Llmq_Params
  imports Defcon_Prelude
begin

text \<open>
  The quorum profiles of \<^verbatim>\<open>src/src/llmq/params.h\<close>: the quorum types, the parameters of a profile
  and the table \<^verbatim>\<open>available_llmqs\<close> of the thirteen built-in profiles, entry by entry. The lemmas
  state what every profile satisfies (windows inside the cycle, thresholds reachable) and what
  only some do (a signing threshold above half of the quorum).
\<close>

section \<open>Model\<close>

datatype LLMQType =
  LLMQ_NONE | LLMQ_50_60 | LLMQ_400_60 | LLMQ_400_85 | LLMQ_100_67 | LLMQ_60_75 | LLMQ_25_67 | LLMQ_DEFCON
  | LLMQ_TEST | LLMQ_DEVNET | LLMQ_TEST_V17 | LLMQ_TEST_INSTANTSEND | LLMQ_TEST_PLATFORM | LLMQ_DEVNET_PLATFORM

text \<open>The underlying byte of the enumerator; \<^verbatim>\<open>std::map\<close> orders quorum types by it.\<close>

fun LLMQType_value :: "LLMQType \<Rightarrow> nat" where
  "LLMQType_value LLMQ_NONE = 255"
| "LLMQType_value LLMQ_50_60 = 1"
| "LLMQType_value LLMQ_400_60 = 2"
| "LLMQType_value LLMQ_400_85 = 3"
| "LLMQType_value LLMQ_100_67 = 4"
| "LLMQType_value LLMQ_60_75 = 5"
| "LLMQType_value LLMQ_25_67 = 6"
| "LLMQType_value LLMQ_DEFCON = 7"
| "LLMQType_value LLMQ_TEST = 100"
| "LLMQType_value LLMQ_DEVNET = 101"
| "LLMQType_value LLMQ_TEST_V17 = 102"
| "LLMQType_value LLMQ_TEST_INSTANTSEND = 104"
| "LLMQType_value LLMQ_TEST_PLATFORM = 106"
| "LLMQType_value LLMQ_DEVNET_PLATFORM = 107"

definition all_llmq_types :: "LLMQType list" where
  "all_llmq_types =
     [LLMQ_50_60, LLMQ_400_60, LLMQ_400_85, LLMQ_100_67, LLMQ_60_75, LLMQ_25_67, LLMQ_DEFCON, LLMQ_TEST,
      LLMQ_DEVNET, LLMQ_TEST_V17, LLMQ_TEST_INSTANTSEND, LLMQ_TEST_PLATFORM, LLMQ_DEVNET_PLATFORM, LLMQ_NONE]"

instantiation LLMQType :: linorder
begin

definition less_eq_LLMQType :: "LLMQType \<Rightarrow> LLMQType \<Rightarrow> bool" where
  "less_eq_LLMQType a b \<longleftrightarrow> LLMQType_value a \<le> LLMQType_value b"

definition less_LLMQType :: "LLMQType \<Rightarrow> LLMQType \<Rightarrow> bool" where
  "less_LLMQType a b \<longleftrightarrow> LLMQType_value a < LLMQType_value b"

instance
proof
  fix a b :: LLMQType
  assume "a \<le> b" "b \<le> a"
  then show "a = b" by (cases a; cases b; simp add: less_eq_LLMQType_def)
qed (auto simp: less_eq_LLMQType_def less_LLMQType_def)

end

definition MAX_LLMQ_SIZE :: int where "MAX_LLMQ_SIZE = 400"

record LLMQParams =
  llmq_type :: LLMQType
  llmq_name :: string
  llmq_size :: int
  minSize :: int
  threshold :: int
  dkgInterval :: int
  dkgPhaseBlocks :: int
  dkgMiningWindowStart :: int
  dkgMiningWindowEnd :: int
  dkgBadVotesThreshold :: int
  dkgBadVotesThresholdV2 :: int
  signingActiveQuorumCount :: int
  keepOldConnections :: int
  keepOldKeys :: int
  recoveryMembers :: int

definition max_cycles :: "LLMQParams \<Rightarrow> int \<Rightarrow> int" where
  "max_cycles p quorums_count = quorums_count"

definition max_store_depth :: "LLMQParams \<Rightarrow> int" where
  "max_store_depth p = max_cycles p (keepOldKeys p) * dkgInterval p"

subsection \<open>The built-in profiles\<close>

definition profile_llmq_test :: LLMQParams where
  "profile_llmq_test =
     \<lparr>llmq_type = LLMQ_TEST, llmq_name = ''llmq_test'', llmq_size = 3, minSize = 2, threshold = 2,
      dkgInterval = 24, dkgPhaseBlocks = 2, dkgMiningWindowStart = 10, dkgMiningWindowEnd = 18,
      dkgBadVotesThreshold = 2, dkgBadVotesThresholdV2 = 0, signingActiveQuorumCount = 2,
      keepOldConnections = 3, keepOldKeys = 4, recoveryMembers = 3\<rparr>"

definition profile_llmq_test_instantsend :: LLMQParams where
  "profile_llmq_test_instantsend =
     \<lparr>llmq_type = LLMQ_TEST_INSTANTSEND, llmq_name = ''llmq_test_instantsend'', llmq_size = 3, minSize = 2, threshold = 2,
      dkgInterval = 24, dkgPhaseBlocks = 2, dkgMiningWindowStart = 10, dkgMiningWindowEnd = 18,
      dkgBadVotesThreshold = 2, dkgBadVotesThresholdV2 = 0, signingActiveQuorumCount = 2,
      keepOldConnections = 3, keepOldKeys = 4, recoveryMembers = 3\<rparr>"

definition profile_llmq_test_v17 :: LLMQParams where
  "profile_llmq_test_v17 =
     \<lparr>llmq_type = LLMQ_TEST_V17, llmq_name = ''llmq_test_v17'', llmq_size = 3, minSize = 2, threshold = 2,
      dkgInterval = 24, dkgPhaseBlocks = 2, dkgMiningWindowStart = 10, dkgMiningWindowEnd = 18,
      dkgBadVotesThreshold = 2, dkgBadVotesThresholdV2 = 0, signingActiveQuorumCount = 2,
      keepOldConnections = 3, keepOldKeys = 4, recoveryMembers = 3\<rparr>"

definition profile_llmq_test_platform :: LLMQParams where
  "profile_llmq_test_platform =
     \<lparr>llmq_type = LLMQ_TEST_PLATFORM, llmq_name = ''llmq_test_platform'', llmq_size = 3, minSize = 2, threshold = 2,
      dkgInterval = 24, dkgPhaseBlocks = 2, dkgMiningWindowStart = 10, dkgMiningWindowEnd = 18,
      dkgBadVotesThreshold = 2, dkgBadVotesThresholdV2 = 0, signingActiveQuorumCount = 2,
      keepOldConnections = 4, keepOldKeys = 24 * 30 * 2, recoveryMembers = 3\<rparr>"

definition profile_llmq_devnet :: LLMQParams where
  "profile_llmq_devnet =
     \<lparr>llmq_type = LLMQ_DEVNET, llmq_name = ''llmq_devnet'', llmq_size = 12, minSize = 7, threshold = 6,
      dkgInterval = 24, dkgPhaseBlocks = 2, dkgMiningWindowStart = 10, dkgMiningWindowEnd = 18,
      dkgBadVotesThreshold = 7, dkgBadVotesThresholdV2 = 0, signingActiveQuorumCount = 4,
      keepOldConnections = 5, keepOldKeys = 8, recoveryMembers = 6\<rparr>"

definition profile_llmq_devnet_platform :: LLMQParams where
  "profile_llmq_devnet_platform =
     \<lparr>llmq_type = LLMQ_DEVNET_PLATFORM, llmq_name = ''llmq_devnet_platform'', llmq_size = 12, minSize = 9, threshold = 8,
      dkgInterval = 24, dkgPhaseBlocks = 2, dkgMiningWindowStart = 10, dkgMiningWindowEnd = 18,
      dkgBadVotesThreshold = 7, dkgBadVotesThresholdV2 = 0, signingActiveQuorumCount = 4,
      keepOldConnections = 5, keepOldKeys = 24 * 30 * 2, recoveryMembers = 6\<rparr>"

definition profile_llmq_50_60 :: LLMQParams where
  "profile_llmq_50_60 =
     \<lparr>llmq_type = LLMQ_50_60, llmq_name = ''llmq_50_60'', llmq_size = 50, minSize = 3, threshold = 3,
      dkgInterval = 24, dkgPhaseBlocks = 2, dkgMiningWindowStart = 10, dkgMiningWindowEnd = 18,
      dkgBadVotesThreshold = 40, dkgBadVotesThresholdV2 = 0, signingActiveQuorumCount = 2,
      keepOldConnections = 4, keepOldKeys = 3, recoveryMembers = 3\<rparr>"

definition profile_llmq_60_75 :: LLMQParams where
  "profile_llmq_60_75 =
     \<lparr>llmq_type = LLMQ_60_75, llmq_name = ''llmq_60_75'', llmq_size = 60, minSize = 3, threshold = 3,
      dkgInterval = 24 * 2, dkgPhaseBlocks = 2, dkgMiningWindowStart = 20, dkgMiningWindowEnd = 36,
      dkgBadVotesThreshold = 48, dkgBadVotesThresholdV2 = 0, signingActiveQuorumCount = 2,
      keepOldConnections = 4, keepOldKeys = 3, recoveryMembers = 3\<rparr>"

definition profile_llmq_400_60 :: LLMQParams where
  "profile_llmq_400_60 =
     \<lparr>llmq_type = LLMQ_400_60, llmq_name = ''llmq_400_60'', llmq_size = 400, minSize = 4, threshold = 3,
      dkgInterval = 24 * 3, dkgPhaseBlocks = 4, dkgMiningWindowStart = 20, dkgMiningWindowEnd = 28,
      dkgBadVotesThreshold = 30, dkgBadVotesThresholdV2 = 300, signingActiveQuorumCount = 4,
      keepOldConnections = 5, keepOldKeys = 8, recoveryMembers = 100\<rparr>"

definition profile_llmq_400_85 :: LLMQParams where
  "profile_llmq_400_85 =
     \<lparr>llmq_type = LLMQ_400_85, llmq_name = ''llmq_400_85'', llmq_size = 400, minSize = 350, threshold = 340,
      dkgInterval = 24 * 24, dkgPhaseBlocks = 4, dkgMiningWindowStart = 20, dkgMiningWindowEnd = 48,
      dkgBadVotesThreshold = 300, dkgBadVotesThresholdV2 = 0, signingActiveQuorumCount = 4,
      keepOldConnections = 5, keepOldKeys = 8, recoveryMembers = 100\<rparr>"

definition profile_llmq_100_67 :: LLMQParams where
  "profile_llmq_100_67 =
     \<lparr>llmq_type = LLMQ_100_67, llmq_name = ''llmq_100_67'', llmq_size = 100, minSize = 80, threshold = 67,
      dkgInterval = 24, dkgPhaseBlocks = 2, dkgMiningWindowStart = 10, dkgMiningWindowEnd = 18,
      dkgBadVotesThreshold = 80, dkgBadVotesThresholdV2 = 0, signingActiveQuorumCount = 24,
      keepOldConnections = 25, keepOldKeys = 24 * 30 * 2, recoveryMembers = 50\<rparr>"

definition profile_llmq_25_67 :: LLMQParams where
  "profile_llmq_25_67 =
     \<lparr>llmq_type = LLMQ_25_67, llmq_name = ''llmq_25_67'', llmq_size = 25, minSize = 22, threshold = 17,
      dkgInterval = 24, dkgPhaseBlocks = 2, dkgMiningWindowStart = 10, dkgMiningWindowEnd = 18,
      dkgBadVotesThreshold = 22, dkgBadVotesThresholdV2 = 0, signingActiveQuorumCount = 24,
      keepOldConnections = 25, keepOldKeys = 24 * 30 * 2, recoveryMembers = 12\<rparr>"

definition profile_llmq_defcon :: LLMQParams where
  "profile_llmq_defcon =
     \<lparr>llmq_type = LLMQ_DEFCON, llmq_name = ''llmq_defcon'', llmq_size = 60, minSize = 44, threshold = 41,
      dkgInterval = 24, dkgPhaseBlocks = 2, dkgMiningWindowStart = 10, dkgMiningWindowEnd = 18,
      dkgBadVotesThreshold = 48, dkgBadVotesThresholdV2 = 0, signingActiveQuorumCount = 4,
      keepOldConnections = 5, keepOldKeys = 8, recoveryMembers = 25\<rparr>"

definition available_llmqs :: "LLMQParams list" where
  "available_llmqs =
     [profile_llmq_test,
      profile_llmq_test_instantsend,
      profile_llmq_test_v17,
      profile_llmq_test_platform,
      profile_llmq_devnet,
      profile_llmq_devnet_platform,
      profile_llmq_50_60,
      profile_llmq_60_75,
      profile_llmq_400_60,
      profile_llmq_400_85,
      profile_llmq_100_67,
      profile_llmq_25_67,
      profile_llmq_defcon]"

lemmas profile_defs =
  profile_llmq_test_def
  profile_llmq_test_instantsend_def
  profile_llmq_test_v17_def
  profile_llmq_test_platform_def
  profile_llmq_devnet_def
  profile_llmq_devnet_platform_def
  profile_llmq_50_60_def
  profile_llmq_60_75_def
  profile_llmq_400_60_def
  profile_llmq_400_85_def
  profile_llmq_100_67_def
  profile_llmq_25_67_def
  profile_llmq_defcon_def

definition find_llmq :: "LLMQParams list \<Rightarrow> LLMQType \<Rightarrow> LLMQParams option" where
  "find_llmq ps t = find (\<lambda>p. llmq_type p = t) ps"

section \<open>What the profiles satisfy\<close>

text \<open>The shape the DKG and signing code rely on: the signing threshold is reachable by the least
  number of valid members and the sizes stay within the protocol's limit; mining of commitments
  starts after the DKG phases and ends inside the cycle; the bad-vote thresholds can be reached;
  connections are kept for one quorum more than the active set.\<close>

definition profile_ok :: "LLMQParams \<Rightarrow> bool" where
  "profile_ok p \<longleftrightarrow>
     0 < threshold p \<and> threshold p \<le> minSize p \<and> minSize p \<le> llmq_size p \<and> llmq_size p \<le> MAX_LLMQ_SIZE \<and>
     5 * dkgPhaseBlocks p \<le> dkgMiningWindowStart p \<and> dkgMiningWindowStart p \<le> dkgMiningWindowEnd p \<and>
     dkgMiningWindowEnd p < dkgInterval p \<and>
     0 < dkgBadVotesThreshold p \<and> dkgBadVotesThreshold p \<le> llmq_size p \<and> dkgBadVotesThresholdV2 p \<le> llmq_size p \<and>
     0 < signingActiveQuorumCount p \<and> signingActiveQuorumCount p < keepOldConnections p \<and>
     signingActiveQuorumCount p < keepOldKeys p"

lemma all_profiles_ok: "list_all profile_ok available_llmqs"
  by (simp add: available_llmqs_def profile_ok_def profile_defs MAX_LLMQ_SIZE_def)

lemma profile_types_distinct: "distinct (map llmq_type available_llmqs)"
  by (simp add: available_llmqs_def profile_defs)

lemma find_llmq_available: "t \<noteq> LLMQ_NONE \<Longrightarrow> \<exists>p. find_llmq available_llmqs t = Some p \<and> llmq_type p = t \<and> p \<in> set available_llmqs"
  by (cases t) (simp_all add: find_llmq_def available_llmqs_def profile_defs)

lemma find_llmq_none: "find_llmq available_llmqs LLMQ_NONE = None"
  by (simp add: find_llmq_def available_llmqs_def profile_defs)

text \<open>The profiles whose threshold exceeds half the quorum: two disjoint sets of members cannot
  both recover a signature there.\<close>

lemma majority_profiles:
  "map llmq_type (filter (\<lambda>p. llmq_size p < 2 * threshold p) available_llmqs) =
   [LLMQ_TEST, LLMQ_TEST_INSTANTSEND, LLMQ_TEST_V17, LLMQ_TEST_PLATFORM, LLMQ_DEVNET_PLATFORM, LLMQ_400_85,
    LLMQ_100_67, LLMQ_25_67, LLMQ_DEFCON]"
  by (simp add: available_llmqs_def profile_defs)

lemma majority_no_two_disjoint:
  fixes S T :: "nat set"
  assumes "S \<subseteq> {0..<n}" "T \<subseteq> {0..<n}" "n < 2 * k" "k \<le> card S" "k \<le> card T"
  shows "S \<inter> T \<noteq> {}"
proof
  assume "S \<inter> T = {}"
  then have "card (S \<union> T) = card S + card T"
    using assms(1,2) finite_subset by (intro card_Un_disjoint) (auto intro: finite_subset [of _ "{0..<n}"])
  moreover have "card (S \<union> T) \<le> n" using card_mono [of "{0..<n}" "S \<union> T"] assms(1,2) by simp
  ultimately show False using assms by linarith
qed

end
