(* ===== verification/Consensus_Params.thy ===== *)
theory Consensus_Params
  imports Llmq_Params
begin

text \<open>
  The consensus parameters of \<^verbatim>\<open>src/src/consensus/params.h\<close> that the modelled rules read, and the
  amounts of \<^verbatim>\<open>src/src/consensus/amount.h\<close>. A height no block reaches is \<open>UNSET\<close>, the largest
  \<^verbatim>\<open>int\<close>. The two-element vectors \<^verbatim>\<open>stakeValueRange\<close> and \<^verbatim>\<open>stakeAgeRange\<close> are pairs.
\<close>

definition COIN :: CAmount where "COIN = 100000000"

definition MAX_MONEY :: CAmount where "MAX_MONEY = 500000000 * COIN"

definition MoneyRange :: "CAmount \<Rightarrow> bool" where
  "MoneyRange nValue \<longleftrightarrow> 0 \<le> nValue \<and> nValue \<le> MAX_MONEY"

definition COINBASE_MATURITY :: int where "COINBASE_MATURITY = 25"

definition UNSET :: int where "UNSET = INT32_MAX"

datatype BuriedDeployment =
  DEPLOYMENT_HEIGHTINCB | DEPLOYMENT_DERSIG | DEPLOYMENT_CLTV | DEPLOYMENT_BIP147 | DEPLOYMENT_CSV
  | DEPLOYMENT_DIP0001 | DEPLOYMENT_DIP0003 | DEPLOYMENT_DIP0008 | DEPLOYMENT_V19 | DEPLOYMENT_V20 | DEPLOYMENT_MN_RR

record Params =
  BIP34Height :: int
  BIP65Height :: int
  BIP66Height :: int
  BIP147Height :: int
  CSVHeight :: int
  DIP0001Height :: int
  DIP0003Height :: int
  DIP0008Height :: int
  V19Height :: int
  V20Height :: int
  MN_RRHeight :: int
  powLimit :: uint256
  nPowTargetSpacing :: int
  nForkRecoveryAnchorHeight :: int
  hashForkRecoveryAnchor :: uint256
  nForkRecoveryActivationHeight :: int
  posLimit :: uint256
  lastPowBlock :: int
  posTargetSpacing :: int
  posTimestampMask :: u32
  stakeValueRange :: "CAmount \<times> CAmount"
  stakeAgeRange :: "int \<times> int"
  nPosKernelV2ActivationHeight :: int
  nPosCoinbaseBoundActivationHeight :: int
  nPosStakeModifierV2ActivationHeight :: int
  nPosBlockTimeBoundActivationHeight :: int
  nPosFeeBurnActivationHeight :: int
  nStrictBLSSigSizeActivationHeight :: int
  nComputeNodeActivationHeight :: int
  nDSLActivationHeight :: int
  nDSLEnforcementHeight :: int
  nDSLEpochInterval :: int
  nDSLCommitmentV2Height :: int
  nDSLSuspendEpochs :: int
  nDSLBanEpochs :: int
  nDSLMassOutagePct :: int
  nDSLSentinelCount :: int
  nDSLSentinelAgree :: int
  llmqs :: "LLMQParams list"
  llmqTypeChainLocks :: LLMQType
  llmqTypeChainLocksV2 :: LLMQType
  nChainLocksV2ActivationHeight :: int
  nDkgBadVotesV2ActivationHeight :: int
  nSuperblocksRetiredHeight :: int
  nV231ActivationHeight :: int
  llmqTypeDIP0024InstantSend :: LLMQType
  llmqTypeDIP0024InstantSendV2 :: LLMQType
  nInstantSendV2ActivationHeight :: int
  llmqTypePlatform :: LLMQType
  llmqTypeMnhf :: LLMQType
  llmqFormationEndHeights :: "LLMQType \<Rightarrow> int option"
  nMasternodeMinimumConfirmations :: int
  regularMnCollateral :: CAmount
  regularVoteWeight :: int
  regularPaymentWeight :: int
  evoMnCollateral :: CAmount
  evoVoteWeight :: int
  evoPaymentWeight :: int
  computeMnCollateral :: CAmount
  computeVoteWeight :: int
  computePaymentWeight :: int

fun DeploymentHeight :: "Params \<Rightarrow> BuriedDeployment \<Rightarrow> int" where
  "DeploymentHeight p DEPLOYMENT_HEIGHTINCB = BIP34Height p"
| "DeploymentHeight p DEPLOYMENT_DERSIG = BIP66Height p"
| "DeploymentHeight p DEPLOYMENT_CLTV = BIP65Height p"
| "DeploymentHeight p DEPLOYMENT_BIP147 = BIP147Height p"
| "DeploymentHeight p DEPLOYMENT_CSV = CSVHeight p"
| "DeploymentHeight p DEPLOYMENT_DIP0001 = DIP0001Height p"
| "DeploymentHeight p DEPLOYMENT_DIP0003 = DIP0003Height p"
| "DeploymentHeight p DEPLOYMENT_DIP0008 = DIP0008Height p"
| "DeploymentHeight p DEPLOYMENT_V19 = V19Height p"
| "DeploymentHeight p DEPLOYMENT_V20 = V20Height p"
| "DeploymentHeight p DEPLOYMENT_MN_RR = MN_RRHeight p"

text \<open>The mainnet values that \<^verbatim>\<open>CMainParams\<close> (\<^verbatim>\<open>src/src/chainparams.cpp\<close>) assigns before it applies
  the activation bundles, with the member initialisers of the struct for the rest. A hash
  written most significant byte first in the source is stored least significant byte first.\<close>

definition main_params :: Params where
  "main_params =
     \<lparr>BIP34Height = 1, BIP65Height = 1, BIP66Height = 1, BIP147Height = 1, CSVHeight = 1,
      DIP0001Height = 2, DIP0003Height = 1000, DIP0008Height = 1200,
      V19Height = UNSET, V20Height = UNSET, MN_RRHeight = UNSET,
      powLimit = replicate 31 0xff @ [0x7f], nPowTargetSpacing = 150,
      nForkRecoveryAnchorHeight = 103536,
      hashForkRecoveryAnchor =
        rev [0x7b, 0x9b, 0x76, 0x7a, 0x13, 0xd1, 0x0f, 0x2f, 0xfa, 0x01, 0x2f, 0x8c, 0xa0, 0x5a, 0xa8, 0x0a,
             0xd9, 0xdf, 0x07, 0x19, 0xae, 0x3f, 0x47, 0xcd, 0x66, 0x25, 0x1c, 0x2a, 0x20, 0x44, 0xd8, 0x63],
      nForkRecoveryActivationHeight = 113117,
      posLimit = replicate 28 0xff @ [0x0f, 0, 0, 0], lastPowBlock = 999, posTargetSpacing = 150,
      posTimestampMask = 5,
      stakeValueRange = (10000 * COIN, 12500000 * COIN), stakeAgeRange = (60 * 60, 60 * 60 * 24 * 60),
      nPosKernelV2ActivationHeight = UNSET, nPosCoinbaseBoundActivationHeight = UNSET,
      nPosStakeModifierV2ActivationHeight = UNSET, nPosBlockTimeBoundActivationHeight = UNSET,
      nPosFeeBurnActivationHeight = UNSET, nStrictBLSSigSizeActivationHeight = UNSET,
      nComputeNodeActivationHeight = UNSET,
      nDSLActivationHeight = UNSET, nDSLEnforcementHeight = UNSET, nDSLEpochInterval = 24,
      nDSLCommitmentV2Height = 0, nDSLSuspendEpochs = 4, nDSLBanEpochs = 5, nDSLMassOutagePct = 15,
      nDSLSentinelCount = 7, nDSLSentinelAgree = 5,
      llmqs = [profile_llmq_50_60, profile_llmq_60_75, profile_llmq_400_60, profile_llmq_400_85,
               profile_llmq_100_67, profile_llmq_defcon],
      llmqTypeChainLocks = LLMQ_400_60, llmqTypeChainLocksV2 = LLMQ_NONE,
      nChainLocksV2ActivationHeight = UNSET, nDkgBadVotesV2ActivationHeight = UNSET,
      nSuperblocksRetiredHeight = UNSET, nV231ActivationHeight = UNSET,
      llmqTypeDIP0024InstantSend = LLMQ_60_75, llmqTypeDIP0024InstantSendV2 = LLMQ_NONE,
      nInstantSendV2ActivationHeight = UNSET, llmqTypePlatform = LLMQ_100_67, llmqTypeMnhf = LLMQ_400_85,
      llmqFormationEndHeights = Map.empty,
      nMasternodeMinimumConfirmations = 1,
      regularMnCollateral = 1000000 * COIN, regularVoteWeight = 1, regularPaymentWeight = 1,
      evoMnCollateral = 4000000 * COIN, evoVoteWeight = 4, evoPaymentWeight = 4,
      computeMnCollateral = 4000000 * COIN, computeVoteWeight = 1, computePaymentWeight = 5\<rparr>"

end
