(* ===== verification/Chain_Work.thy ===== *)
theory Chain_Work
  imports Compact_Target Block_Index Consensus_Params
begin

text \<open>
  Chain work and difficulty: \<^verbatim>\<open>GetBlockProof\<close> and \<^verbatim>\<open>GetBlockProofEquivalentTime\<close> of
  \<^verbatim>\<open>src/src/chain.cpp\<close>, the work comparator of \<^verbatim>\<open>src/src/node/blockstorage.cpp\<close>, and the
  linearly weighted moving average and proof-of-work check of \<^verbatim>\<open>src/src/pow.cpp\<close>. The lemmas
  show the work of a staked block is \<open>2 ^ 256 div (target + 1)\<close>, that the comparator is a strict
  total order, and that the difficulty average cannot overflow and stays within the limit.
\<close>

section \<open>Model\<close>

definition GetBlockProof :: "CBlockIndex \<Rightarrow> abort + arith_uint256" where
  "GetBlockProof block =
     (case SetCompact (nBits block) of
        (bnTarget, fNegative, fOverflow) \<Rightarrow>
          if fNegative \<or> fOverflow \<or> EqualTo bnTarget 0 then Inr (arith_of_u64 0)
          else if IsProofOfStake block
          then map_sum id (\<lambda>q. arith_add q (arith_of_u64 1))
                 (arith_div (arith_not bnTarget) (arith_add bnTarget (arith_of_u64 1)))
          else Inr (arith_of_u64 1))"

text \<open>\<^verbatim>\<open>sign * r.GetLow64()\<close> is computed in \<^verbatim>\<open>uint64_t\<close> and converted back to \<^verbatim>\<open>int64_t\<close>.\<close>

definition GetBlockProofEquivalentTime ::
  "CBlockIndex \<Rightarrow> CBlockIndex \<Rightarrow> CBlockIndex \<Rightarrow> Params \<Rightarrow> abort + int" where
  "GetBlockProofEquivalentTime to from tip params =
     (let bigger = CompareTo (nChainWork to) (nChainWork from) > 0;
          sgn = (if bigger then 1 else -1) :: int;
          r = (if bigger then arith_sub (nChainWork to) (nChainWork from)
               else arith_sub (nChainWork from) (nChainWork to))
      in sum_bind (GetBlockProof tip) (\<lambda>proof.
         sum_bind (arith_div (arith_mul r (arith_of_u64 (of_int (nPowTargetSpacing params)))) proof) (\<lambda>r'.
         Inr (if arith_bits r' > 63 then sgn * INT64_MAX
              else sint (of_int sgn * GetLow64 r' :: u64)))))"

text \<open>\<^verbatim>\<open>CBlockIndexWorkComparator\<close>: the order of the chain-tip candidates. \<open>addr\<close> orders addresses.\<close>

definition CBlockIndexWorkComparator ::
  "(ptr \<Rightarrow> nat) \<Rightarrow> ptr \<Rightarrow> CBlockIndex \<Rightarrow> ptr \<Rightarrow> CBlockIndex \<Rightarrow> bool" where
  "CBlockIndexWorkComparator addr pa a pb b =
     (if CompareTo (nChainWork a) (nChainWork b) > 0 then False
      else if CompareTo (nChainWork a) (nChainWork b) < 0 then True
      else if nSequenceId a < nSequenceId b then False
      else if nSequenceId a > nSequenceId b then True
      else if addr pa < addr pb then False
      else if addr pa > addr pb then True
      else False)"

subsection \<open>Difficulty\<close>

fun lwma_loop ::
  "block_store \<Rightarrow> ptr \<Rightarrow> int \<Rightarrow> int \<Rightarrow> int list \<Rightarrow> int \<Rightarrow> int \<Rightarrow> int \<Rightarrow> arith_uint256 \<Rightarrow> abort + (int \<times> arith_uint256)" where
  "lwma_loop st p T kN [] previousTimestamp j t sumTarget = Inr (t, sumTarget)"
| "lwma_loop st p T kN (i # is) previousTimestamp j t sumTarget =
     sum_bind (GetAncestor st p i) (\<lambda>block.
       case Option.bind block st of
         None \<Rightarrow> Inl NullDeref
       | Some b \<Rightarrow>
           let thisTimestamp = (if GetBlockTime b > previousTimestamp then GetBlockTime b else previousTimestamp + 1);
               solvetime = min (6 * T) (thisTimestamp - previousTimestamp);
               target = fst (SetCompact (nBits b))
           in sum_bind (arith_div target (arith_of_u64 (of_int kN))) (\<lambda>q.
                lwma_loop st p T kN is thisTimestamp (j + 1) (t + solvetime * (j + 1)) (arith_add sumTarget q)))"

definition Lwma3CalculateNextWorkRequired :: "block_store \<Rightarrow> ptr \<Rightarrow> Params \<Rightarrow> abort + u32" where
  "Lwma3CalculateNextWorkRequired st pindexLast params =
     (case st pindexLast of
        None \<Rightarrow> Inl NullDeref
      | Some b \<Rightarrow>
          let T = posTargetSpacing params; N = 36; k = cdiv (N * (N + 1) * T) 2;
              height = nHeight b; limit = UintToArith256 (posLimit params)
          in if height < N then GetCompact limit False
             else sum_bind (GetAncestor st pindexLast (height - N)) (\<lambda>before.
               case Option.bind before st of
                 None \<Rightarrow> Inl NullDeref
               | Some b0 \<Rightarrow>
                   sum_bind (lwma_loop st pindexLast T (k * N) [height - N + 1..height] (GetBlockTime b0) 0 0 arith_zero)
                     (\<lambda>(t, sumTarget).
                       let nextTarget = arith_mul (arith_of_u64 (of_int t)) sumTarget
                       in GetCompact (if CompareTo nextTarget limit > 0 then limit else nextTarget) False)))"

definition GetNextWorkRequired :: "block_store \<Rightarrow> ptr option \<Rightarrow> bool \<Rightarrow> Params \<Rightarrow> abort + u32" where
  "GetNextWorkRequired st pindexLast pblock params =
     (case pindexLast of
        None \<Rightarrow> Inl AssertFailed
      | Some p \<Rightarrow>
          if \<not> pblock then Inl AssertFailed
          else case st p of
            None \<Rightarrow> Inl NullDeref
          | Some b \<Rightarrow>
              if nHeight b + 1 \<le> lastPowBlock params then GetCompact (UintToArith256 (powLimit params)) False
              else Lwma3CalculateNextWorkRequired st p params)"

definition CalculateNextWorkRequired :: "ptr \<Rightarrow> int \<Rightarrow> Params \<Rightarrow> u32" where
  "CalculateNextWorkRequired p nFirstBlockTime params = 0"

definition CheckProofOfWork :: "uint256 \<Rightarrow> u32 \<Rightarrow> Params \<Rightarrow> bool" where
  "CheckProofOfWork hash bits params =
     (case SetCompact bits of
        (bnTarget, fNegative, fOverflow) \<Rightarrow>
          if fNegative \<or> EqualTo bnTarget 0 \<or> fOverflow \<or> CompareTo bnTarget (UintToArith256 (powLimit params)) > 0
          then False
          else if CompareTo (UintToArith256 hash) bnTarget > 0 then False
          else True)"

section \<open>Work of a block\<close>

text \<open>A compact word never denotes \<open>2 ^ 256 - 1\<close>, so \<open>target + 1\<close> does not wrap.\<close>

lemma compact_value_plus_one:
  assumes "compact_value c < 2 ^ 256"
  shows "compact_value c + 1 < 2 ^ 256"
proof (cases "compact_size c \<le> 3")
  case True
  have "compact_value c \<le> unat c mod 2 ^ 23" using True by (simp add: compact_value_def Let_def)
  also have "\<dots> < 2 ^ 23" by simp
  finally show ?thesis by simp
next
  case False
  define k where "k = compact_size c - 4"
  have "compact_size c - 3 = Suc k" using False by (simp add: k_def)
  then have "compact_value c = 256 * (unat c mod 2 ^ 23 * 256 ^ k)" using False by (simp add: compact_value_def Let_def)
  moreover have "(2 :: nat) ^ 256 = 256 * 2 ^ 248" by simp
  ultimately show ?thesis using assms by presburger
qed

lemma EqualTo_zero: "arith_wf a \<Longrightarrow> EqualTo a 0 \<longleftrightarrow> limbs_val a = 0"
  by (simp add: EqualTo_val)

definition target_valid :: "u32 \<Rightarrow> bool" where
  "target_valid c \<longleftrightarrow> 0 < compact_value c \<and> compact_value c < 2 ^ 256 \<and> \<not> bit c 23"

lemma SetCompact_valid:
  assumes "SetCompact c = (n, neg, ovf)"
  shows "\<not> (neg \<or> ovf \<or> EqualTo n 0) \<longleftrightarrow> target_valid c" "target_valid c \<Longrightarrow> limbs_val n = compact_value c" "arith_wf n"
proof -
  note s = SetCompact_spec [OF assms]
  show wf: "arith_wf n" by (rule s(1))
  have m: "limbs_val n = compact_value c" if "compact_value c < 2 ^ 256" unfolding s(2) using that by (rule mod_less)
  show "\<not> (neg \<or> ovf \<or> EqualTo n 0) \<longleftrightarrow> target_valid c"
  proof (cases "compact_value c < 2 ^ 256")
    case True
    then show ?thesis using s(3,4) m EqualTo_zero [OF wf] by (auto simp: target_valid_def not_le)
  next
    case False
    then show ?thesis using s(3) by (auto simp: target_valid_def not_less)
  qed
  show "target_valid c \<Longrightarrow> limbs_val n = compact_value c" using m by (simp add: target_valid_def)
qed

lemma GetBlockProof_val:
  "\<exists>w. GetBlockProof b = Inr w \<and> arith_wf w \<and>
    limbs_val w = (if \<not> target_valid (nBits b) then 0
                   else if IsProofOfStake b then 2 ^ 256 div (compact_value (nBits b) + 1) else 1)"
proof -
  obtain n neg ovf where s: "SetCompact (nBits b) = (n, neg, ovf)" by (cases "SetCompact (nBits b)") auto
  note v = SetCompact_valid [OF s]
  show ?thesis
  proof (cases "target_valid (nBits b) \<and> IsProofOfStake b")
    case True
    then have "0 < limbs_val n" "limbs_val n + 1 < 2 ^ 256"
      using v(2) compact_value_plus_one by (auto simp: target_valid_def)
    then obtain q where "arith_div (arith_not n) (arith_add n (arith_of_u64 1)) = Inr q" "arith_wf q"
      "limbs_val (arith_add q (arith_of_u64 1)) = 2 ^ 256 div (limbs_val n + 1)"
      using u256.work_of_target [OF v(3)] by blast
    then show ?thesis using True v(1,2) s by (simp add: GetBlockProof_def del: One_nat_def)
  next
    case False
    then show ?thesis using v(1) s by (auto simp: GetBlockProof_def arith_of_u64_val)
  qed
qed

section \<open>The moving average\<close>

definition ancestor_entry :: "block_store \<Rightarrow> ptr \<Rightarrow> int \<Rightarrow> CBlockIndex" where
  "ancestor_entry st p i = the (Option.bind (projr (GetAncestor st p i)) st)"

definition ancestor_target :: "block_store \<Rightarrow> ptr \<Rightarrow> int \<Rightarrow> nat" where
  "ancestor_target st p i = compact_value (nBits (ancestor_entry st p i))"

definition weights :: "int \<Rightarrow> nat \<Rightarrow> int" where
  "weights j n = (\<Sum>x<n. j + 1 + int x)"

lemma weights_Suc: "weights j (Suc n) = j + 1 + weights (j + 1) n"
proof -
  have "weights j (Suc n) = j + 1 + (\<Sum>x<n. j + 1 + int (Suc x))"
    unfolding weights_def by (subst sum.lessThan_Suc_shift) simp
  also have "(\<Sum>x<n. j + 1 + int (Suc x)) = weights (j + 1) n"
    unfolding weights_def by (intro sum.cong) auto
  finally show ?thesis .
qed

lemma weights_closed: "2 * weights 0 n = int n * (int n + 1)"
  by (induction n) (simp_all add: weights_def algebra_simps)

lemma weights_36: "weights 0 36 = 666"
  using weights_closed [of 36] by simp

lemma arith_div_small:
  assumes "arith_wf a" "0 < k" "k < 2 ^ 64"
  shows "\<exists>q. arith_div a (arith_of_u64 (of_int k)) = Inr q \<and> arith_wf q \<and> limbs_val q = limbs_val a div nat k"
proof -
  have "unat (of_int k :: u64) = nat k"
    using assms(2,3) by (simp add: unat_eq_nat_uint uint_word_of_int)
  then show ?thesis
    using arith_div_val [OF assms(1) arith_wf_of_u64, of "of_int k"] assms(2) by (simp add: arith_of_u64_val)
qed

lemma lwma_loop_spec:
  assumes "\<forall>i\<in>set is. \<exists>q. GetAncestor st p i = Inr (Some q) \<and> st q \<noteq> None"
    and "\<forall>i\<in>set is. ancestor_target st p i < 2 ^ 256"
    and kN: "0 < kN" "kN < 2 ^ 64" and T: "1 \<le> T" and "0 \<le> j" "arith_wf sm"
    and "limbs_val sm + sum_list (map (\<lambda>i. ancestor_target st p i div nat kN) is) < 2 ^ 256"
  shows "\<exists>t' sm'. lwma_loop st p T kN is prev j t sm = Inr (t', sm') \<and>
    t + weights j (length is) \<le> t' \<and> t' \<le> t + 6 * T * weights j (length is) \<and> arith_wf sm' \<and>
    limbs_val sm' = limbs_val sm + sum_list (map (\<lambda>i. ancestor_target st p i div nat kN) is)"
  using assms(1,2,6-)
proof (induction "is" arbitrary: prev j t sm)
  case (Cons i "is")
  obtain q b where b: "GetAncestor st p i = Inr (Some q)" "st q = Some b" using Cons.prems(1) by auto
  then have tgt: "ancestor_target st p i = compact_value (nBits b)" by (simp add: ancestor_target_def ancestor_entry_def)
  obtain n neg ovf where n: "SetCompact (nBits b) = (n, neg, ovf)" by (cases "SetCompact (nBits b)") auto
  have "compact_value (nBits b) < 2 ^ 256" using Cons.prems(2) tgt by simp
  then have nv: "arith_wf n" "limbs_val n = compact_value (nBits b)" using SetCompact_spec [OF n] by auto
  obtain d where d: "arith_div n (arith_of_u64 (of_int kN)) = Inr d" "arith_wf d"
    "limbs_val d = ancestor_target st p i div nat kN"
    using arith_div_small [OF nv(1) kN] nv(2) tgt by auto
  let ?ts = "if GetBlockTime b > prev then GetBlockTime b else prev + 1"
  define sv where "sv = min (6 * T) (?ts - prev)"
  have sv: "1 \<le> sv" "sv \<le> 6 * T" using T by (auto simp: sv_def)
  have sum: "limbs_val (arith_add sm d) = limbs_val sm + limbs_val d"
    using arith_add_val [OF Cons.prems(4) d(2)] Cons.prems(5) d(3) by simp
  have step: "lwma_loop st p T kN (i # is) prev j t sm =
      lwma_loop st p T kN is ?ts (j + 1) (t + sv * (j + 1)) (arith_add sm d)"
    using b n d(1) by (simp add: Let_def sv_def)
  obtain t' sm' where r: "lwma_loop st p T kN is ?ts (j + 1) (t + sv * (j + 1)) (arith_add sm d) = Inr (t', sm')"
    "t + sv * (j + 1) + weights (j + 1) (length is) \<le> t'"
    "t' \<le> t + sv * (j + 1) + 6 * T * weights (j + 1) (length is)" "arith_wf sm'"
    "limbs_val sm' = limbs_val (arith_add sm d) + sum_list (map (\<lambda>i. ancestor_target st p i div nat kN) is)"
    using Cons.IH [of "j + 1" "arith_add sm d" ?ts "t + sv * (j + 1)"] Cons.prems d sum by auto
  have "j + 1 \<le> sv * (j + 1)" "sv * (j + 1) \<le> 6 * T * (j + 1)"
    using sv Cons.prems(3) mult_right_mono [of 1 sv "j + 1"] mult_right_mono [of sv "6 * T" "j + 1"] by auto
  then have "t + weights j (length (i # is)) \<le> t'" "t' \<le> t + 6 * T * weights j (length (i # is))"
    using r(2,3) by (simp_all add: weights_Suc distrib_left)
  then show ?case using r step sum d(3) by simp
qed (simp add: weights_def)

lemma sum_list_div_le:
  fixes f :: "'a \<Rightarrow> nat"
  assumes "\<forall>x\<in>set xs. f x \<le> L"
  shows "sum_list (map (\<lambda>x. f x div k) xs) \<le> length xs * (L div k)"
  using assms by (induction xs) (auto intro: add_mono div_le_mono)

lemma lwma_no_overflow:
  fixes T L :: nat and t :: int
  assumes "t \<le> 3996 * int T" "S \<le> 36 * (L div (23976 * T))" "L < 2 ^ 253"
  shows "nat t * S \<le> 6 * L" "nat t * S < 2 ^ 256"
proof -
  have "nat t * S \<le> 3996 * T * (36 * (L div (23976 * T)))" using assms by (intro mult_le_mono) auto
  also have "\<dots> = 6 * (23976 * T * (L div (23976 * T)))" by simp
  also have "\<dots> \<le> 6 * L" by (intro mult_le_mono2) (rule times_div_less_eq_dividend)
  finally show "nat t * S \<le> 6 * L" .
  also have "6 * L < 2 ^ 256" using assms(3) by simp
  finally show "nat t * S < 2 ^ 256" .
qed

lemma Lwma3_spec:
  assumes wf: "index_wf st" and p: "st p = Some b" and h: "36 \<le> nHeight b"
    and T: "posTargetSpacing params = int T" "1 \<le> T" "T < 2 ^ 32"
    and L: "limbs_val (UintToArith256 (posLimit params)) = L" "L < 2 ^ 253"
    and tg: "\<forall>i\<in>set [nHeight b - 35..nHeight b]. ancestor_target st p i \<le> L"
  defines "S \<equiv> sum_list (map (\<lambda>i. ancestor_target st p i div (23976 * T)) [nHeight b - 35..nHeight b])"
  shows "\<exists>c t. Lwma3CalculateNextWorkRequired st p params = Inr c \<and> \<not> bit c 23 \<and> 666 \<le> t \<and> t \<le> 3996 * int T \<and>
    compact_value c \<le> min L (nat t * S) \<and> (min L (nat t * S) - compact_value c) * 2 ^ 15 \<le> min L (nat t * S)"
proof -
  let ?h = "nHeight b" and ?limit = "UintToArith256 (posLimit params)" and ?is = "[nHeight b - 35..nHeight b]"
  have hb: "map_option nHeight (st p) = Some ?h" using p by simp
  have anc: "\<forall>i\<in>set ?is. \<exists>q. GetAncestor st p i = Inr (Some q) \<and> st q \<noteq> None"
  proof
    fix i assume "i \<in> set ?is"
    then obtain q where "GetAncestor st p i = Inr (Some q)" "map_option nHeight (st q) = Some i"
      using index_ancestor.anc_in_range [OF wf hb, of i] h by auto
    then show "\<exists>q. GetAncestor st p i = Inr (Some q) \<and> st q \<noteq> None" by auto
  qed
  obtain q0 b0 where b0: "GetAncestor st p (?h - 36) = Inr (Some q0)" "st q0 = Some b0"
    using index_ancestor.anc_in_range [OF wf hb, of "?h - 36"] h by auto
  have kN: "0 < 23976 * int T" "23976 * int T < 2 ^ 64" "nat (23976 * int T) = 23976 * T" using T by (auto simp: nat_mult_distrib)
  have len: "length ?is = 36" by simp
  have S: "S \<le> 36 * (L div (23976 * T))" unfolding S_def using sum_list_div_le [OF tg] len by simp
  also have "\<dots> \<le> 36 * L" by (intro mult_le_mono2 div_le_dividend)
  finally have S256: "S < 2 ^ 256" using L(2) lwma_no_overflow(2) [of "1 :: int" T S L] S T(2) by simp
  obtain t sm where r: "lwma_loop st p (int T) (23976 * int T) ?is (GetBlockTime b0) 0 0 arith_zero = Inr (t, sm)"
    "weights 0 36 \<le> t" "t \<le> 6 * int T * weights 0 36" "arith_wf sm" "limbs_val sm = S"
    using lwma_loop_spec [OF anc _ kN(1,2), of "int T" 0 arith_zero "GetBlockTime b0" 0] tg L(2) T(2) S256 kN(3) len
    by (fastforce simp: S_def limbs_val_zero)
  have t: "666 \<le> t" "t \<le> 3996 * int T" using r(2,3) by (simp_all add: weights_36)
  note no = lwma_no_overflow [OF t(2) S L(2)]
  have "t < 2 ^ 64" using t(2) T(3) by simp
  then have tv: "unat (of_int t :: u64) = nat t" using t(1) by (simp add: unat_eq_nat_uint uint_word_of_int)
  let ?n = "arith_mul (arith_of_u64 (of_int t)) sm"
  have n: "arith_wf ?n" "limbs_val ?n = nat t * S"
    using no(2) r(4,5) tv by (simp_all add: arith_mul_val arith_of_u64_val)
  define m where "m = (if CompareTo ?n ?limit > 0 then ?limit else ?n)"
  have m: "arith_wf m" "limbs_val m = min L (nat t * S)"
    using n L(1) CompareTo_gt [OF n(1) UintToArith256_wf] by (auto simp: m_def min_def)
  have k: "cdiv (36 * (36 + 1) * int T) 2 * 36 = 23976 * int T" by simp
  have "Lwma3CalculateNextWorkRequired st p params = GetCompact m False"
    using p h b0 r(1) T(1) k by (simp add: Lwma3CalculateNextWorkRequired_def Let_def m_def)
  moreover obtain c where "GetCompact m False = Inr c" "\<not> bit c 23" "compact_value c \<le> limbs_val m"
    "(limbs_val m - compact_value c) * 2 ^ 15 \<le> limbs_val m"
    using GetCompact_value [OF m(1)] by (metis div_times_less_eq_dividend)
  ultimately show ?thesis using m(2) t by metis
qed

section \<open>Equivalent time\<close>

lemma sint_signed_low64:
  assumes "unat (w :: u64) < 2 ^ 63" "s = 1 \<or> s = -1"
  shows "sint (of_int s * w) = s * int (unat w)"
proof -
  define u where "u = int (unat w)"
  have u: "0 \<le> u" "u < 2 ^ 63" using assms(1) unfolding u_def
    using of_nat_less_iff [of "unat w" "2 ^ 63", where 'a = int] by (simp_all only: of_nat_0_le_iff of_nat_power of_nat_numeral)
  have "of_int s * w = word_of_int (s * u)" using assms(2) by (auto simp: u_def)
  then have "sint (of_int s * w) = signed_take_bit 63 (s * u)" by (simp only: sint_sbintrunc') simp
  also have "\<dots> = s * u" using u assms(2) by (intro signed_take_bit_int_eq_self) auto
  finally show ?thesis by (simp only: u_def)
qed

lemma GetBlockProofEquivalentTime_val:
  assumes wf: "arith_wf (nChainWork to)" "arith_wf (nChainWork from)" and tip: "target_valid (nBits tip)"
    and sp: "nPowTargetSpacing params = int k" "k < 2 ^ 63"
    and w: "GetBlockProof tip = Inr w"
  defines "d \<equiv> (if limbs_val (nChainWork from) < limbs_val (nChainWork to)
                  then limbs_val (nChainWork to) - limbs_val (nChainWork from)
                  else limbs_val (nChainWork from) - limbs_val (nChainWork to))"
    and "s \<equiv> (if limbs_val (nChainWork from) < limbs_val (nChainWork to) then 1 else -1 :: int)"
  assumes fits: "d * k < 2 ^ 256"
  shows "GetBlockProofEquivalentTime to from tip params =
    Inr (s * (if d * k div limbs_val w < 2 ^ 63 then int (d * k div limbs_val w) else INT64_MAX))"
proof -
  have wv: "arith_wf w" "limbs_val w \<noteq> 0"
  proof -
    obtain w' where "GetBlockProof tip = Inr w'" "arith_wf w'"
      "limbs_val w' = (if IsProofOfStake tip then 2 ^ 256 div (compact_value (nBits tip) + 1) else 1)"
      using GetBlockProof_val [of tip] tip by auto
    moreover have "0 < (2 :: nat) ^ 256 div (compact_value (nBits tip) + 1)"
      using compact_value_plus_one tip by (simp add: div_greater_zero_iff target_valid_def less_imp_le)
    ultimately show "arith_wf w" "limbs_val w \<noteq> 0" using w by auto
  qed
  let ?r = "if CompareTo (nChainWork to) (nChainWork from) > 0 then arith_sub (nChainWork to) (nChainWork from)
            else arith_sub (nChainWork from) (nChainWork to)"
  have r: "arith_wf ?r" "limbs_val ?r = d" using wf by (auto simp: d_def CompareTo_gt arith_sub_val_le)
  have "unat (of_int (int k) :: u64) = k" using sp(2) by (simp add: unat_of_nat)
  then have kv: "limbs_val (arith_of_u64 (of_int (int k))) = k" by (simp add: arith_of_u64_val)
  obtain q where q: "arith_div (arith_mul ?r (arith_of_u64 (of_int (int k)))) w = Inr q" "arith_wf q"
    "limbs_val q = d * k div limbs_val w"
    using u256.scaled_quotient [OF r(1) arith_wf_of_u64 [of "of_int (int k)"] wv(1), unfolded r(2) kv, OF fits wv(2)] by blast
  have bits: "63 < arith_bits q \<longleftrightarrow> \<not> limbs_val q < 2 ^ 63"
  proof
    assume "63 < arith_bits q"
    then have "limbs_val q \<noteq> 0" using arith_bits_0 [OF q(2)] by auto
    then have "2 ^ (arith_bits q - 1) \<le> limbs_val q" using arith_bits_lower [OF q(2)] by simp
    moreover have "(2 :: nat) ^ 63 \<le> 2 ^ (arith_bits q - 1)" using \<open>63 < arith_bits q\<close> by (intro power_increasing) auto
    ultimately show "\<not> limbs_val q < 2 ^ 63" by linarith
  next
    assume big: "\<not> limbs_val q < 2 ^ 63"
    show "63 < arith_bits q"
    proof (rule ccontr)
      assume "\<not> 63 < arith_bits q"
      then have "(2 :: nat) ^ arith_bits q \<le> 2 ^ 63" by (intro power_increasing) auto
      then show False using arith_bits_upper [OF q(2)] big by linarith
    qed
  qed
  have low: "unat (GetLow64 q) = limbs_val q" if "limbs_val q < 2 ^ 63"
    using that GetLow64_val [OF q(2)] by simp
  have s: "s = (if CompareTo (nChainWork to) (nChainWork from) > 0 then 1 else -1)"
    using wf by (simp add: s_def CompareTo_gt)
  have signed: "sint (GetLow64 q) = int (d * k div limbs_val w) \<and> sint (- GetLow64 q) = - int (d * k div limbs_val w)"
    if "limbs_val q < 2 ^ 63"
    using sint_signed_low64 [of "GetLow64 q" 1] sint_signed_low64 [of "GetLow64 q" "-1"] low [OF that] that q(3)
    by (simp del: of_nat_unat uint_nat)
  show ?thesis
    using q w bits signed sp(1)
    by (auto simp: GetBlockProofEquivalentTime_def Let_def s split: if_splits)
qed

section \<open>The order of chain tips\<close>

lemma work_comparator_total:
  assumes "arith_wf (nChainWork a)" "arith_wf (nChainWork b)" "addr pa \<noteq> addr pb"
  shows "CBlockIndexWorkComparator addr pa a pb b \<longleftrightarrow> \<not> CBlockIndexWorkComparator addr pb b pa a"
  using assms by (auto simp: CBlockIndexWorkComparator_def CompareTo_val)

lemma work_comparator_trans:
  assumes "arith_wf (nChainWork a)" "arith_wf (nChainWork b)" "arith_wf (nChainWork c)"
    "CBlockIndexWorkComparator addr pa a pb b" "CBlockIndexWorkComparator addr pb b pc c"
  shows "CBlockIndexWorkComparator addr pa a pc c"
  using assms by (auto simp: CBlockIndexWorkComparator_def CompareTo_val split: if_splits)

section \<open>An example chain of 37 blocks\<close>

definition line_entry :: "nat \<Rightarrow> CBlockIndex" where
  "line_entry i = CBlockIndex_default\<lparr>pprev := (if i = 0 then None else Some [of_nat (i - 1)]), nHeight := int i,
     nTime := of_nat (150 * i), nBits := 0x1d00ffff\<rparr>"

definition line_index :: block_store where
  "line_index p = (case p of [w] \<Rightarrow> if unat w \<le> 36 then Some (line_entry (unat w)) else None | _ \<Rightarrow> None)"

lemma line_entry_simps [simp]:
  "pprev (line_entry i) = (if i = 0 then None else Some [of_nat (i - 1)])" "pskip (line_entry i) = None"
  "nHeight (line_entry i) = int i" "nBits (line_entry i) = 0x1d00ffff"
  by (simp_all add: line_entry_def CBlockIndex_default_def)

lemma line_index_at: "i \<le> 36 \<Longrightarrow> line_index [of_nat i] = Some (line_entry i)"
  by (simp add: line_index_def unat_of_nat)

lemma line_index_dom: "line_index p = Some b \<Longrightarrow> \<exists>i\<le>36. p = [of_nat i] \<and> b = line_entry i"
  unfolding line_index_def by (auto split: list.splits if_splits intro!: exI [of _ "unat (hd p)"])

lemma line_index_wf: "index_wf line_index"
  unfolding index_wf_def
proof (intro allI impI)
  fix p b assume "line_index p = Some b"
  then obtain i where "i \<le> 36" "p = [of_nat i]" "b = line_entry i" using line_index_dom by blast
  then show "0 \<le> nHeight b \<and>
     (case pprev b of None \<Rightarrow> nHeight b = 0 | Some q \<Rightarrow> \<exists>c. line_index q = Some c \<and> nHeight b = nHeight c + 1) \<and>
     (\<forall>s. pskip b = Some s \<longrightarrow> nth_prev line_index (nat (nHeight b - GetSkipHeight (nHeight b))) p = Some s)"
    using line_index_at [of "i - 1"] by auto
qed

lemma line_index_tip: "line_index [36] = Some (line_entry 36)"
  using line_index_at [of 36] by simp

lemma line_index_bits: "line_index p = Some b \<Longrightarrow> nBits b = 0x1d00ffff"
  using line_index_dom by fastforce

lemma main_posLimit_val: "limbs_val (UintToArith256 (posLimit main_params)) = 2 ^ 228 - 1"
  by (simp add: UintToArith256_def ReadLE32_def main_params_def WIDTH_def upt_rec replicate_eval)

section \<open>Properties\<close>

text \<open>\<^bold>\<open>C37\<close>: the work \<^verbatim>\<open>GetBlockProof\<close> credits a block. It never throws; a staked block with a valid
  compact target \<open>t\<close> is worth \<open>2 ^ 256 div (t + 1)\<close>, computed without a 257-bit intermediate, a
  mined block with a valid target is worth one, and a block whose target is negative, zero or
  overflowing is worth nothing.\<close>

theorem GetBlockProof_work:
  "\<exists>w. GetBlockProof b = Inr w \<and> arith_wf w \<and>
    limbs_val w = (if \<not> target_valid (nBits b) then 0
                   else if IsProofOfStake b then 2 ^ 256 div (compact_value (nBits b) + 1) else 1)"
  by (rule GetBlockProof_val)



text \<open>\<^bold>\<open>C16\<close>: \<^verbatim>\<open>CheckProofOfWork\<close> accepts a block hash exactly when the compact target denotes a
  positive number without sign or overflow that does not exceed the proof-of-work limit, and the
  hash, read as a little-endian number, does not exceed that number.\<close>

theorem CheckProofOfWork_iff:
  "CheckProofOfWork hash bits params \<longleftrightarrow>
   target_valid bits \<and> compact_value bits \<le> limbs_val (UintToArith256 (powLimit params)) \<and>
   limbs_val (UintToArith256 hash) \<le> compact_value bits"
proof -
  obtain n neg ovf where s: "SetCompact bits = (n, neg, ovf)" by (cases "SetCompact bits") auto
  note v = SetCompact_valid [OF s]
  show ?thesis
    using s v by (auto simp: CheckProofOfWork_def CompareTo_gt)
qed

end
