(* ===== verification/Chain_View.thy ===== *)
theory Chain_View
  imports Block_Index
begin

text \<open>
  The active chain: \<^verbatim>\<open>CChain\<close> of \<^verbatim>\<open>src/src/chain.h\<close> and \<^verbatim>\<open>src/src/chain.cpp\<close>, a vector of entries
  indexed by height, with the locator, fork and time queries on it. \<^verbatim>\<open>SetTip\<close> stops as soon as it
  meets an entry the vector already holds; the lemmas show that on a vector that is a chain this
  gives the whole ancestry of the new tip. Loops that follow \<^verbatim>\<open>pprev\<close> of an arbitrary store are
  partial functions (\<open>None\<close> is not returning); on well-formed stores they are shown to return.
\<close>

section \<open>Model\<close>

type_synonym vchain = "ptr option list"

definition vector_resize :: "vchain \<Rightarrow> nat \<Rightarrow> vchain" where
  "vector_resize v n = take n v @ replicate (n - length v) None"

definition Genesis :: "vchain \<Rightarrow> ptr option" where
  "Genesis v = (if length v > 0 then v ! 0 else None)"

definition Tip :: "vchain \<Rightarrow> ptr option" where
  "Tip v = (if length v > 0 then v ! (length v - 1) else None)"

definition chain_at :: "vchain \<Rightarrow> int \<Rightarrow> ptr option" where
  "chain_at v h = (if h < 0 \<or> h \<ge> int (length v) then None else v ! nat h)"

definition Contains :: "block_store \<Rightarrow> vchain \<Rightarrow> ptr \<Rightarrow> abort + bool" where
  "Contains st v p =
     (case st p of None \<Rightarrow> Inl NullDeref | Some b \<Rightarrow> Inr (chain_at v (nHeight b) = Some p))"

definition Next :: "block_store \<Rightarrow> vchain \<Rightarrow> ptr \<Rightarrow> abort + ptr option" where
  "Next st v p =
     (case st p of
        None \<Rightarrow> Inl NullDeref
      | Some b \<Rightarrow> Inr (if chain_at v (nHeight b) = Some p then chain_at v (nHeight b + 1) else None))"

definition Height :: "vchain \<Rightarrow> int" where
  "Height v = int (length v) - 1"

partial_function (option) set_tip_loop :: "block_store \<Rightarrow> vchain \<Rightarrow> ptr option \<Rightarrow> (abort + vchain) option" where
  "set_tip_loop st v pindex =
     (case pindex of
        None \<Rightarrow> Some (Inr v)
      | Some p \<Rightarrow>
          (case st p of
             None \<Rightarrow> Some (Inl NullDeref)
           | Some b \<Rightarrow>
               if nHeight b < 0 \<or> nHeight b \<ge> int (length v) then Some (Inl OutOfBounds)
               else if v ! nat (nHeight b) = Some p then Some (Inr v)
               else set_tip_loop st (v[nat (nHeight b) := Some p]) (pprev b)))"

definition SetTip :: "block_store \<Rightarrow> vchain \<Rightarrow> ptr option \<Rightarrow> (abort + vchain) option" where
  "SetTip st v pindex =
     (case pindex of
        None \<Rightarrow> Some (Inr [])
      | Some p \<Rightarrow>
          (case st p of
             None \<Rightarrow> Some (Inl NullDeref)
           | Some b \<Rightarrow> set_tip_loop st (vector_resize v (nat (nHeight b + 1))) pindex))"

partial_function (option) find_fork_loop :: "block_store \<Rightarrow> vchain \<Rightarrow> ptr option \<Rightarrow> (abort + ptr option) option" where
  "find_fork_loop st v pindex =
     (case pindex of
        None \<Rightarrow> Some (Inr None)
      | Some p \<Rightarrow>
          (case st p of
             None \<Rightarrow> Some (Inl NullDeref)
           | Some b \<Rightarrow>
               if chain_at v (nHeight b) = Some p then Some (Inr (Some p))
               else find_fork_loop st v (pprev b)))"

definition FindFork :: "block_store \<Rightarrow> vchain \<Rightarrow> ptr option \<Rightarrow> (abort + ptr option) option" where
  "FindFork st v pindex =
     (case pindex of
        None \<Rightarrow> Some (Inr None)
      | Some p \<Rightarrow>
          (case st p of
             None \<Rightarrow> Some (Inl NullDeref)
           | Some b \<Rightarrow>
               (case (if nHeight b > Height v then GetAncestor st p (Height v) else Inr (Some p)) of
                  Inl e \<Rightarrow> Some (Inl e)
                | Inr q \<Rightarrow> find_fork_loop st v q)))"

partial_function (option) locator_loop ::
  "block_store \<Rightarrow> int \<Rightarrow> uint256 list \<Rightarrow> ptr option \<Rightarrow> (abort + uint256 list) option" where
  "locator_loop st step have index =
     (case index of
        None \<Rightarrow> Some (Inr have)
      | Some p \<Rightarrow>
          (case st p of
             None \<Rightarrow> Some (Inl NullDeref)
           | Some b \<Rightarrow>
               (case phashBlock b of
                  None \<Rightarrow> Some (Inl AssertFailed)
                | Some h \<Rightarrow>
                    if nHeight b = 0 then Some (Inr (have @ [h]))
                    else (case GetAncestor st p (max (nHeight b - step) 0) of
                            Inl e \<Rightarrow> Some (Inl e)
                          | Inr q \<Rightarrow>
                              locator_loop st (if length (have @ [h]) > 10 then step * 2 else step) (have @ [h]) q))))"

definition LocatorEntries :: "block_store \<Rightarrow> ptr option \<Rightarrow> (abort + uint256 list) option" where
  "LocatorEntries st index = locator_loop st 1 [] index"

text \<open>\<^verbatim>\<open>std::lower_bound\<close>: halving of the range \<open>[first, first + len)\<close> by the comparison \<open>lt\<close>.\<close>

fun lower_bound :: "(nat \<Rightarrow> abort + bool) \<Rightarrow> nat \<Rightarrow> nat \<Rightarrow> abort + nat" where
  "lower_bound lt first len =
     (if len = 0 then Inr first
      else let half = len div 2; mid = first + half
           in case lt mid of
                Inl e \<Rightarrow> Inl e
              | Inr True \<Rightarrow> lower_bound lt (mid + 1) (len - half - 1)
              | Inr False \<Rightarrow> lower_bound lt first half)"

declare lower_bound.simps [simp del]

definition earliest_less :: "block_store \<Rightarrow> vchain \<Rightarrow> int \<Rightarrow> int \<Rightarrow> nat \<Rightarrow> abort + bool" where
  "earliest_less st v t height i =
     (case Option.bind (v ! i) st of
        None \<Rightarrow> Inl NullDeref
      | Some b \<Rightarrow> Inr (GetBlockTimeMax b < t \<or> nHeight b < height))"

definition FindEarliestAtLeast :: "block_store \<Rightarrow> vchain \<Rightarrow> int \<Rightarrow> int \<Rightarrow> abort + ptr option" where
  "FindEarliestAtLeast st v t height =
     map_sum id (\<lambda>lower. if lower = length v then None else v ! lower)
       (lower_bound (earliest_less st v t height) 0 (length v))"

text \<open>\<^verbatim>\<open>GetMedianTimePast\<close>: the times of up to \<open>n\<close> entries back, sorted, the middle one.\<close>

fun past_times :: "block_store \<Rightarrow> nat \<Rightarrow> ptr option \<Rightarrow> abort + int list" where
  "past_times st 0 pindex = Inr []"
| "past_times st (Suc n) None = Inr []"
| "past_times st (Suc n) (Some p) =
     (case st p of
        None \<Rightarrow> Inl NullDeref
      | Some b \<Rightarrow> map_sum id (\<lambda>ts. GetBlockTime b # ts) (past_times st n (pprev b)))"

definition nMedianTimeSpan :: nat where
  "nMedianTimeSpan = 11"

definition GetMedianTimePast :: "block_store \<Rightarrow> ptr \<Rightarrow> abort + int" where
  "GetMedianTimePast st p =
     map_sum id (\<lambda>ts. sort ts ! (length ts div 2)) (past_times st nMedianTimeSpan (Some p))"

section \<open>Chains of ancestors\<close>

text \<open>The vector that holds the whole ancestry of an entry, by height.\<close>

definition chain_to :: "block_store \<Rightarrow> ptr \<Rightarrow> nat \<Rightarrow> vchain" where
  "chain_to st p h = map (\<lambda>i. nth_prev st (h - i) p) [0..<Suc h]"

definition chain_wf :: "block_store \<Rightarrow> vchain \<Rightarrow> bool" where
  "chain_wf st v \<longleftrightarrow> v = [] \<or> (\<exists>p b. st p = Some b \<and> v = chain_to st p (nat (nHeight b)))"

lemma length_chain_to [simp]: "length (chain_to st p h) = Suc h"
  by (simp add: chain_to_def)

lemma chain_to_nth [simp]: "i \<le> h \<Longrightarrow> chain_to st p h ! i = nth_prev st (h - i) p"
  by (simp add: chain_to_def del: upt_Suc)

text \<open>A vector is closed up to height \<open>h\<close> when every entry it holds there is followed downwards by
  its own ancestry.\<close>

definition closed_below :: "block_store \<Rightarrow> vchain \<Rightarrow> nat \<Rightarrow> bool" where
  "closed_below st v h \<longleftrightarrow> (\<forall>i\<le>h. \<forall>q. v ! i = Some q \<longrightarrow> (\<forall>j\<le>i. v ! j = nth_prev st (i - j) q))"

lemma closed_below_resize:
  assumes "chain_wf st v"
  shows "closed_below st (vector_resize v (Suc h)) h"
proof (cases "v = []")
  case True
  then show ?thesis by (simp add: closed_below_def vector_resize_def nth_Cons')
next
  case False
  then obtain p b where b: "st p = Some b" "v = chain_to st p (nat (nHeight b))" using assms by (auto simp: chain_wf_def)
  define H where "H = nat (nHeight b)"
  have nth: "vector_resize v (Suc h) ! i = (if i \<le> H then nth_prev st (H - i) p else None)" if "i \<le> h" for i
    using that b by (auto simp: vector_resize_def nth_append H_def min_def)
  have step: "nth_prev st (H - j) p = nth_prev st (i - j) q" if "j \<le> i" "i \<le> H" "nth_prev st (H - i) p = Some q" for i j q
  proof -
    have "H - j = (H - i) + (i - j)" using that by simp
    then show ?thesis using that(3) by (simp only: nth_prev_add) simp
  qed
  show ?thesis
    unfolding closed_below_def
  proof (intro allI impI)
    fix i q j assume "i \<le> h" "vector_resize v (Suc h) ! i = Some q" "j \<le> i"
    then show "vector_resize v (Suc h) ! j = nth_prev st (i - j) q"
      using nth [of i] nth [of j] step [of j i q] by (simp split: if_splits)
  qed
qed

lemma set_tip_loop_spec:
  assumes wf: "index_wf st"
  shows "st p = Some b \<Longrightarrow> nHeight b = int h \<Longrightarrow> h < length v \<Longrightarrow> closed_below st v h \<Longrightarrow>
    \<exists>v'. set_tip_loop st v (Some p) = Some (Inr v') \<and> length v' = length v \<and>
      (\<forall>i\<le>h. v' ! i = nth_prev st (h - i) p) \<and> (\<forall>i>h. v' ! i = v ! i)"
proof (induction h arbitrary: p b v)
  case 0
  then have "pprev b = None" using index_wf_root [OF wf] by auto
  then show ?case using 0 by (subst set_tip_loop.simps) (auto simp: set_tip_loop.simps [of st _ None])
next
  case (Suc h)
  show ?case
  proof (cases "v ! Suc h = Some p")
    case True
    then have "\<forall>i\<le>Suc h. v ! i = nth_prev st (Suc h - i) p" using Suc.prems(4) unfolding closed_below_def by blast
    then show ?thesis using Suc.prems True by (subst set_tip_loop.simps) (auto simp: nat_add_distrib)
  next
    case False
    obtain q where q: "pprev b = Some q" using index_wf_root [OF wf Suc.prems(1)] Suc.prems by fastforce
    then obtain c where c: "st q = Some c" "nHeight c = int h"
      using index_wf_prev [OF wf Suc.prems(1)] Suc.prems by auto
    let ?v = "v[Suc h := Some p]"
    have "closed_below st ?v h" using Suc.prems(4) by (auto simp: closed_below_def)
    then obtain v' where v': "set_tip_loop st ?v (Some q) = Some (Inr v')" "length v' = length v"
      "\<forall>i\<le>h. v' ! i = nth_prev st (h - i) q" "\<forall>i>h. v' ! i = ?v ! i"
      using Suc.IH [OF c, of ?v] Suc.prems by auto
    have "set_tip_loop st v (Some p) = Some (Inr v')"
      using v'(1) Suc.prems False q by (subst set_tip_loop.simps) (auto simp: nat_add_distrib)
    moreover have "v' ! i = nth_prev st (Suc h - i) p" if "i \<le> Suc h" for i
    proof (cases "i = Suc h")
      case True
      then show ?thesis using v'(4) Suc.prems by auto
    next
      case False
      then show ?thesis using v'(3) that Suc.prems(1) q by (simp add: Suc_diff_le)
    qed
    ultimately show ?thesis using v' by auto
  qed
qed

lemma SetTip_chain_to:
  assumes wf: "index_wf st" and p: "st p = Some b" and v: "chain_wf st v"
  shows "SetTip st v (Some p) = Some (Inr (chain_to st p (nat (nHeight b))))"
proof -
  obtain h where h: "nHeight b = int h" using index_wf_height [OF wf p] nonneg_int_cases by blast
  let ?v = "vector_resize v (Suc h)"
  have len: "length ?v = Suc h" by (auto simp: vector_resize_def)
  obtain v' where v': "set_tip_loop st ?v (Some p) = Some (Inr v')" "length v' = Suc h"
    "\<forall>i\<le>h. v' ! i = nth_prev st (h - i) p"
    using set_tip_loop_spec [OF wf p h _ closed_below_resize [OF v]] len by auto
  have "v' = chain_to st p h" using v' by (intro nth_equalityI) auto
  moreover have "nat (nHeight b + 1) = Suc h" using h by simp
  ultimately show ?thesis using v'(1) p h by (simp add: SetTip_def)
qed

subsection \<open>Membership and forks\<close>

lemma chain_at_chain_to:
  "chain_at (chain_to st t H) h = (if 0 \<le> h \<and> h \<le> int H then nth_prev st (H - nat h) t else None)"
  by (auto simp: chain_at_def nat_le_iff)

lemma chain_at_is_ancestor:
  assumes wf: "index_wf st" and t: "st t = Some bt" and p: "st p = Some b"
  shows "chain_at (chain_to st t (nat (nHeight bt))) (nHeight b) = Some p \<longleftrightarrow> is_ancestor st p t"
proof
  assume "chain_at (chain_to st t (nat (nHeight bt))) (nHeight b) = Some p"
  then show "is_ancestor st p t" by (auto simp: chain_at_chain_to is_ancestor_def split: if_splits intro: exI [of _ 0])
next
  assume "is_ancestor st p t"
  then obtain n where n: "nth_prev st n t = Some p" by (auto simp: is_ancestor_def)
  obtain c where "st p = Some c" "nHeight c = nHeight bt - int n" "int n \<le> nHeight bt"
    by (rule nth_prev_at_height [OF wf t n])
  then have "nHeight b = nHeight bt - int n" "int n \<le> nHeight bt" using p by auto
  moreover from this have "nat (nHeight bt) - nat (nHeight b) = n" by linarith
  ultimately show "chain_at (chain_to st t (nat (nHeight bt))) (nHeight b) = Some p"
    using n index_wf_height [OF wf p] by (simp add: chain_at_chain_to)
qed

lemma is_ancestor_unfold:
  assumes "st p = Some b"
  shows "is_ancestor st a p \<longleftrightarrow> a = p \<or> (\<exists>q. pprev b = Some q \<and> is_ancestor st a q)"
proof
  assume "is_ancestor st a p"
  then obtain n where "nth_prev st n p = Some a" by (auto simp: is_ancestor_def)
  then show "a = p \<or> (\<exists>q. pprev b = Some q \<and> is_ancestor st a q)"
    using assms by (cases n) (auto simp: is_ancestor_def bind_eq_Some_conv)
next
  assume "a = p \<or> (\<exists>q. pprev b = Some q \<and> is_ancestor st a q)"
  moreover have "is_ancestor st q p" if "pprev b = Some q" for q
    unfolding is_ancestor_def using assms that by (intro exI [of _ 1]) simp
  ultimately show "is_ancestor st a p" using is_ancestor_trans by auto
qed

text \<open>What a fork query promises: the greatest common ancestor, or none when there is none.\<close>

definition fork_result :: "block_store \<Rightarrow> ptr \<Rightarrow> ptr \<Rightarrow> ptr option \<Rightarrow> bool" where
  "fork_result st t p r \<longleftrightarrow>
     (case r of
        None \<Rightarrow> \<forall>a. \<not> (is_ancestor st a p \<and> is_ancestor st a t)
      | Some q \<Rightarrow> (is_ancestor st q p \<and> is_ancestor st q t) \<and>
          (\<forall>a. is_ancestor st a p \<and> is_ancestor st a t \<longrightarrow> is_ancestor st a q))"

lemma find_fork_loop_spec:
  assumes wf: "index_wf st" and t: "st t = Some bt"
  defines "v \<equiv> chain_to st t (nat (nHeight bt))"
  shows "st p = Some b \<Longrightarrow> nHeight b = int h \<Longrightarrow>
    \<exists>r. find_fork_loop st v (Some p) = Some (Inr r) \<and> fork_result st t p r"
proof (induction h arbitrary: p b)
  case 0
  note c = chain_at_is_ancestor [OF wf t 0(1), folded v_def]
  have "pprev b = None" using index_wf_root [OF wf 0(1)] 0(2) by simp
  then show ?case
    using 0(1) c by (subst find_fork_loop.simps)
      (auto simp: find_fork_loop.simps [of st v None] fork_result_def is_ancestor_unfold [of st p b, OF 0(1)])
next
  case (Suc h)
  note c = chain_at_is_ancestor [OF wf t Suc.prems(1), folded v_def]
  show ?case
  proof (cases "is_ancestor st p t")
    case True
    then show ?thesis using c Suc.prems(1) by (subst find_fork_loop.simps) (auto simp: fork_result_def)
  next
    case False
    obtain q where q: "pprev b = Some q" using index_wf_root [OF wf Suc.prems(1)] Suc.prems by fastforce
    then obtain d where d: "st q = Some d" "nHeight d = int h"
      using index_wf_prev [OF wf Suc.prems(1)] Suc.prems by auto
    obtain r where r: "find_fork_loop st v (Some q) = Some (Inr r)" "fork_result st t q r"
      using Suc.IH [OF d] by auto
    have "fork_result st t p r"
      using r(2) False q unfolding fork_result_def is_ancestor_unfold [of st p b, OF Suc.prems(1)]
      by (cases r) auto
    moreover have "find_fork_loop st v (Some p) = Some (Inr r)"
      using r(1) False q c Suc.prems(1) by (subst find_fork_loop.simps) simp
    ultimately show ?thesis by blast
  qed
qed

lemma FindFork_spec:
  assumes wf: "index_wf st" and t: "st t = Some bt" and p: "st p = Some b"
  shows "\<exists>r. FindFork st (chain_to st t (nat (nHeight bt))) (Some p) = Some (Inr r) \<and> fork_result st t p r"
proof -
  let ?v = "chain_to st t (nat (nHeight bt))"
  have H: "Height ?v = nHeight bt" using index_wf_height [OF wf t] by (simp add: Height_def)
  show ?thesis
  proof (cases "nHeight b > nHeight bt")
    case False
    obtain h where "nHeight b = int h" using index_wf_height [OF wf p] nonneg_int_cases by blast
    from find_fork_loop_spec [OF wf t p this] show ?thesis using False p H by (simp add: FindFork_def)
  next
    case True
    obtain p' b' where p': "GetAncestor st p (nHeight bt) = Inr (Some p')" "st p' = Some b'" "nHeight b' = nHeight bt"
      "is_ancestor st p' p"
      "\<forall>r c. is_ancestor st r p \<longrightarrow> st r = Some c \<longrightarrow> nHeight c \<le> nHeight bt \<longrightarrow> is_ancestor st r p'"
      by (rule level_ancestor [OF wf p, of "nHeight bt"]) (use True index_wf_height [OF wf t] in auto)
    obtain h where "nHeight b' = int h" using index_wf_height [OF wf p'(2)] nonneg_int_cases by blast
    from find_fork_loop_spec [OF wf t p'(2) this]
    obtain r where r: "find_fork_loop st ?v (Some p') = Some (Inr r)" "fork_result st t p' r" by blast
    have "is_ancestor st a p \<and> is_ancestor st a t \<longleftrightarrow> is_ancestor st a p' \<and> is_ancestor st a t" for a
      using p'(4,5) is_ancestor_trans is_ancestor_height [OF wf t] by metis
    then have "fork_result st t p r" using r(2) unfolding fork_result_def by (simp only:)
    then show ?thesis using True p H p'(1) r(1) by (simp add: FindFork_def)
  qed
qed

subsection \<open>Locators\<close>

text \<open>Every entry's \<^verbatim>\<open>phashBlock\<close> points at the key of its map node.\<close>

definition hashes_set :: "block_store \<Rightarrow> bool" where
  "hashes_set st \<longleftrightarrow> (\<forall>p b. st p = Some b \<longrightarrow> phashBlock b = Some p)"

definition height_of :: "block_store \<Rightarrow> ptr \<Rightarrow> int" where
  "height_of st p = (case st p of None \<Rightarrow> -1 | Some b \<Rightarrow> nHeight b)"

text \<open>One round: at height zero the loop ends with this entry, otherwise it continues at the
  ancestor \<open>step\<close> below.\<close>

lemma locator_loop_round:
  assumes wf: "index_wf st" and hs: "hashes_set st" and p: "st p = Some b" and "0 < step"
  shows "nHeight b = 0 \<Longrightarrow> locator_loop st step hv (Some p) = Some (Inr (hv @ [p]))"
    and "0 < nHeight b \<Longrightarrow> \<exists>q c. st q = Some c \<and> nHeight c = max (nHeight b - step) 0 \<and> is_ancestor st q p \<and>
      locator_loop st step hv (Some p) = locator_loop st (if 10 \<le> length hv then step * 2 else step) (hv @ [p]) (Some q)"
proof -
  have h: "phashBlock b = Some p" using hs p by (simp add: hashes_set_def)
  show "nHeight b = 0 \<Longrightarrow> locator_loop st step hv (Some p) = Some (Inr (hv @ [p]))"
    using p h by (subst locator_loop.simps) simp
  assume pos: "0 < nHeight b"
  obtain q c where "GetAncestor st p (max (nHeight b - step) 0) = Inr (Some q)"
    "st q = Some c" "nHeight c = max (nHeight b - step) 0" "is_ancestor st q p"
    by (rule level_ancestor [OF wf p, of "max (nHeight b - step) 0"]) (use pos assms(4) in auto)
  then show "\<exists>q c. st q = Some c \<and> nHeight c = max (nHeight b - step) 0 \<and> is_ancestor st q p \<and>
      locator_loop st step hv (Some p) = locator_loop st (if 10 \<le> length hv then step * 2 else step) (hv @ [p]) (Some q)"
    using p h pos by (intro exI [of _ q] exI [of _ c]) (subst locator_loop.simps, simp)
qed

lemma locator_loop_spec:
  assumes wf: "index_wf st" and hs: "hashes_set st"
  shows "st p = Some b \<Longrightarrow> nHeight b = int h \<Longrightarrow> 0 < step \<Longrightarrow>
    \<exists>es. locator_loop st step hv (Some p) = Some (Inr (hv @ p # es)) \<and> (\<forall>e\<in>set es. is_ancestor st e p) \<and>
      sorted_wrt (\<lambda>x y. height_of st y < height_of st x) (p # es) \<and> height_of st (last (p # es)) = 0"
proof (induction h arbitrary: p b step hv rule: less_induct)
  case (less h)
  note rnd = locator_loop_round [OF wf hs less.prems(1,3)]
  show ?case
  proof (cases "h = 0")
    case True
    then show ?thesis using rnd(1) [of hv] less.prems by (intro exI [of _ "[]"]) (simp add: height_of_def)
  next
    case False
    let ?s = "if 10 \<le> length hv then step * 2 else step"
    obtain q c where q: "st q = Some c" "nHeight c = max (nHeight b - step) 0" "is_ancestor st q p"
      "locator_loop st step hv (Some p) = locator_loop st ?s (hv @ [p]) (Some q)"
      using rnd(2) [of hv] less.prems False by auto
    obtain k where k: "nHeight c = int k" using index_wf_height [OF wf q(1)] nonneg_int_cases by blast
    then have kh: "k < h" using q(2) less.prems False by linarith
    have "0 < ?s" using less.prems(3) by simp
    from less.IH [OF kh q(1) k this, of "hv @ [p]"] obtain es where es: "locator_loop st ?s (hv @ [p]) (Some q) = Some (Inr ((hv @ [p]) @ q # es))"
      "\<forall>e\<in>set es. is_ancestor st e q"
      "sorted_wrt (\<lambda>x y. height_of st y < height_of st x) (q # es)" "height_of st (last (q # es)) = 0"
      by blast
    have "height_of st q < height_of st p" using q less.prems False by (simp add: height_of_def)
    then have "\<forall>e\<in>set (q # es). height_of st e < height_of st p" using es(3) by auto
    moreover have "\<forall>e\<in>set (q # es). is_ancestor st e p" using es(2) q(3) is_ancestor_trans by auto
    ultimately show ?thesis using es q(4) by (intro exI [of _ "q # es"]) auto
  qed
qed

lemma locator_loop_length_doubling:
  assumes wf: "index_wf st" and hs: "hashes_set st"
  shows "st p = Some b \<Longrightarrow> nHeight b \<le> step * (2 ^ k - 1) \<Longrightarrow> 0 < step \<Longrightarrow> 10 \<le> length hv \<Longrightarrow>
    \<exists>es. locator_loop st step hv (Some p) = Some (Inr es) \<and> length es \<le> length hv + k + 1"
proof (induction k arbitrary: p b step hv)
  case 0
  then have "nHeight b = 0" using index_wf_height [OF wf 0(1)] by simp
  then show ?case using locator_loop_round(1) [OF wf hs 0(1,3), of hv] by simp
next
  case (Suc k)
  note rnd = locator_loop_round [OF wf hs Suc.prems(1,3), of hv]
  show ?case
  proof (cases "nHeight b = 0")
    case True
    then show ?thesis using rnd(1) by simp
  next
    case False
    then have "0 < nHeight b" using index_wf_height [OF wf Suc.prems(1)] by simp
    then obtain q c where q: "st q = Some c" "nHeight c = max (nHeight b - step) 0"
      "locator_loop st step hv (Some p) = locator_loop st (step * 2) (hv @ [p]) (Some q)"
      using rnd(2) Suc.prems(4) by auto
    have "nHeight b - step \<le> step * 2 * (2 ^ k - 1)" using Suc.prems(2) by (simp add: algebra_simps)
    moreover have "0 \<le> step * 2 * (2 ^ k - 1)" using Suc.prems(3) by simp
    ultimately have "nHeight c \<le> step * 2 * (2 ^ k - 1)" using q(2) by simp
    then show ?thesis using Suc.IH [OF q(1), of "step * 2" "hv @ [p]"] Suc.prems q(3) by fastforce
  qed
qed

lemma locator_loop_length:
  assumes wf: "index_wf st" and hs: "hashes_set st"
  shows "st p = Some b \<Longrightarrow> nHeight b < int m + 2 ^ k \<Longrightarrow> length hv + m = 10 \<Longrightarrow>
    \<exists>es. locator_loop st 1 hv (Some p) = Some (Inr es) \<and> length es \<le> 11 + k"
proof (induction m arbitrary: p b hv)
  case 0
  then show ?case using locator_loop_length_doubling [OF wf hs 0(1), of 1 k hv] by simp
next
  case (Suc m)
  note rnd = locator_loop_round [OF wf hs Suc.prems(1), of 1 hv]
  show ?case
  proof (cases "nHeight b = 0")
    case True
    then show ?thesis using rnd(1) Suc.prems(3) by simp
  next
    case False
    then have "0 < nHeight b" using index_wf_height [OF wf Suc.prems(1)] by simp
    then obtain q c where q: "st q = Some c" "nHeight c = max (nHeight b - 1) 0"
      "locator_loop st 1 hv (Some p) = locator_loop st 1 (hv @ [p]) (Some q)"
      using rnd(2) Suc.prems(3) by auto
    have "0 < int m + 2 ^ k" by (simp add: add_nonneg_pos)
    then have "nHeight c < int m + 2 ^ k" using q(2) Suc.prems(2) by simp
    then show ?thesis using Suc.IH [OF q(1), of "hv @ [p]"] Suc.prems(3) q(3) by simp
  qed
qed

subsection \<open>Binary search by time\<close>

text \<open>The range splits at \<open>r\<close> into positions below the bound and the others.\<close>

definition splits_at :: "(nat \<Rightarrow> abort + bool) \<Rightarrow> nat \<Rightarrow> nat \<Rightarrow> nat \<Rightarrow> bool" where
  "splits_at lt first stop r \<longleftrightarrow> first \<le> r \<and> r \<le> stop \<and>
     (\<forall>i. first \<le> i \<and> i < r \<longrightarrow> lt i = Inr True) \<and> (\<forall>i. r \<le> i \<and> i < stop \<longrightarrow> lt i = Inr False)"

lemma lower_bound_splits: "splits_at lt first (first + len) r \<Longrightarrow> lower_bound lt first len = Inr r"
proof (induction len arbitrary: first rule: less_induct)
  case (less len)
  show ?case
  proof (cases "len = 0")
    case True
    then show ?thesis using less.prems by (subst lower_bound.simps) (simp add: splits_at_def)
  next
    case False
    define half where "half = len div 2"
    have half: "half < len" using False by (simp add: half_def)
    show ?thesis
    proof (cases "first + half < r")
      case True
      then have "splits_at lt (first + half + 1) (first + half + 1 + (len - half - 1)) r"
        using less.prems half by (auto simp: splits_at_def)
      from less.IH [OF _ this] have "lower_bound lt (first + half + 1) (len - half - 1) = Inr r" using half by simp
      moreover have "lt (first + half) = Inr True" using less.prems True by (auto simp: splits_at_def)
      ultimately show ?thesis using False by (subst lower_bound.simps) (simp add: Let_def flip: half_def)
    next
      case ge: False
      then have "splits_at lt first (first + half) r" using less.prems half by (auto simp: splits_at_def)
      from less.IH [OF half this] have "lower_bound lt first half = Inr r" .
      moreover have "lt (first + half) = Inr False" using less.prems ge half by (auto simp: splits_at_def)
      ultimately show ?thesis using False by (subst lower_bound.simps) (simp add: Let_def flip: half_def)
    qed
  qed
qed

lemma antitone_splits:
  assumes "\<forall>i<n. lt i = Inr (P i)" "\<forall>i j. i \<le> j \<and> j < n \<and> P j \<longrightarrow> P i"
  shows "\<exists>r. splits_at lt 0 n r"
proof (cases "\<forall>i<n. P i")
  case True
  then show ?thesis using assms by (intro exI [of _ n]) (auto simp: splits_at_def)
next
  case False
  define r where "r = (LEAST i. \<not> P i)"
  obtain i where i: "i < n" "\<not> P i" using False by auto
  have "r \<le> i" unfolding r_def using i(2) by (rule Least_le)
  moreover have "\<not> P r" unfolding r_def using i(2) by (rule LeastI)
  moreover have "P j" if "j < r" for j using that not_less_Least [of j "\<lambda>i. \<not> P i"] by (auto simp: r_def)
  ultimately show ?thesis using i assms by (intro exI [of _ r]) (fastforce simp: splits_at_def)
qed

text \<open>\<^verbatim>\<open>nTimeMax\<close> never decreases from a block to its successor.\<close>

definition time_max_wf :: "block_store \<Rightarrow> bool" where
  "time_max_wf st \<longleftrightarrow>
     (\<forall>p b q c. st p = Some b \<and> pprev b = Some q \<and> st q = Some c \<longrightarrow> nTimeMax c \<le> nTimeMax b)"

lemma time_max_ancestor:
  assumes wf: "index_wf st" "time_max_wf st"
  shows "st p = Some b \<Longrightarrow> nth_prev st n p = Some q \<Longrightarrow> st q = Some c \<Longrightarrow> GetBlockTimeMax c \<le> GetBlockTimeMax b"
proof (induction n arbitrary: p b)
  case (Suc n)
  then obtain r where r: "pprev b = Some r" "nth_prev st n r = Some q" by (auto simp: bind_eq_Some_conv)
  then obtain d where d: "st r = Some d" using index_wf_prev [OF wf(1) Suc.prems(1)] by auto
  then have "GetBlockTimeMax d \<le> GetBlockTimeMax b"
    using wf(2) Suc.prems(1) r unfolding time_max_wf_def GetBlockTimeMax_def word_le_def by blast
  then show ?case using Suc.IH [OF d r(2) Suc.prems(3)] by simp
qed simp

lemma FindEarliestAtLeast_spec:
  assumes wf: "index_wf st" "time_max_wf st" and t: "st tip = Some bt" and v: "v = chain_to st tip (nat (nHeight bt))"
  shows "\<exists>r. FindEarliestAtLeast st v t h = Inr r \<and>
    (case r of
       None \<Rightarrow> \<forall>i<length v. \<forall>b. Option.bind (v ! i) st = Some b \<longrightarrow> GetBlockTimeMax b < t \<or> nHeight b < h
     | Some p \<Rightarrow> \<exists>i b. i < length v \<and> v ! i = Some p \<and> st p = Some b \<and> t \<le> GetBlockTimeMax b \<and> h \<le> nHeight b \<and>
         (\<forall>j<i. \<forall>c. Option.bind (v ! j) st = Some c \<longrightarrow> GetBlockTimeMax c < t \<or> nHeight c < h))"
proof -
  define H where "H = nat (nHeight bt)"
  have entry: "\<exists>p b. v ! i = Some p \<and> nth_prev st (H - i) tip = Some p \<and> st p = Some b \<and> nHeight b = int i" if "i < length v" for i
  proof -
    have "int (H - i) \<le> nHeight bt" "nHeight bt - int (H - i) = int i"
      using that v index_wf_height [OF wf(1) t] by (auto simp: H_def)
    then show ?thesis using nth_prev_height [OF wf(1) t, of "H - i"] that v by (auto simp: H_def)
  qed
  define blk where "blk i = the (Option.bind (v ! i) st)" for i
  have blk: "Option.bind (v ! i) st = Some (blk i) \<and> nHeight (blk i) = int i" if "i < length v" for i
    using entry [OF that] by (auto simp: blk_def)
  define P where "P i \<longleftrightarrow> GetBlockTimeMax (blk i) < t \<or> nHeight (blk i) < h" for i
  have mono: "GetBlockTimeMax (blk i) \<le> GetBlockTimeMax (blk j)" if ij: "i \<le> j" "j < length v" for i j
  proof -
    obtain p b where p: "v ! i = Some p" "nth_prev st (H - i) tip = Some p" "st p = Some b" using entry [of i] ij by auto
    obtain q c where q: "v ! j = Some q" "nth_prev st (H - j) tip = Some q" "st q = Some c" using entry [of j] ij by auto
    have "H - i = (H - j) + (j - i)" using ij v by (simp add: H_def)
    then have "nth_prev st (j - i) q = Some p" using p(2) q(2) by (simp only: nth_prev_add) simp
    then show ?thesis using time_max_ancestor [OF wf q(3) _ p(3)] p q by (simp add: blk_def)
  qed
  have lt: "earliest_less st v t h i = Inr (P i)" if "i < length v" for i
    using blk [OF that] by (simp add: earliest_less_def P_def)
  obtain r where r: "splits_at (earliest_less st v t h) 0 (length v) r"
    using antitone_splits [of "length v" "earliest_less st v t h" P] lt mono blk
    by (fastforce simp: P_def)
  then have lb: "lower_bound (earliest_less st v t h) 0 (length v) = Inr r" using lower_bound_splits [of _ 0 "length v" r] by simp
  have below: "P j" if "j < r" for j using r lt that by (auto simp: splits_at_def)
  show ?thesis
  proof (cases "r = length v")
    case True
    then show ?thesis using lb below blk by (auto simp: FindEarliestAtLeast_def P_def)
  next
    case False
    then have rl: "r < length v" using r by (simp add: splits_at_def)
    obtain p b where p: "v ! r = Some p" "st p = Some b" using entry [OF rl] by auto
    have "\<not> P r" using r rl lt [OF rl] by (auto simp: splits_at_def)
    moreover have "blk r = b" using p by (simp add: blk_def)
    moreover have "\<forall>j<r. \<forall>c. Option.bind (v ! j) st = Some c \<longrightarrow> GetBlockTimeMax c < t \<or> nHeight c < h"
    proof (intro allI impI)
      fix j c assume "j < r" "Option.bind (v ! j) st = Some c"
      then show "GetBlockTimeMax c < t \<or> nHeight c < h" using below [of j] blk [of j] rl by (simp add: P_def)
    qed
    ultimately show ?thesis
      using lb p rl by (auto simp: FindEarliestAtLeast_def P_def not_less intro!: exI [of _ r])
  qed
qed

subsection \<open>Median time\<close>

lemma sort_nth_ge:
  fixes xs :: "int list"
  assumes "k < length xs" "length xs \<le> length (filter (\<lambda>x. m \<le> x) xs) + k"
  shows "m \<le> sort xs ! k"
proof (rule ccontr)
  assume neg: "\<not> m \<le> sort xs ! k"
  let ?ys = "sort xs"
  have "x < m" if x: "x \<in> set (take (Suc k) ?ys)" for x
  proof -
    obtain i where "i \<le> k" "x = ?ys ! i" using x assms(1) by (auto simp: in_set_conv_nth less_Suc_eq_le)
    then show ?thesis using neg sorted_nth_mono [OF sorted_sort, of i k xs] assms(1) by auto
  qed
  then have "filter (\<lambda>x. m \<le> x) (take (Suc k) ?ys) = []" by (auto simp: filter_empty_conv not_le)
  moreover have "filter (\<lambda>x. m \<le> x) ?ys = filter (\<lambda>x. m \<le> x) (take (Suc k) ?ys) @ filter (\<lambda>x. m \<le> x) (drop (Suc k) ?ys)"
    by (simp flip: filter_append)
  ultimately have "length (filter (\<lambda>x. m \<le> x) ?ys) \<le> length xs - Suc k"
    using length_filter_le [of "\<lambda>x. m \<le> x" "drop (Suc k) ?ys"] by simp
  moreover have "length (filter (\<lambda>x. m \<le> x) ?ys) = length (filter (\<lambda>x. m \<le> x) xs)" by (simp add: filter_sort)
  ultimately show False using assms by simp
qed

lemma sort_nth_count:
  fixes xs :: "int list"
  assumes "k < length xs"
  shows "length xs \<le> length (filter (\<lambda>x. sort xs ! k \<le> x) xs) + k"
proof -
  let ?ys = "sort xs" and ?P = "\<lambda>x. sort xs ! k \<le> x"
  have "filter ?P (drop k ?ys) = drop k ?ys"
    using assms by (auto simp: filter_id_conv in_set_conv_nth intro!: sorted_nth_mono)
  then have "length xs - k \<le> length (filter ?P (take k ?ys) @ filter ?P (drop k ?ys))" by simp
  also have "filter ?P (take k ?ys) @ filter ?P (drop k ?ys) = filter ?P ?ys" by (simp flip: filter_append)
  finally show ?thesis by (simp add: filter_sort)
qed

lemma median_push:
  fixes ts :: "int list"
  assumes "ts \<noteq> []" "length ts \<le> 11"
  defines "m \<equiv> sort ts ! (length ts div 2)"
  assumes "m \<le> t"
  shows "m \<le> sort (t # take 10 ts) ! (length (t # take 10 ts) div 2)"
proof (rule sort_nth_ge)
  let ?P = "\<lambda>x. m \<le> x"
  show "length (t # take 10 ts) div 2 < length (t # take 10 ts)" by simp
  have "length ts \<le> length (filter ?P ts) + length ts div 2"
    unfolding m_def using assms(1) by (intro sort_nth_count) (simp add: div_less_dividend)
  moreover have "length (filter ?P ts) \<le> length (filter ?P (take 10 ts)) + (length ts - 10)"
  proof -
    have "filter ?P ts = filter ?P (take 10 ts) @ filter ?P (drop 10 ts)" by (simp flip: filter_append)
    then show ?thesis using length_filter_le [of ?P "drop 10 ts"] by simp
  qed
  ultimately show "length (t # take 10 ts) \<le> length (filter ?P (t # take 10 ts)) + length (t # take 10 ts) div 2"
    using assms(2,4) by (cases "length ts \<le> 10") (auto simp: min_def)
qed

lemma past_times_numeral:
  "past_times st (numeral k) None = Inr []"
  "past_times st (numeral k) (Some p) =
     (case st p of
        None \<Rightarrow> Inl NullDeref
      | Some b \<Rightarrow> map_sum id (\<lambda>ts. GetBlockTime b # ts) (past_times st (pred_numeral k) (pprev b)))"
  by (simp_all add: numeral_eq_Suc)

lemma past_times_take:
  "past_times st (Suc n) p = Inr ts \<Longrightarrow> past_times st n p = Inr (take n ts)"
proof (induction n arbitrary: p ts)
  case (Suc n)
  show ?case
  proof (cases p)
    case (Some q)
    with Suc.prems obtain b ts' where "st q = Some b" "past_times st (Suc n) (pprev b) = Inr ts'" "ts = GetBlockTime b # ts'"
      by (auto split: option.splits simp: map_sum_def split: sum.splits simp del: past_times.simps(1))
    then show ?thesis using Suc.IH [of "pprev b" ts'] Some by simp
  qed (use Suc.prems in simp)
qed simp

lemma past_times_total:
  assumes wf: "index_wf st"
  shows "st p = Some b \<Longrightarrow> \<exists>ts. past_times st (Suc n) (Some p) = Inr (GetBlockTime b # ts) \<and> length ts \<le> n"
proof (induction n arbitrary: p b)
  case (Suc n)
  show ?case
  proof (cases "pprev b")
    case (Some q)
    then obtain c where "st q = Some c" using index_wf_prev [OF wf Suc.prems] by auto
    from Suc.IH [OF this] show ?thesis using Suc.prems Some by auto
  qed (use Suc.prems in simp)
qed simp

section \<open>Properties\<close>

definition example_chain :: vchain where
  "example_chain = [Some [0], Some [3]]"

lemma example_chain_wf: "chain_wf example_index example_chain"
proof -
  have "example_chain = chain_to example_index [3] (nat 1)"
    by (simp add: example_chain_def chain_to_def example_index_simps CBlockIndex_default_def)
  then show ?thesis unfolding chain_wf_def using example_index_simps(4)
    by (intro disjI2 exI [of _ "[3]"]) (simp add: CBlockIndex_default_def)
qed

text \<open>\<^bold>\<open>C33\<close>: \<^verbatim>\<open>CChain::SetTip\<close>, which stops at the first entry the vector already holds, leaves the
  same vector as a full rebuild. For a vector that is a chain and any entry of a well-formed index
  it returns, and the vector then holds at each height from zero to the new tip's exactly the
  tip's ancestor at that height, so it is a chain again; with null it is cleared.\<close>

theorem SetTip_full_chain:
  assumes "index_wf st" "chain_wf st v" "st p = Some b"
  shows "SetTip st v (Some p) = Some (Inr (chain_to st p (nat (nHeight b)))) \<and>
    chain_wf st (chain_to st p (nat (nHeight b))) \<and> SetTip st v None = Some (Inr [])"
  using SetTip_chain_to [OF assms(1,3,2)] assms(3) by (auto simp: chain_wf_def SetTip_def)

theorem SetTip_full_chain_witness:
  "index_wf example_index \<and> chain_wf example_index example_chain \<and> example_index [2] \<noteq> None \<and>
   SetTip example_index example_chain (Some [2]) = Some (Inr [Some [0], Some [1], Some [2]])"
  using SetTip_full_chain [OF example_index_wf example_chain_wf example_index_simps(3)]
    example_index_wf example_chain_wf
  by (auto simp: example_index_simps CBlockIndex_default_def chain_to_def numeral_2_eq_2)

text \<open>\<^bold>\<open>C26\<close>: \<^verbatim>\<open>CChain::FindFork\<close> on the chain of a tip returns for every index entry the greatest
  common ancestor of the entry and the tip, and null exactly when they have none; \<^verbatim>\<open>Contains\<close>
  holds exactly for the ancestors of the tip.\<close>

theorem FindFork_correct:
  assumes "index_wf st" "st tip = Some bt" "st p = Some b"
  shows "(\<exists>r. FindFork st (chain_to st tip (nat (nHeight bt))) (Some p) = Some (Inr r) \<and> fork_result st tip p r) \<and>
    Contains st (chain_to st tip (nat (nHeight bt))) p = Inr (is_ancestor st p tip)"
  using FindFork_spec [OF assms] chain_at_is_ancestor [OF assms] assms(3) by (simp add: Contains_def)

theorem FindFork_correct_witness:
  "index_wf example_index \<and> example_index [2] \<noteq> None \<and> example_index [3] \<noteq> None \<and>
   (\<exists>r. FindFork example_index [Some [0], Some [3]] (Some [2]) = Some (Inr r) \<and> fork_result example_index [3] [2] r)"
  using FindFork_correct [OF example_index_wf example_index_simps(4,3)] example_index_wf
  by (auto simp: example_index_simps CBlockIndex_default_def chain_to_def)

text \<open>\<^bold>\<open>C34\<close>: a block locator built by \<^verbatim>\<open>LocatorEntries\<close> starts at the given block, lists hashes of its
  ancestors at strictly decreasing heights, ends at the genesis block, and for a block below
  height \<open>2 ^ k + 10\<close> has at most \<open>k + 11\<close> entries.\<close>

theorem LocatorEntries_correct:
  assumes "index_wf st" "hashes_set st" "st p = Some b" "nHeight b < 10 + 2 ^ k"
  shows "\<exists>es. LocatorEntries st (Some p) = Some (Inr (p # es)) \<and> (\<forall>e\<in>set es. is_ancestor st e p) \<and>
    sorted_wrt (\<lambda>x y. height_of st y < height_of st x) (p # es) \<and> height_of st (last (p # es)) = 0 \<and>
    length (p # es) \<le> 11 + k"
proof -
  obtain h where "nHeight b = int h" using index_wf_height [OF assms(1,3)] nonneg_int_cases by blast
  from locator_loop_spec [OF assms(1-3) this, of 1 "[]"] locator_loop_length [OF assms(1-3), of 10 k "[]"] assms(4)
  show ?thesis by (auto simp: LocatorEntries_def)
qed

definition hashed_genesis :: block_store where
  "hashed_genesis = [[7] \<mapsto> CBlockIndex_default\<lparr>phashBlock := Some [7]\<rparr>]"

theorem LocatorEntries_correct_witness:
  "index_wf hashed_genesis \<and> hashes_set hashed_genesis \<and> LocatorEntries hashed_genesis (Some [7]) = Some (Inr [[7]])"
proof -
  have wf: "index_wf hashed_genesis"
    by (auto simp: index_wf_def hashed_genesis_def CBlockIndex_default_def split: if_splits)
  have hs: "hashes_set hashed_genesis"
    by (auto simp: hashes_set_def hashed_genesis_def split: if_splits)
  have p: "hashed_genesis [7] = Some (CBlockIndex_default\<lparr>phashBlock := Some [7]\<rparr>)" by (simp add: hashed_genesis_def)
  obtain es where es: "LocatorEntries hashed_genesis (Some [7]) = Some (Inr ([7] # es))"
    "\<forall>e\<in>set es. is_ancestor hashed_genesis e [7]"
    "sorted_wrt (\<lambda>x y. height_of hashed_genesis y < height_of hashed_genesis x) ([7] # es)"
    using LocatorEntries_correct [OF wf hs p, of 0] by (auto simp: CBlockIndex_default_def)
  have "es = []"
  proof (cases es)
    case (Cons e es')
    then have "is_ancestor hashed_genesis e [7]" using es(2) by simp
    then have "e = [7]" using is_ancestor_unfold [of hashed_genesis, OF p] by (simp add: CBlockIndex_default_def)
    then show ?thesis using es(3) Cons by simp
  qed simp
  with es wf hs show ?thesis by simp
qed

text \<open>\<^bold>\<open>C38\<close>: \<^verbatim>\<open>FindEarliestAtLeast\<close>'s binary search is exact on the chain of a tip: it returns the
  entry of lowest height whose maximal time and height reach the two bounds, and null exactly
  when no entry of the chain reaches both.\<close>

theorem FindEarliestAtLeast_correct:
  assumes "index_wf st" "time_max_wf st" "st tip = Some bt"
  defines "v \<equiv> chain_to st tip (nat (nHeight bt))"
  shows "\<exists>r. FindEarliestAtLeast st v t h = Inr r \<and>
    (case r of
       None \<Rightarrow> \<forall>i<length v. \<forall>b. Option.bind (v ! i) st = Some b \<longrightarrow> GetBlockTimeMax b < t \<or> nHeight b < h
     | Some p \<Rightarrow> \<exists>i b. i < length v \<and> v ! i = Some p \<and> st p = Some b \<and> t \<le> GetBlockTimeMax b \<and> h \<le> nHeight b \<and>
         (\<forall>j<i. \<forall>c. Option.bind (v ! j) st = Some c \<longrightarrow> GetBlockTimeMax c < t \<or> nHeight c < h))"
  unfolding v_def using assms(1-3) refl by (rule FindEarliestAtLeast_spec)

theorem FindEarliestAtLeast_correct_witness:
  "index_wf example_index \<and> time_max_wf example_index \<and> example_index [3] \<noteq> None \<and>
   (\<exists>r. FindEarliestAtLeast example_index example_chain 0 1 = Inr r)"
proof -
  have tm: "time_max_wf example_index"
  proof -
    have "nTimeMax b = 0" if "example_index p = Some b" for p b
      using example_index_dom [OF that] that by (auto simp: example_index_simps CBlockIndex_default_def)
    then show ?thesis unfolding time_max_wf_def by fastforce
  qed
  then show ?thesis
    using FindEarliestAtLeast_correct [OF example_index_wf tm example_index_simps(4), of 0 1] example_index_wf
    by (auto simp: example_index_simps CBlockIndex_default_def chain_to_def example_chain_def)
qed

text \<open>\<^bold>\<open>C35\<close>: median time past never runs backwards. If a block's time is not before the median time
  of its parent (block acceptance asks for strictly after), then \<^verbatim>\<open>GetMedianTimePast\<close> of the block
  is at least that of the parent.\<close>

theorem median_time_monotone:
  assumes "index_wf st" "st p = Some b" "pprev b = Some q" "GetMedianTimePast st q = Inr m" "m \<le> GetBlockTime b"
  shows "\<exists>m'. GetMedianTimePast st p = Inr m' \<and> m \<le> m'"
proof -
  obtain c where c: "st q = Some c" using index_wf_prev [OF assms(1-3)] by auto
  obtain ts where ts: "past_times st 11 (Some q) = Inr ts" "ts \<noteq> []" "length ts \<le> 11"
    using past_times_total [OF assms(1) c, of 10] by auto
  have "past_times st 10 (Some q) = Inr (take 10 ts)" using past_times_take [of st 10 "Some q" ts] ts(1) by simp
  then have p: "past_times st 11 (Some p) = Inr (GetBlockTime b # take 10 ts)"
    using past_times.simps(3) [of st 10 p] assms(2,3) by simp
  have "m = sort ts ! (length ts div 2)"
    using assms(4) ts(1) by (simp add: GetMedianTimePast_def nMedianTimeSpan_def)
  then have "m \<le> sort (GetBlockTime b # take 10 ts) ! (length (GetBlockTime b # take 10 ts) div 2)"
    using median_push [OF ts(2,3)] assms(5) by blast
  then show ?thesis using p by (simp add: GetMedianTimePast_def nMedianTimeSpan_def del: length_Cons sort_key_simps)
qed

theorem median_time_monotone_witness:
  "index_wf example_index \<and> (\<exists>m'. GetMedianTimePast example_index [2] = Inr m' \<and> 60 \<le> m')"
proof -
  have "GetMedianTimePast example_index [1] = Inr 60"
    by (simp add: GetMedianTimePast_def nMedianTimeSpan_def past_times_numeral example_index_simps
        CBlockIndex_default_def GetBlockTime_def)
  from median_time_monotone [OF example_index_wf example_index_simps(3) _ this] example_index_wf
  show ?thesis by (simp add: CBlockIndex_default_def GetBlockTime_def)
qed

end
