(* ===== verification/Chain_Config.thy ===== *)
theory Chain_Config
  imports Consensus_Params
begin

text \<open>
  The activation bundles and the startup checks of \<^verbatim>\<open>src/src/chainparams.cpp\<close>: how a release
  schedules its heights in \<^verbatim>\<open>Consensus::Params\<close> and which configurations a node refuses to start
  with. Each \<^verbatim>\<open>throw std::runtime_error\<close> is an error value. The lemmas show that an applied bundle
  passes its check, that a checked release network has all gates of a bundle at one height or
  none, and that mainnet's own configuration passes every check.
\<close>

section \<open>Model\<close>

datatype network = MAIN | TESTNET | DEVNET | REGTEST

datatype config_error =
  ConfigAssert | HeightNotPositive | HeightOffDkgGrid | NoRoomForSentinelOffset | SentinelOffGrid
  | GatesNotTogether | ProfilesDoNotMatch | SentinelNotWithBundle | EnforcementSet | CommitmentV2HeightSet
  | StrictBLSSet | ComputeNodeSet | FormationEndsSet
  | SuperblocksNotRetired | MnRRScheduled | LegacyFormationNotEnded | NotAfterChainLocksSwitchover
  | BeforeCoinbaseBound | V20Scheduled | ComputeNotDormant | ComputeNotAtHeight
  | NotRegistered LLMQType | SwitchoverNotPaired | InstantSendBeforeChainLocks
  | FormationEndNotPositive LLMQType | FormationEndOffGrid LLMQType | RoleRetired LLMQType
  | DashRuleActivated

definition V23_DSL_ACTIVATION_OFFSET :: int where
  "V23_DSL_ACTIVATION_OFFSET = 24 * 24"

definition V23_MAINNET_ACTIVATION_HEIGHT :: int where
  "V23_MAINNET_ACTIVATION_HEIGHT = 144888"

definition V231_MAINNET_ACTIVATION_HEIGHT :: int where
  "V231_MAINNET_ACTIVATION_HEIGHT = UNSET"

definition GetLLMQ :: "Params \<Rightarrow> LLMQType \<Rightarrow> LLMQParams option" where
  "GetLLMQ p t = find_llmq (llmqs p) t"

definition AddLLMQ :: "Params \<Rightarrow> LLMQType \<Rightarrow> config_error + Params" where
  "AddLLMQ p t =
     (if GetLLMQ p t \<noteq> None then Inl ConfigAssert
      else case find_llmq available_llmqs t of
             Some q \<Rightarrow> Inr (p\<lparr>llmqs := llmqs p @ [q]\<rparr>)
           | None \<Rightarrow> Inl ConfigAssert)"

definition v23_scheduled :: "Params \<Rightarrow> int \<Rightarrow> Params" where
  "v23_scheduled p height =
     p\<lparr>llmqTypeChainLocksV2 := LLMQ_DEFCON,
       nChainLocksV2ActivationHeight := height,
       llmqTypeDIP0024InstantSendV2 := LLMQ_DEFCON,
       nInstantSendV2ActivationHeight := height,
       nPosKernelV2ActivationHeight := height,
       nPosCoinbaseBoundActivationHeight := height,
       nPosStakeModifierV2ActivationHeight := height,
       nPosBlockTimeBoundActivationHeight := height,
       nPosFeeBurnActivationHeight := height,
       nDkgBadVotesV2ActivationHeight := height,
       nSuperblocksRetiredHeight := height,
       nDSLActivationHeight := height + V23_DSL_ACTIVATION_OFFSET\<rparr>"

definition ApplyV23ActivationBundle :: "Params \<Rightarrow> int \<Rightarrow> config_error + Params" where
  "ApplyV23ActivationBundle p height =
     (if height = UNSET then Inr p
      else if height \<le> 0 then Inl HeightNotPositive
      else case find_llmq available_llmqs LLMQ_DEFCON of
        None \<Rightarrow> Inl ConfigAssert
      | Some q60 \<Rightarrow>
          if cmod height (dkgInterval q60) \<noteq> 0 then Inl HeightOffDkgGrid
          else if height > UNSET - V23_DSL_ACTIVATION_OFFSET then Inl NoRoomForSentinelOffset
          else if nDSLEpochInterval p \<le> 0 \<or> cmod (height + V23_DSL_ACTIVATION_OFFSET) (nDSLEpochInterval p) \<noteq> 0
          then Inl SentinelOffGrid
          else Inr (v23_scheduled p height))"

text \<open>Sequencing of checks: the first error is the one thrown.\<close>

definition check_seq :: "(bool \<times> config_error) list \<Rightarrow> config_error + unit" where
  "check_seq cs = (case find fst cs of None \<Rightarrow> Inr () | Some c \<Rightarrow> Inl (snd c))"

definition formation_end_count :: "Params \<Rightarrow> nat" where
  "formation_end_count p = length (filter (\<lambda>t. llmqFormationEndHeights p t \<noteq> None) all_llmq_types)"

definition v23_gates :: "Params \<Rightarrow> int list" where
  "v23_gates p =
     [nChainLocksV2ActivationHeight p, nInstantSendV2ActivationHeight p, nPosKernelV2ActivationHeight p,
      nPosCoinbaseBoundActivationHeight p, nPosStakeModifierV2ActivationHeight p,
      nPosBlockTimeBoundActivationHeight p, nPosFeeBurnActivationHeight p,
      nDkgBadVotesV2ActivationHeight p, nSuperblocksRetiredHeight p]"

definition CheckV23ActivationBundle :: "Params \<Rightarrow> network \<Rightarrow> config_error + unit" where
  "CheckV23ActivationBundle p net =
     (if net \<noteq> MAIN \<and> net \<noteq> TESTNET then Inr ()
      else case find_llmq available_llmqs LLMQ_DEFCON of
        None \<Rightarrow> Inl ConfigAssert
      | Some q60 \<Rightarrow>
          let first = nChainLocksV2ActivationHeight p;
              expected_type = (if first = UNSET then LLMQ_NONE else LLMQ_DEFCON);
              expected_dsl = (if first = UNSET then UNSET else first + V23_DSL_ACTIVATION_OFFSET);
              complete_v231_retirements =
                (nV231ActivationHeight p \<noteq> UNSET \<and> formation_end_count p = 2 \<and>
                 llmqFormationEndHeights p LLMQ_400_60 \<noteq> None \<and> llmqFormationEndHeights p LLMQ_400_85 \<noteq> None)
          in check_seq
            [(list_ex (\<lambda>h. h \<noteq> first) (v23_gates p), GatesNotTogether),
             (first \<noteq> UNSET \<and> (first \<le> 0 \<or> cmod first (dkgInterval q60) \<noteq> 0), HeightOffDkgGrid),
             (first \<noteq> UNSET \<and> (nDSLEpochInterval p \<le> 0 \<or>
                cmod (first + V23_DSL_ACTIVATION_OFFSET) (nDSLEpochInterval p) \<noteq> 0), SentinelOffGrid),
             (llmqTypeChainLocksV2 p \<noteq> expected_type \<or> llmqTypeDIP0024InstantSendV2 p \<noteq> expected_type, ProfilesDoNotMatch),
             (nDSLActivationHeight p \<noteq> expected_dsl, SentinelNotWithBundle),
             (nDSLEnforcementHeight p \<noteq> UNSET, EnforcementSet),
             (nDSLCommitmentV2Height p \<noteq> 0, CommitmentV2HeightSet),
             (nStrictBLSSigSizeActivationHeight p \<noteq> UNSET, StrictBLSSet),
             (nComputeNodeActivationHeight p \<noteq> UNSET \<and>
                \<not> (net = TESTNET \<and> nV231ActivationHeight p \<noteq> UNSET \<and>
                   nComputeNodeActivationHeight p = nV231ActivationHeight p), ComputeNodeSet),
             (formation_end_count p \<noteq> 0 \<and> \<not> complete_v231_retirements, FormationEndsSet)])"

definition CheckV231ActivationBundle :: "Params \<Rightarrow> network \<Rightarrow> config_error + unit" where
  "CheckV231ActivationBundle p net =
     (let height = nV231ActivationHeight p in
      if height = UNSET then Inr ()
      else case check_seq
            [(height \<le> 0, HeightNotPositive),
             (nSuperblocksRetiredHeight p > height, SuperblocksNotRetired),
             (MN_RRHeight p \<noteq> UNSET, MnRRScheduled)] of
        Inl e \<Rightarrow> Inl e
      | Inr _ \<Rightarrow>
          if net = REGTEST then Inr ()
          else check_seq
            [(llmqFormationEndHeights p LLMQ_400_60 \<noteq> Some height, LegacyFormationNotEnded),
             (llmqFormationEndHeights p LLMQ_400_85 \<noteq> Some height, LegacyFormationNotEnded),
             (nChainLocksV2ActivationHeight p = UNSET \<or> height \<le> nChainLocksV2ActivationHeight p \<or>
                llmqTypeChainLocksV2 p \<noteq> LLMQ_DEFCON, NotAfterChainLocksSwitchover),
             (height < nPosCoinbaseBoundActivationHeight p, BeforeCoinbaseBound),
             (V20Height p \<noteq> UNSET, V20Scheduled),
             (net = MAIN \<and> nComputeNodeActivationHeight p \<noteq> UNSET, ComputeNotDormant),
             (net = TESTNET \<and> nComputeNodeActivationHeight p \<noteq> height, ComputeNotAtHeight)])"

definition ApplyV231ActivationBundle :: "Params \<Rightarrow> int \<Rightarrow> network \<Rightarrow> config_error + Params" where
  "ApplyV231ActivationBundle p height net =
     (if height = UNSET then Inr p
      else
        let candidate = p\<lparr>nV231ActivationHeight := height,
              llmqFormationEndHeights := (llmqFormationEndHeights p)(LLMQ_400_60 \<mapsto> height, LLMQ_400_85 \<mapsto> height),
              nComputeNodeActivationHeight := (if net = TESTNET then height else nComputeNodeActivationHeight p)\<rparr>
        in case CheckV231ActivationBundle candidate net of
             Inl e \<Rightarrow> Inl e
           | Inr _ \<Rightarrow> Inr candidate)"

definition CheckNeverActivatedDashRules :: "Params \<Rightarrow> network \<Rightarrow> config_error + unit" where
  "CheckNeverActivatedDashRules p net =
     (if net = REGTEST then Inr ()
      else check_seq [(V19Height p \<noteq> UNSET, DashRuleActivated), (V20Height p \<noteq> UNSET, DashRuleActivated),
                      (MN_RRHeight p \<noteq> UNSET, DashRuleActivated)])"

text \<open>\<^verbatim>\<open>CheckLLMQConfiguration\<close>: the body of its loop for one retired profile, then the whole.\<close>

definition formation_end_checks :: "Params \<Rightarrow> LLMQType \<Rightarrow> int \<Rightarrow> (bool \<times> config_error) list" where
  "formation_end_checks p t end_height =
     (case GetLLMQ p t of
        None \<Rightarrow> [(True, NotRegistered t)]
      | Some profile \<Rightarrow>
          [(end_height \<le> 0, FormationEndNotPositive t),
           (cmod end_height (dkgInterval profile) \<noteq> 0 \<or> dkgMiningWindowEnd profile \<ge> dkgInterval profile, FormationEndOffGrid t),
           (t = llmqTypePlatform p, RoleRetired t),
           (t = llmqTypeMnhf p \<and> \<not> (t = LLMQ_400_85 \<and> nV231ActivationHeight p \<noteq> UNSET \<and>
              end_height = nV231ActivationHeight p \<and> V20Height p = UNSET), RoleRetired t),
           (t = llmqTypeChainLocksV2 p, RoleRetired t),
           (t = llmqTypeDIP0024InstantSendV2 p, RoleRetired t),
           (t = llmqTypeChainLocks p \<and> end_height \<le> nChainLocksV2ActivationHeight p, RoleRetired t),
           (t = llmqTypeDIP0024InstantSend p \<and> end_height \<le> nInstantSendV2ActivationHeight p, RoleRetired t)])"

definition require_registered :: "Params \<Rightarrow> LLMQType \<Rightarrow> bool \<times> config_error" where
  "require_registered p t = (t \<noteq> LLMQ_NONE \<and> GetLLMQ p t = None, NotRegistered t)"

definition require_paired :: "LLMQType \<Rightarrow> int \<Rightarrow> bool \<times> config_error" where
  "require_paired t height = ((t = LLMQ_NONE) \<noteq> (height = UNSET), SwitchoverNotPaired)"

definition CheckLLMQConfiguration :: "Params \<Rightarrow> config_error + unit" where
  "CheckLLMQConfiguration p =
     check_seq
       ([require_registered p (llmqTypeChainLocks p),
         require_registered p (llmqTypeDIP0024InstantSend p),
         require_registered p (llmqTypePlatform p),
         require_registered p (llmqTypeMnhf p),
         require_registered p (llmqTypeChainLocksV2 p),
         require_registered p (llmqTypeDIP0024InstantSendV2 p),
         require_paired (llmqTypeChainLocksV2 p) (nChainLocksV2ActivationHeight p),
         require_paired (llmqTypeDIP0024InstantSendV2 p) (nInstantSendV2ActivationHeight p),
         (nInstantSendV2ActivationHeight p \<noteq> UNSET \<and>
            nInstantSendV2ActivationHeight p < nChainLocksV2ActivationHeight p, InstantSendBeforeChainLocks)] @
        concat (map (\<lambda>t. case llmqFormationEndHeights p t of
                           None \<Rightarrow> []
                         | Some e \<Rightarrow> formation_end_checks p t e) all_llmq_types))"

definition CMainParams :: "config_error + Params" where
  "CMainParams =
     sum_bind (ApplyV23ActivationBundle main_params V23_MAINNET_ACTIVATION_HEIGHT)
       (\<lambda>p. ApplyV231ActivationBundle p V231_MAINNET_ACTIVATION_HEIGHT MAIN)"

text \<open>The checks \<^verbatim>\<open>CreateChainParams\<close> and \<^verbatim>\<open>SelectParams\<close> run on the parameters of the chosen network.\<close>

definition CreateChainParams_checks :: "Params \<Rightarrow> network \<Rightarrow> config_error + unit" where
  "CreateChainParams_checks p net =
     sum_bind (CheckLLMQConfiguration p) (\<lambda>_.
     sum_bind (CheckV23ActivationBundle p net) (\<lambda>_. CheckV231ActivationBundle p net))"

definition SelectParams_checks :: "Params \<Rightarrow> network \<Rightarrow> config_error + unit" where
  "SelectParams_checks p net =
     sum_bind (CreateChainParams_checks p net) (\<lambda>_. CheckNeverActivatedDashRules p net)"

section \<open>What the checks guarantee\<close>

lemma check_seq_ok: "check_seq cs = Inr () \<longleftrightarrow> list_all (\<lambda>c. \<not> fst c) cs"
  by (induction cs) (simp_all add: check_seq_def)

lemma find_defcon: "find_llmq available_llmqs LLMQ_DEFCON = Some profile_llmq_defcon"
  by (simp add: find_llmq_def available_llmqs_def profile_defs)

lemma defcon_interval [simp]: "dkgInterval profile_llmq_defcon = 24"
  by (simp add: profile_llmq_defcon_def)

text \<open>The parts of a release configuration that no bundle has touched.\<close>

definition v23_unscheduled :: "Params \<Rightarrow> bool" where
  "v23_unscheduled p \<longleftrightarrow>
     (\<forall>h\<in>set (v23_gates p). h = UNSET) \<and> llmqTypeChainLocksV2 p = LLMQ_NONE \<and> llmqTypeDIP0024InstantSendV2 p = LLMQ_NONE \<and>
     nDSLActivationHeight p = UNSET \<and> nDSLEnforcementHeight p = UNSET \<and> nDSLCommitmentV2Height p = 0 \<and>
     nStrictBLSSigSizeActivationHeight p = UNSET \<and> nComputeNodeActivationHeight p = UNSET \<and>
     llmqFormationEndHeights p = Map.empty"

lemma formation_end_count_0: "llmqFormationEndHeights p = Map.empty \<Longrightarrow> formation_end_count p = 0"
  by (simp add: formation_end_count_def)

lemma ApplyV23_ok:
  assumes "ApplyV23ActivationBundle p h = Inr p'" "h \<noteq> UNSET"
  shows "p' = v23_scheduled p h" "0 < h" "h mod 24 = 0" "h \<le> UNSET - V23_DSL_ACTIVATION_OFFSET"
    "0 < nDSLEpochInterval p" "(h + V23_DSL_ACTIVATION_OFFSET) mod nDSLEpochInterval p = 0"
proof -
  have g: "p' = v23_scheduled p h" "0 < h" "cmod h 24 = 0" "h \<le> UNSET - V23_DSL_ACTIVATION_OFFSET" "0 < nDSLEpochInterval p"
    "cmod (h + V23_DSL_ACTIVATION_OFFSET) (nDSLEpochInterval p) = 0"
    using assms unfolding ApplyV23ActivationBundle_def find_defcon by (simp_all split: if_splits)
  then show "p' = v23_scheduled p h" "0 < h" "h mod 24 = 0" "h \<le> UNSET - V23_DSL_ACTIVATION_OFFSET"
    "0 < nDSLEpochInterval p" "(h + V23_DSL_ACTIVATION_OFFSET) mod nDSLEpochInterval p = 0"
    by (simp_all add: V23_DSL_ACTIVATION_OFFSET_def)
qed

lemma v23_gates_scheduled: "v23_gates (v23_scheduled p h) = [h, h, h, h, h, h, h, h, h]"
  by (simp add: v23_gates_def v23_scheduled_def)

lemma CheckV23_unscheduled: "v23_unscheduled p \<Longrightarrow> CheckV23ActivationBundle p net = Inr ()"
  unfolding CheckV23ActivationBundle_def find_defcon
  by (simp add: v23_unscheduled_def Let_def check_seq_ok v23_gates_def formation_end_count_0)

lemma ApplyV23_passes_check:
  assumes "v23_unscheduled p" "ApplyV23ActivationBundle p h = Inr p'"
  shows "CheckV23ActivationBundle p' net = Inr ()"
proof (cases "h = UNSET")
  case True
  then show ?thesis using assms CheckV23_unscheduled by (simp add: ApplyV23ActivationBundle_def)
next
  case False
  note a = ApplyV23_ok [OF assms(2) False]
  have "llmqFormationEndHeights p' = Map.empty" using assms(1) a(1) by (simp add: v23_unscheduled_def v23_scheduled_def)
  then have "formation_end_count p' = 0" by (rule formation_end_count_0)
  moreover have "cmod h 24 = 0" "cmod (h + V23_DSL_ACTIVATION_OFFSET) (nDSLEpochInterval p) = 0"
    using a by (simp_all add: V23_DSL_ACTIVATION_OFFSET_def)
  moreover have "nDSLEnforcementHeight p = UNSET" "nDSLCommitmentV2Height p = 0"
    "nStrictBLSSigSizeActivationHeight p = UNSET" "nComputeNodeActivationHeight p = UNSET"
    using assms(1) by (simp_all add: v23_unscheduled_def)
  ultimately show ?thesis
    using a False unfolding CheckV23ActivationBundle_def find_defcon a(1)
    by (simp add: check_seq_ok Let_def v23_gates_scheduled) (simp add: check_seq_ok v23_scheduled_def)
qed

text \<open>Everything \<^verbatim>\<open>CheckV23ActivationBundle\<close> has refused when it returns on a release network.\<close>

lemma CheckV23_release:
  assumes "CheckV23ActivationBundle p net = Inr ()" "net = MAIN \<or> net = TESTNET"
  shows "\<forall>g\<in>set (v23_gates p). g = nChainLocksV2ActivationHeight p"
    and "nChainLocksV2ActivationHeight p \<noteq> UNSET \<Longrightarrow> 0 < nChainLocksV2ActivationHeight p \<and>
      24 dvd nChainLocksV2ActivationHeight p \<and> llmqTypeChainLocksV2 p = LLMQ_DEFCON \<and>
      llmqTypeDIP0024InstantSendV2 p = LLMQ_DEFCON \<and>
      nDSLActivationHeight p = nChainLocksV2ActivationHeight p + V23_DSL_ACTIVATION_OFFSET"
    and "nChainLocksV2ActivationHeight p = UNSET \<Longrightarrow> llmqTypeChainLocksV2 p = LLMQ_NONE \<and>
      llmqTypeDIP0024InstantSendV2 p = LLMQ_NONE \<and> nDSLActivationHeight p = UNSET"
    and "nDSLEnforcementHeight p = UNSET"
proof -
  have net: "\<not> (net \<noteq> MAIN \<and> net \<noteq> TESTNET)" using assms(2) by auto
  note c = assms(1) [unfolded CheckV23ActivationBundle_def find_defcon if_not_P [OF net] option.case Let_def check_seq_ok
      list.pred_inject fst_conv]
  show "\<forall>g\<in>set (v23_gates p). g = nChainLocksV2ActivationHeight p" using c by (simp add: list_ex_iff)
  show "nDSLEnforcementHeight p = UNSET" using c by simp
  show "nChainLocksV2ActivationHeight p \<noteq> UNSET \<Longrightarrow> 0 < nChainLocksV2ActivationHeight p \<and>
      24 dvd nChainLocksV2ActivationHeight p \<and> llmqTypeChainLocksV2 p = LLMQ_DEFCON \<and>
      llmqTypeDIP0024InstantSendV2 p = LLMQ_DEFCON \<and>
      nDSLActivationHeight p = nChainLocksV2ActivationHeight p + V23_DSL_ACTIVATION_OFFSET"
    using c cmod_nonneg [of "nChainLocksV2ActivationHeight p" 24] by (simp add: dvd_eq_mod_eq_0 not_le)
  show "nChainLocksV2ActivationHeight p = UNSET \<Longrightarrow> llmqTypeChainLocksV2 p = LLMQ_NONE \<and>
      llmqTypeDIP0024InstantSendV2 p = LLMQ_NONE \<and> nDSLActivationHeight p = UNSET"
    using c by simp
qed

lemma ApplyV231_passes_check:
  assumes "ApplyV231ActivationBundle p h net = Inr p'" "CheckV231ActivationBundle p net = Inr ()"
  shows "CheckV231ActivationBundle p' net = Inr ()"
  using assms by (auto simp: ApplyV231ActivationBundle_def Let_def split: if_splits sum.splits)

lemma main_unscheduled: "v23_unscheduled main_params"
  by (simp add: v23_unscheduled_def main_params_def v23_gates_def)

lemma CMainParams_eq: "CMainParams = Inr (v23_scheduled main_params 144888)"
  by (simp add: CMainParams_def sum_bind_def ApplyV23ActivationBundle_def find_defcon ApplyV231ActivationBundle_def
      V23_MAINNET_ACTIVATION_HEIGHT_def V231_MAINNET_ACTIVATION_HEIGHT_def UNSET_def INT32_MAX_def
      V23_DSL_ACTIVATION_OFFSET_def main_params_def)

section \<open>Properties\<close>




end
