(* ===== verification/Llmq_Options.thy ===== *)
theory Llmq_Options
  imports Chain_Config Block_Index
begin

text \<open>
  Which quorum profile serves which role at which height: \<^verbatim>\<open>src/src/llmq/options.cpp\<close>. The
  ChainLock and InstantSend resolvers, the formation gate, the pause before the switchover and
  the queries built on them. Whether the \<^verbatim>\<open>TESTDUMMY\<close> deployment is active after a block is an
  argument. The lemmas connect the resolvers with the startup checks of \<open>Chain_Config\<close>: a
  profile a resolver names is never one that has stopped forming, and the formation window
  before the switchover is the pause window and holds a full signing set.
\<close>

section \<open>Model\<close>

definition EvalSpork :: "LLMQType \<Rightarrow> int \<Rightarrow> bool" where
  "EvalSpork t spork_value =
     (if spork_value = 0 then True
      else if spork_value = 1 \<and> t \<noteq> LLMQ_100_67 \<and> t \<noteq> LLMQ_400_60 \<and> t \<noteq> LLMQ_400_85 then True
      else False)"

definition GetChainLocksLLMQType :: "Params \<Rightarrow> int \<Rightarrow> LLMQType" where
  "GetChainLocksLLMQType p nSignedHeight =
     (if llmqTypeChainLocksV2 p \<noteq> LLMQ_NONE \<and> nSignedHeight \<ge> nChainLocksV2ActivationHeight p
      then llmqTypeChainLocksV2 p else llmqTypeChainLocks p)"

definition ChainLocksV2FormationLead :: "Params \<Rightarrow> abort + int" where
  "ChainLocksV2FormationLead p =
     (if llmqTypeChainLocksV2 p = LLMQ_NONE \<or> nChainLocksV2ActivationHeight p = UNSET then Inr 0
      else case find_llmq available_llmqs (llmqTypeChainLocksV2 p) of
             None \<Rightarrow> Inl AssertFailed
           | Some profile \<Rightarrow> Inr ((signingActiveQuorumCount profile + 1) * dkgInterval profile))"

definition IsChainLockPaused :: "Params \<Rightarrow> int \<Rightarrow> abort + bool" where
  "IsChainLockPaused p nSignedHeight =
     map_sum id (\<lambda>lead. if lead = 0 then False
                        else nSignedHeight \<ge> nChainLocksV2ActivationHeight p - lead \<and>
                             nSignedHeight < nChainLocksV2ActivationHeight p)
       (ChainLocksV2FormationLead p)"

definition GetInstantSendLLMQType :: "Params \<Rightarrow> int \<Rightarrow> LLMQType" where
  "GetInstantSendLLMQType p h =
     (if llmqTypeDIP0024InstantSendV2 p \<noteq> LLMQ_NONE \<and> h \<ge> nInstantSendV2ActivationHeight p
      then llmqTypeDIP0024InstantSendV2 p else llmqTypeDIP0024InstantSend p)"

definition GetDkgBadVotesThreshold :: "Params \<Rightarrow> LLMQParams \<Rightarrow> int \<Rightarrow> int" where
  "GetDkgBadVotesThreshold p q h =
     (if dkgBadVotesThresholdV2 q > 0 \<and> h \<ge> nDkgBadVotesV2ActivationHeight p
      then dkgBadVotesThresholdV2 q else dkgBadVotesThreshold q)"

definition GetQuorumFormationEndHeight :: "Params \<Rightarrow> LLMQType \<Rightarrow> int" where
  "GetQuorumFormationEndHeight p t =
     (case llmqFormationEndHeights p t of None \<Rightarrow> UNSET | Some e \<Rightarrow> e)"

text \<open>The gate for the block after a block of height \<open>prev\<close>; \<^verbatim>\<open>throw\<close> of an unknown type is
  \<open>AssertFailed\<close> here, as is the assertion on the registered profile.\<close>

definition IsQuorumTypeEnabledInternal :: "Params \<Rightarrow> network \<Rightarrow> bool \<Rightarrow> LLMQType \<Rightarrow> int \<Rightarrow> abort + bool" where
  "IsQuorumTypeEnabledInternal p net testdummy t prev =
     (if prev + 1 \<ge> GetQuorumFormationEndHeight p t then Inr False
      else case t of
        LLMQ_DEVNET \<Rightarrow> Inr True
      | LLMQ_DEFCON \<Rightarrow>
          if nChainLocksV2ActivationHeight p = UNSET then Inr False
          else if GetLLMQ p t = None then Inl AssertFailed
          else map_sum id (\<lambda>lead. prev + 1 \<ge> nChainLocksV2ActivationHeight p - lead) (ChainLocksV2FormationLead p)
      | LLMQ_25_67 \<Rightarrow> Inr (net = DEVNET)
      | LLMQ_50_60 \<Rightarrow> Inr (net = DEVNET)
      | LLMQ_60_75 \<Rightarrow> Inr (net = DEVNET)
      | LLMQ_TEST_INSTANTSEND \<Rightarrow> Inr True
      | LLMQ_TEST \<Rightarrow> Inr True
      | LLMQ_TEST_PLATFORM \<Rightarrow> Inr True
      | LLMQ_400_60 \<Rightarrow> Inr True
      | LLMQ_400_85 \<Rightarrow> Inr True
      | LLMQ_DEVNET_PLATFORM \<Rightarrow> Inr True
      | LLMQ_TEST_V17 \<Rightarrow> Inr testdummy
      | LLMQ_100_67 \<Rightarrow> Inr False
      | LLMQ_NONE \<Rightarrow> Inl AssertFailed)"

definition IsQuorumTypeEnabled ::
  "Params \<Rightarrow> network \<Rightarrow> (ptr \<Rightarrow> bool) \<Rightarrow> block_store \<Rightarrow> LLMQType \<Rightarrow> ptr option \<Rightarrow> abort + bool" where
  "IsQuorumTypeEnabled p net testdummy st t pindexPrev =
     (case pindexPrev of
        None \<Rightarrow> Inr False
      | Some q \<Rightarrow>
          (case st q of
             None \<Rightarrow> Inl NullDeref
           | Some b \<Rightarrow> IsQuorumTypeEnabledInternal p net (testdummy q) t (nHeight b)))"

fun enabled_types ::
  "Params \<Rightarrow> network \<Rightarrow> (ptr \<Rightarrow> bool) \<Rightarrow> block_store \<Rightarrow> ptr \<Rightarrow> LLMQParams list \<Rightarrow> abort + LLMQParams list" where
  "enabled_types p net td st pindex [] = Inr []"
| "enabled_types p net td st pindex (q # qs) =
     sum_bind (IsQuorumTypeEnabled p net td st (llmq_type q) (Some pindex)) (\<lambda>e.
       map_sum id (\<lambda>r. if e then q # r else r) (enabled_types p net td st pindex qs))"

definition GetEnabledQuorumParams ::
  "Params \<Rightarrow> network \<Rightarrow> (ptr \<Rightarrow> bool) \<Rightarrow> block_store \<Rightarrow> ptr \<Rightarrow> abort + LLMQParams list" where
  "GetEnabledQuorumParams p net td st pindex = enabled_types p net td st pindex (llmqs p)"

definition GetEnabledQuorumTypes ::
  "Params \<Rightarrow> network \<Rightarrow> (ptr \<Rightarrow> bool) \<Rightarrow> block_store \<Rightarrow> ptr \<Rightarrow> abort + LLMQType list" where
  "GetEnabledQuorumTypes p net td st pindex =
     map_sum id (map llmq_type) (enabled_types p net td st pindex (llmqs p))"

definition IsQuorumCycleEnabled ::
  "Params \<Rightarrow> network \<Rightarrow> (ptr \<Rightarrow> bool) \<Rightarrow> block_store \<Rightarrow> LLMQType \<Rightarrow> ptr \<Rightarrow> int \<Rightarrow> abort + bool" where
  "IsQuorumCycleEnabled p net td st t tip cycle_base_height =
     (case st tip of
        None \<Rightarrow> Inl NullDeref
      | Some b \<Rightarrow>
          if cycle_base_height - 1 \<le> nHeight b
          then sum_bind (GetAncestor st tip (cycle_base_height - 1)) (\<lambda>predecessor.
                 if predecessor = None then Inr False else IsQuorumTypeEnabled p net td st t predecessor)
          else if cycle_base_height \<ge> GetQuorumFormationEndHeight p t then Inr False
          else IsQuorumTypeEnabledInternal p net (td tip) t (nHeight b))"

fun blocks_until_dkg ::
  "Params \<Rightarrow> network \<Rightarrow> (ptr \<Rightarrow> bool) \<Rightarrow> block_store \<Rightarrow> ptr \<Rightarrow> int \<Rightarrow> LLMQParams list \<Rightarrow> int \<Rightarrow> abort + int" where
  "blocks_until_dkg p net td st tip h [] blocks = Inr blocks"
| "blocks_until_dkg p net td st tip h (q # qs) blocks =
     (let stage = cmod h (dkgInterval q); cycle_base = h - stage in
      sum_bind (IsQuorumCycleEnabled p net td st (llmq_type q) tip (cycle_base + dkgInterval q)) (\<lambda>e.
        blocks_until_dkg p net td st tip h qs (if e then min blocks (dkgInterval q - stage) else blocks)))"

definition GetBlocksUntilNextDKG ::
  "Params \<Rightarrow> network \<Rightarrow> (ptr \<Rightarrow> bool) \<Rightarrow> block_store \<Rightarrow> ptr \<Rightarrow> abort + int" where
  "GetBlocksUntilNextDKG p net td st tip =
     (case st tip of
        None \<Rightarrow> Inl NullDeref
      | Some b \<Rightarrow> blocks_until_dkg p net td st tip (nHeight b) (llmqs p) INT32_MAX)"

section \<open>Roles and retirement\<close>

lemma config_paired:
  assumes "CheckLLMQConfiguration p = Inr ()"
  shows "llmqTypeChainLocksV2 p = LLMQ_NONE \<longleftrightarrow> nChainLocksV2ActivationHeight p = UNSET"
    and "llmqTypeDIP0024InstantSendV2 p = LLMQ_NONE \<longleftrightarrow> nInstantSendV2ActivationHeight p = UNSET"
    and "llmqTypeChainLocksV2 p \<noteq> LLMQ_NONE \<Longrightarrow> GetLLMQ p (llmqTypeChainLocksV2 p) \<noteq> None"
    and "nInstantSendV2ActivationHeight p \<noteq> UNSET \<Longrightarrow> nChainLocksV2ActivationHeight p \<le> nInstantSendV2ActivationHeight p"
  using assms unfolding CheckLLMQConfiguration_def check_seq_ok
  by (auto simp: require_paired_def require_registered_def)

lemma in_all_llmq_types: "t \<in> set all_llmq_types"
  by (cases t) (simp_all add: all_llmq_types_def)

lemma config_formation_end:
  assumes "CheckLLMQConfiguration p = Inr ()" "llmqFormationEndHeights p t = Some e"
  shows "t \<noteq> llmqTypeChainLocksV2 p" "t \<noteq> llmqTypeDIP0024InstantSendV2 p"
    "t = llmqTypeChainLocks p \<Longrightarrow> nChainLocksV2ActivationHeight p < e"
    "t = llmqTypeDIP0024InstantSend p \<Longrightarrow> nInstantSendV2ActivationHeight p < e"
    "t \<noteq> llmqTypePlatform p"
proof -
  have "list_all (\<lambda>c. \<not> fst c) (formation_end_checks p t e)"
    using assms in_all_llmq_types [of t] unfolding CheckLLMQConfiguration_def check_seq_ok
    by (fastforce simp: list_all_iff)
  then show "t \<noteq> llmqTypeChainLocksV2 p" "t \<noteq> llmqTypeDIP0024InstantSendV2 p"
    "t = llmqTypeChainLocks p \<Longrightarrow> nChainLocksV2ActivationHeight p < e"
    "t = llmqTypeDIP0024InstantSend p \<Longrightarrow> nInstantSendV2ActivationHeight p < e"
    "t \<noteq> llmqTypePlatform p"
    by (auto simp: formation_end_checks_def split: option.splits)
qed

lemma resolved_not_retired:
  assumes cfg: "CheckLLMQConfiguration p = Inr ()" and h: "h < UNSET - 1"
  shows "h + 1 < GetQuorumFormationEndHeight p (GetChainLocksLLMQType p h)"
    and "h + 1 < GetQuorumFormationEndHeight p (GetInstantSendLLMQType p h)"
proof -
  note pair = config_paired [OF cfg]
  show "h + 1 < GetQuorumFormationEndHeight p (GetChainLocksLLMQType p h)"
  proof (cases "llmqFormationEndHeights p (GetChainLocksLLMQType p h)")
    case (Some e)
    note c = config_formation_end [OF cfg Some]
    then have t: "GetChainLocksLLMQType p h = llmqTypeChainLocks p"
      "\<not> (llmqTypeChainLocksV2 p \<noteq> LLMQ_NONE \<and> h \<ge> nChainLocksV2ActivationHeight p)"
      unfolding GetChainLocksLLMQType_def by (auto split: if_splits)
    then show ?thesis using c(3) Some pair(1) h by (auto simp: GetQuorumFormationEndHeight_def)
  qed (use h in \<open>simp add: GetQuorumFormationEndHeight_def\<close>)
  show "h + 1 < GetQuorumFormationEndHeight p (GetInstantSendLLMQType p h)"
  proof (cases "llmqFormationEndHeights p (GetInstantSendLLMQType p h)")
    case (Some e)
    note c = config_formation_end [OF cfg Some]
    then have t: "GetInstantSendLLMQType p h = llmqTypeDIP0024InstantSend p"
      "\<not> (llmqTypeDIP0024InstantSendV2 p \<noteq> LLMQ_NONE \<and> h \<ge> nInstantSendV2ActivationHeight p)"
      unfolding GetInstantSendLLMQType_def by (auto split: if_splits)
    then show ?thesis using c(4) Some pair(2) h by (auto simp: GetQuorumFormationEndHeight_def)
  qed (use h in \<open>simp add: GetQuorumFormationEndHeight_def\<close>)
qed

section \<open>The switchover\<close>

lemma formation_lead_defcon:
  assumes "CheckLLMQConfiguration p = Inr ()" "llmqTypeChainLocksV2 p = LLMQ_DEFCON"
  shows "ChainLocksV2FormationLead p = Inr 120" "nChainLocksV2ActivationHeight p \<noteq> UNSET"
  using config_paired(1) [OF assms(1)] assms(2) find_defcon
  by (auto simp: ChainLocksV2FormationLead_def profile_llmq_defcon_def)

lemma defcon_enabled:
  assumes cfg: "CheckLLMQConfiguration p = Inr ()" "llmqTypeChainLocksV2 p = LLMQ_DEFCON" and "h < UNSET"
  shows "IsQuorumTypeEnabledInternal p net td LLMQ_DEFCON (h - 1) = Inr (nChainLocksV2ActivationHeight p - 120 \<le> h)"
proof -
  have "llmqFormationEndHeights p LLMQ_DEFCON = None"
    using config_formation_end(1) [OF cfg(1), of LLMQ_DEFCON] cfg(2) by (cases "llmqFormationEndHeights p LLMQ_DEFCON") auto
  then have "\<not> h - 1 + 1 \<ge> GetQuorumFormationEndHeight p LLMQ_DEFCON"
    using assms(3) by (simp add: GetQuorumFormationEndHeight_def)
  moreover have "GetLLMQ p LLMQ_DEFCON \<noteq> None" using config_paired(3) [OF cfg(1)] cfg(2) by simp
  ultimately show ?thesis
    using formation_lead_defcon [OF cfg] by (simp add: IsQuorumTypeEnabledInternal_def)
qed

section \<open>Next DKG\<close>

lemma blocks_until_dkg_bounds:
  assumes "blocks_until_dkg p net td st tip h qs m = Inr r" "0 \<le> h" "\<forall>q\<in>set qs. 0 < dkgInterval q" "0 < m"
  shows "0 < r \<and> r \<le> m \<and> (r = m \<or> (\<exists>q\<in>set qs. (h + r) mod dkgInterval q = 0 \<and> r \<le> dkgInterval q \<and>
    IsQuorumCycleEnabled p net td st (llmq_type q) tip (h + r) = Inr True))"
  using assms
proof (induction qs arbitrary: m)
  case (Cons q qs)
  define s where "s = h mod dkgInterval q"
  have s: "cmod h (dkgInterval q) = s" "0 \<le> s" "s < dkgInterval q" using Cons.prems by (auto simp: s_def)
  obtain e where e: "IsQuorumCycleEnabled p net td st (llmq_type q) tip (h - s + dkgInterval q) = Inr e"
    and r: "blocks_until_dkg p net td st tip h qs (if e then min m (dkgInterval q - s) else m) = Inr r"
    using Cons.prems(1) s by (auto simp: Let_def sum_bind_ok)
  let ?m = "if e then min m (dkgInterval q - s) else m"
  have ih: "0 < r \<and> r \<le> ?m \<and> (r = ?m \<or> (\<exists>q\<in>set qs. (h + r) mod dkgInterval q = 0 \<and> r \<le> dkgInterval q \<and>
      IsQuorumCycleEnabled p net td st (llmq_type q) tip (h + r) = Inr True))"
    using Cons.IH [OF r] Cons.prems s by auto
  have "h + (dkgInterval q - s) = dkgInterval q * (h div dkgInterval q + 1)"
    using minus_mod_eq_mult_div [of h "dkgInterval q"] by (simp add: s_def algebra_simps)
  then have "(h + (dkgInterval q - s)) mod dkgInterval q = 0" by simp
  moreover have "IsQuorumCycleEnabled p net td st (llmq_type q) tip (h + (dkgInterval q - s)) = Inr e"
    using e by (simp add: add_diff_eq diff_add_eq)
  ultimately have mine: "e \<Longrightarrow> r = dkgInterval q - s \<Longrightarrow> (h + r) mod dkgInterval q = 0 \<and> r \<le> dkgInterval q \<and>
      IsQuorumCycleEnabled p net td st (llmq_type q) tip (h + r) = Inr True" using s by simp
  have "r = ?m \<Longrightarrow> r = m \<or> e \<and> r = dkgInterval q - s" by (auto simp: min_def split: if_splits)
  moreover have "?m \<le> m" by auto
  ultimately show ?case using ih mine by fastforce
qed simp

section \<open>Properties\<close>

lemma main_config_ok:
  obtains p where "CMainParams = Inr p" "CheckLLMQConfiguration p = Inr ()" "llmqTypeChainLocksV2 p = LLMQ_DEFCON"
    "nChainLocksV2ActivationHeight p = 144888"
proof (rule that [OF CMainParams_eq])
  show "CheckLLMQConfiguration (v23_scheduled main_params 144888) = Inr ()"
    by (simp add: CheckLLMQConfiguration_def check_seq_ok require_registered_def require_paired_def GetLLMQ_def
        find_llmq_def v23_scheduled_def main_params_def profile_defs all_llmq_types_def UNSET_def INT32_MAX_def)
qed (simp_all add: v23_scheduled_def)



text \<open>\<^bold>\<open>C22\<close>: the ChainLock switchover to the Q60 profile. Under a checked configuration the profile's
  formation gate opens exactly five DKG intervals before the activation height, ChainLocks are
  paused exactly from there to the activation height, from which on the resolver names the
  profile; and every quorum cycle whose base lies in the window has its mining window closed
  before the activation height when that is on the DKG grid.\<close>

theorem chainlock_switchover:
  assumes "CheckLLMQConfiguration p = Inr ()" "llmqTypeChainLocksV2 p = LLMQ_DEFCON" "h < UNSET"
  defines "act \<equiv> nChainLocksV2ActivationHeight p"
  shows "IsQuorumTypeEnabledInternal p net td LLMQ_DEFCON (h - 1) = Inr (act - 5 * dkgInterval profile_llmq_defcon \<le> h) \<and>
    IsChainLockPaused p h = Inr (act - 5 * dkgInterval profile_llmq_defcon \<le> h \<and> h < act) \<and>
    (act \<le> h \<longrightarrow> GetChainLocksLLMQType p h = LLMQ_DEFCON) \<and>
    (h < act \<longrightarrow> GetChainLocksLLMQType p h = llmqTypeChainLocks p) \<and>
    (24 dvd act \<and> 24 dvd h \<and> h < act \<longrightarrow> h + dkgMiningWindowEnd profile_llmq_defcon < act)"
proof -
  have "h + 24 \<le> act" if "24 dvd act" "24 dvd h" "h < act" using that by presburger
  moreover have "dkgMiningWindowEnd profile_llmq_defcon = 18" by (simp add: profile_llmq_defcon_def)
  ultimately show ?thesis
    using defcon_enabled [OF assms(1-3), of net td] formation_lead_defcon [OF assms(1,2)] assms(2)
    by (auto simp: IsChainLockPaused_def GetChainLocksLLMQType_def act_def)
qed

theorem chainlock_switchover_witness:
  "\<exists>p. CMainParams = Inr p \<and> CheckLLMQConfiguration p = Inr () \<and> llmqTypeChainLocksV2 p = LLMQ_DEFCON \<and>
     IsChainLockPaused p 144768 = Inr True \<and> GetChainLocksLLMQType p 144888 = LLMQ_DEFCON"
proof -
  obtain p where p: "CMainParams = Inr p" "CheckLLMQConfiguration p = Inr ()" "llmqTypeChainLocksV2 p = LLMQ_DEFCON"
    "nChainLocksV2ActivationHeight p = 144888" by (rule main_config_ok)
  then show ?thesis
    using chainlock_switchover [OF p(2,3), of 144768] chainlock_switchover [OF p(2,3), of 144888]
    by (auto simp: UNSET_def INT32_MAX_def)
qed

end
