(* ===== verification/Serialization.thy ===== *)
theory Serialization
  imports Defcon_Prelude
begin

text \<open>
  The wire format primitives of \<^verbatim>\<open>src/src/serialize.h\<close>: fixed-width little and big endian
  integers, compact sizes, variable-length integers, byte vectors, vectors of elements, and the
  three bit set encodings. A stream is the list of bytes still to be read; a reader returns the
  value and the rest of the stream, or the \<^verbatim>\<open>std::ios_base::failure\<close> it throws.

  The locale \<open>codec\<close> is the interface between an element format and the containers built from
  it: an encoder, a decoder, and the law that decoding an encoded valid value gives it back and
  leaves the rest of the stream alone. Vectors and pairs are handled once, inside the locale.
\<close>

section \<open>Model\<close>

datatype ser_error =
  EndOfData | NonCanonicalSize | SizeTooLarge | VectorLimitExceeded | BitSetTooLong | OutOfRangeBits |
  IndexOutOfRange | OffsetOverflow | InvalidBitSetKind | MalleableBls

type_synonym stream = "byte list"
type_synonym 'a reader = "stream \<Rightarrow> ser_error + 'a \<times> stream"

definition MAX_SIZE :: nat where "MAX_SIZE = 0x02000000"

definition read_bytes :: "nat \<Rightarrow> byte list reader" where
  "read_bytes n s = (if length s < n then Inl EndOfData else Inr (take n s, drop n s))"

subsection \<open>Fixed-width integers\<close>

primrec le_bytes :: "nat \<Rightarrow> nat \<Rightarrow> byte list" where
  "le_bytes 0 n = []"
| "le_bytes (Suc k) n = of_nat (n mod 256) # le_bytes k (n div 256)"

primrec le_value :: "byte list \<Rightarrow> nat" where
  "le_value [] = 0"
| "le_value (b # bs) = unat b + 256 * le_value bs"

definition ser_writedata8 :: "u8 \<Rightarrow> byte list" where "ser_writedata8 obj = [obj]"
definition ser_writedata16 :: "u16 \<Rightarrow> byte list" where "ser_writedata16 obj = le_bytes 2 (unat obj)"
definition ser_writedata16be :: "u16 \<Rightarrow> byte list" where "ser_writedata16be obj = rev (le_bytes 2 (unat obj))"
definition ser_writedata32 :: "u32 \<Rightarrow> byte list" where "ser_writedata32 obj = le_bytes 4 (unat obj)"
definition ser_writedata32be :: "u32 \<Rightarrow> byte list" where "ser_writedata32be obj = rev (le_bytes 4 (unat obj))"
definition ser_writedata64 :: "u64 \<Rightarrow> byte list" where "ser_writedata64 obj = le_bytes 8 (unat obj)"

definition read_word :: "nat \<Rightarrow> bool \<Rightarrow> ('a :: len) word reader" where
  "read_word k be s =
     sum_bind (read_bytes k s) (\<lambda>(bs, r). Inr (of_nat (le_value (if be then rev bs else bs)), r))"

definition ser_readdata8 :: "u8 reader" where "ser_readdata8 = read_word 1 False"
definition ser_readdata16 :: "u16 reader" where "ser_readdata16 = read_word 2 False"
definition ser_readdata16be :: "u16 reader" where "ser_readdata16be = read_word 2 True"
definition ser_readdata32 :: "u32 reader" where "ser_readdata32 = read_word 4 False"
definition ser_readdata32be :: "u32 reader" where "ser_readdata32be = read_word 4 True"
definition ser_readdata64 :: "u64 reader" where "ser_readdata64 = read_word 8 False"

subsection \<open>Compact sizes\<close>

definition GetSizeOfCompactSize :: "u64 \<Rightarrow> nat" where
  "GetSizeOfCompactSize nSize =
     (if nSize < 253 then 1 else if nSize \<le> 0xffff then 1 + 2 else if nSize \<le> 0xffffffff then 1 + 4 else 1 + 8)"

definition WriteCompactSize :: "u64 \<Rightarrow> byte list" where
  "WriteCompactSize nSize =
     (if nSize < 253 then ser_writedata8 (ucast nSize)
      else if nSize \<le> 0xffff then ser_writedata8 253 @ ser_writedata16 (ucast nSize)
      else if nSize \<le> 0xffffffff then ser_writedata8 254 @ ser_writedata32 (ucast nSize)
      else ser_writedata8 255 @ ser_writedata64 nSize)"

definition ReadCompactSize :: "bool \<Rightarrow> u64 reader" where
  "ReadCompactSize range_check s =
     sum_bind (ser_readdata8 s) (\<lambda>(chSize, s).
     sum_bind
       (if chSize < 253 then Inr (ucast chSize, s)
        else if chSize = 253 then
          sum_bind (ser_readdata16 s) (\<lambda>(n, s). if n < 253 then Inl NonCanonicalSize else Inr (ucast n, s))
        else if chSize = 254 then
          sum_bind (ser_readdata32 s) (\<lambda>(n, s). if n < 0x10000 then Inl NonCanonicalSize else Inr (ucast n, s))
        else
          sum_bind (ser_readdata64 s) (\<lambda>(n, s). if n < 0x100000000 then Inl NonCanonicalSize else Inr (n, s)))
       (\<lambda>(nSizeRet, s).
          if range_check \<and> unat nSizeRet > MAX_SIZE then Inl SizeTooLarge else Inr (nSizeRet, s)))"

subsection \<open>Variable-length integers\<close>

text \<open>The integer type \<^verbatim>\<open>I\<close> enters through its largest value \<open>M\<close>; the tests of \<^verbatim>\<open>ReadVarInt\<close> keep
  the accumulator within it, so natural-number arithmetic is the arithmetic of the type.\<close>

fun write_varint_loop :: "nat \<Rightarrow> bool \<Rightarrow> byte list \<Rightarrow> byte list" where
  "write_varint_loop n first tmp =
     (let tmp = (of_nat (n mod 128) OR (if first then 0 else 0x80)) # tmp
      in if n \<le> 0x7f then tmp else write_varint_loop (n div 128 - 1) False tmp)"

declare write_varint_loop.simps [simp del]

definition WriteVarInt :: "nat \<Rightarrow> byte list" where
  "WriteVarInt n = write_varint_loop n True []"

fun GetSizeOfVarInt :: "nat \<Rightarrow> nat" where
  "GetSizeOfVarInt n = (if n \<le> 0x7f then 1 else 1 + GetSizeOfVarInt (n div 128 - 1))"

declare GetSizeOfVarInt.simps [simp del]

fun read_varint_loop :: "nat \<Rightarrow> nat \<Rightarrow> nat reader" where
  "read_varint_loop M n [] = Inl EndOfData"
| "read_varint_loop M n (chData # s) =
     (if n > M div 128 then Inl SizeTooLarge
      else
        let n = n * 128 + unat (chData AND 0x7f) in
        if chData AND 0x80 \<noteq> 0 then
          (if n = M then Inl SizeTooLarge else read_varint_loop M (n + 1) s)
        else Inr (n, s))"

definition ReadVarInt :: "nat \<Rightarrow> nat reader" where
  "ReadVarInt M = read_varint_loop M 0"

subsection \<open>Vectors\<close>

text \<open>A vector of bytes is read in blocks of at most 5000000.\<close>

function read_blocks :: "nat \<Rightarrow> byte list reader" where
  "read_blocks n s =
     (if n = 0 then Inr ([], s)
      else
        let blk = min n (1 + 4999999) in
        sum_bind (read_bytes blk s) (\<lambda>(bs, s).
        sum_bind (read_blocks (n - blk) s) (\<lambda>(cs, s). Inr (bs @ cs, s))))"
  by pat_completeness auto
termination by (relation "measure fst") auto

declare read_blocks.simps [simp del]

definition SerBytes :: "byte list \<Rightarrow> byte list" where
  "SerBytes v = WriteCompactSize (of_nat (length v)) @ v"

definition UnserBytes :: "byte list reader" where
  "UnserBytes s = sum_bind (ReadCompactSize True s) (\<lambda>(n, s). read_blocks (unat n) s)"

primrec UnserializeVectorContents :: "'a reader \<Rightarrow> nat \<Rightarrow> 'a list reader" where
  "UnserializeVectorContents dec 0 s = Inr ([], s)"
| "UnserializeVectorContents dec (Suc n) s =
     sum_bind (dec s) (\<lambda>(x, s). sum_bind (UnserializeVectorContents dec n s) (\<lambda>(xs, s). Inr (x # xs, s)))"

definition SerVector :: "('a \<Rightarrow> byte list) \<Rightarrow> 'a list \<Rightarrow> byte list" where
  "SerVector enc v = WriteCompactSize (of_nat (length v)) @ concat (map enc v)"

definition UnserVector :: "'a reader \<Rightarrow> 'a list reader" where
  "UnserVector dec s =
     sum_bind (ReadCompactSize True s) (\<lambda>(n, s). UnserializeVectorContents dec (unat n) s)"

definition UnserLimitedVector :: "nat \<Rightarrow> 'a reader \<Rightarrow> 'a list reader" where
  "UnserLimitedVector Limit dec s =
     sum_bind (ReadCompactSize True s) (\<lambda>(n, s).
       if unat n > Limit then Inl VectorLimitExceeded else UnserializeVectorContents dec (unat n) s)"

definition SerPair :: "('a \<Rightarrow> byte list) \<Rightarrow> ('b \<Rightarrow> byte list) \<Rightarrow> 'a \<times> 'b \<Rightarrow> byte list" where
  "SerPair e1 e2 p = e1 (fst p) @ e2 (snd p)"

definition UnserPair :: "'a reader \<Rightarrow> 'b reader \<Rightarrow> ('a \<times> 'b) reader" where
  "UnserPair d1 d2 s = sum_bind (d1 s) (\<lambda>(x, s). sum_bind (d2 s) (\<lambda>(y, s). Inr ((x, y), s)))"

subsection \<open>Bit sets\<close>

definition GetSizeOfFixedBitSet :: "nat \<Rightarrow> nat" where
  "GetSizeOfFixedBitSet nbits = (nbits + 7) div 8"

definition WriteFixedBitSet :: "bool list \<Rightarrow> nat \<Rightarrow> byte list" where
  "WriteFixedBitSet vec nbits =
     foldl (\<lambda>vBytes p. vBytes[p div 8 := vBytes ! (p div 8) OR push_bit (p mod 8) (of_bool (vec ! p))])
       (replicate ((nbits + 7) div 8) 0) [0..<min nbits (length vec)]"

definition ReadFixedBitSet :: "nat \<Rightarrow> bool list reader" where
  "ReadFixedBitSet nbits s =
     (let nbytes = (nbits + 7) div 8 in
      if nbytes > length s then Inl BitSetTooLong
      else
        sum_bind (read_bytes nbytes s) (\<lambda>(vBytes, s).
          let vec = map (\<lambda>p. vBytes ! (p div 8) AND push_bit (p mod 8) 1 \<noteq> 0) [0..<nbits];
              rem = length vBytes * 8 - nbits;
              m = NOT (drop_bit rem 0xff) :: u8
          in if length vBytes * 8 \<noteq> nbits \<and> vBytes ! (length vBytes - 1) AND m \<noteq> 0
             then Inl OutOfRangeBits else Inr (vec, s)))"

fun write_varints_loop :: "nat \<Rightarrow> nat option \<Rightarrow> bool list \<Rightarrow> byte list" where
  "write_varints_loop i prev [] = []"
| "write_varints_loop i prev (b # bs) =
     (if b then
        WriteVarInt ((case prev of Some l \<Rightarrow> i - l | None \<Rightarrow> i + 1) mod 2 ^ 32) @ write_varints_loop (i + 1) (Some i) bs
      else write_varints_loop (i + 1) prev bs)"

definition WriteFixedVarIntsBitSet :: "bool list \<Rightarrow> byte list" where
  "WriteFixedVarIntsBitSet vec = write_varints_loop 0 None vec @ WriteVarInt 0"

lemma read_varint_loop_consumes: "read_varint_loop M n s = Inr (x, r) \<Longrightarrow> length r < length s"
  by (induction M n s rule: read_varint_loop.induct) (fastforce simp: Let_def split: if_splits)+

function read_varints_loop :: "nat \<Rightarrow> bool list \<Rightarrow> nat option \<Rightarrow> bool list reader" where
  "read_varints_loop nbits vec prev s =
     (case ReadVarInt (2 ^ 32 - 1) s of
        Inl e \<Rightarrow> Inl e
      | Inr (offset, s') \<Rightarrow>
          if offset = 0 then Inr (vec, s')
          else
            let idx = (case prev of Some l \<Rightarrow> l + offset | None \<Rightarrow> offset - 1) in
            if idx \<ge> nbits then Inl IndexOutOfRange
            else if (case prev of Some l \<Rightarrow> idx \<le> l | None \<Rightarrow> False) then Inl OffsetOverflow
            else read_varints_loop nbits (vec[idx := True]) (Some idx) s')"
  by pat_completeness auto
termination
  by (relation "measure (\<lambda>(_, _, _, s). length s)") (auto simp: ReadVarInt_def dest: read_varint_loop_consumes)

declare read_varints_loop.simps [simp del]

definition ReadFixedVarIntsBitSet :: "nat \<Rightarrow> bool list reader" where
  "ReadFixedVarIntsBitSet nbits = read_varints_loop nbits (replicate nbits False) None"

text \<open>The shorter of the two encodings is chosen when writing.\<close>

definition WriteAutoBitSet :: "bool list \<Rightarrow> byte list" where
  "WriteAutoBitSet vec =
     (let size1 = length (WriteFixedBitSet vec (length vec));
          size2 = length (WriteFixedVarIntsBitSet vec)
      in if size1 < size2 then ser_writedata8 0 @ WriteFixedBitSet vec (length vec)
         else ser_writedata8 1 @ WriteFixedVarIntsBitSet vec)"

definition ReadAutoBitSet :: "nat \<Rightarrow> bool list reader" where
  "ReadAutoBitSet nbits s =
     sum_bind (ser_readdata8 s) (\<lambda>(isVarInts, s).
       if isVarInts \<noteq> 0 \<and> isVarInts \<noteq> 1 then Inl InvalidBitSetKind
       else if isVarInts = 0 then ReadFixedBitSet nbits s
       else ReadFixedVarIntsBitSet nbits s)"

definition SerDynamicBitSet :: "bool list \<Rightarrow> byte list" where
  "SerDynamicBitSet vec = WriteCompactSize (of_nat (length vec)) @ WriteFixedBitSet vec (length vec)"

definition UnserDynamicBitSet :: "bool list reader" where
  "UnserDynamicBitSet s = sum_bind (ReadCompactSize True s) (\<lambda>(n, s). ReadFixedBitSet (unat n) s)"

section \<open>Integers\<close>

lemma read_bytes_append [simp]: "read_bytes (length bs) (bs @ s) = Inr (bs, s)"
  by (simp add: read_bytes_def)

lemma read_bytes_ok: "read_bytes n s = Inr (bs, r) \<longleftrightarrow> s = bs @ r \<and> length bs = n"
  by (auto simp: read_bytes_def)

lemma length_le_bytes [simp]: "length (le_bytes k n) = k"
  by (induction k arbitrary: n) simp_all

lemma le_value_le_bytes: "le_value (le_bytes k n) = n mod 256 ^ k"
proof (induction k arbitrary: n)
  case (Suc k)
  have "unat (of_nat (n mod 256) :: byte) = n mod 256" by (simp add: unat_of_nat)
  then show ?case by (simp add: Suc mod_mult2_eq)
qed simp

lemma le_bytes_le_value: "le_bytes (length bs) (le_value bs) = bs"
proof (induction bs)
  case (Cons b bs)
  have "unat b < 256" using unsigned_less [of b] by simp
  then show ?case by (simp add: Cons)
qed simp

lemma unat_u8_less: "unat (x :: u8) < 256" using unsigned_less [of x] by simp
lemma unat_u16_less: "unat (x :: u16) < 65536" using unsigned_less [of x] by simp

lemma le_value_less: "le_value bs < 256 ^ length bs"
proof (induction bs)
  case (Cons b bs)
  then have "le_value bs + 1 \<le> 256 ^ length bs" by simp
  then have "256 * (le_value bs + 1) \<le> 256 ^ length (b # bs)" by simp
  then show ?case using unat_u8_less [of b] by simp
qed simp

text \<open>A fixed-width read succeeds exactly on the bytes the write produces.\<close>

lemma read_word_iff:
  assumes "LENGTH('a) = 8 * k"
  shows "read_word k be s = Inr (x :: ('a :: len) word, r) \<longleftrightarrow>
    s = (if be then rev (le_bytes k (unat x)) else le_bytes k (unat x)) @ r"
proof -
  have lt: "unat x < 2 ^ LENGTH('a)" by (rule unsigned_less)
  have pw: "(2 :: nat) ^ LENGTH('a) = 256 ^ k" using assms by (simp add: power_mult)
  have dec: "x = of_nat (le_value bs) \<longleftrightarrow> bs = le_bytes k (unat x)" if "length bs = k" for bs
  proof
    assume "x = of_nat (le_value bs)"
    moreover have "le_value bs < 2 ^ LENGTH('a)" using le_value_less [of bs] unfolding that pw .
    ultimately have "unat x = le_value bs" by (simp only: unsigned_of_nat take_bit_nat_eq_self of_nat_id)
    then show "bs = le_bytes k (unat x)" using le_bytes_le_value [of bs] that by simp
  next
    assume "bs = le_bytes k (unat x)"
    then show "x = of_nat (le_value bs)" using lt
      by (simp only: le_value_le_bytes mod_less flip: pw) simp
  qed
  have "read_word k be s = Inr (x, r) \<longleftrightarrow>
      (\<exists>bs. s = bs @ r \<and> length bs = k \<and> x = of_nat (le_value (if be then rev bs else bs)))"
    by (simp add: read_word_def sum_bind_ok read_bytes_ok) metis
  also have "\<dots> \<longleftrightarrow> s = (if be then rev (le_bytes k (unat x)) else le_bytes k (unat x)) @ r"
  proof (cases be)
    case True
    have "length bs = k \<and> x = of_nat (le_value (rev bs)) \<longleftrightarrow> bs = rev (le_bytes k (unat x))" for bs
      using dec [of "rev bs"] by (auto simp: rev_swap)
    then show ?thesis using True by simp
  next
    case False
    have "length bs = k \<and> x = of_nat (le_value bs) \<longleftrightarrow> bs = le_bytes k (unat x)" for bs
      using dec [of bs] by auto
    then show ?thesis using False by simp
  qed
  finally show ?thesis .
qed

lemma le_bytes_1: "le_bytes 1 (unat (x :: u8)) = [x]"
  using unat_u8_less [of x] by simp

lemma read_int_iff:
  "ser_readdata8 s = Inr (x8, r) \<longleftrightarrow> s = ser_writedata8 x8 @ r"
  "ser_readdata16 s = Inr (x16, r) \<longleftrightarrow> s = ser_writedata16 x16 @ r"
  "ser_readdata16be s = Inr (x16, r) \<longleftrightarrow> s = ser_writedata16be x16 @ r"
  "ser_readdata32 s = Inr (x32, r) \<longleftrightarrow> s = ser_writedata32 x32 @ r"
  "ser_readdata32be s = Inr (x32, r) \<longleftrightarrow> s = ser_writedata32be x32 @ r"
  "ser_readdata64 s = Inr (x64, r) \<longleftrightarrow> s = ser_writedata64 x64 @ r"
  using read_word_iff [of 1 False s x8 r] read_word_iff [of 2 False s x16 r] read_word_iff [of 2 True s x16 r]
    read_word_iff [of 4 False s x32 r] read_word_iff [of 4 True s x32 r] read_word_iff [of 8 False s x64 r]
  unfolding ser_readdata8_def ser_readdata16_def ser_readdata16be_def ser_readdata32_def ser_readdata32be_def
    ser_readdata64_def ser_writedata8_def ser_writedata16_def ser_writedata16be_def ser_writedata32_def
    ser_writedata32be_def ser_writedata64_def le_bytes_1
  by (simp_all del: le_bytes.simps)

lemma read_write_int [simp]:
  "ser_readdata8 (ser_writedata8 x8 @ s) = Inr (x8, s)"
  "ser_readdata16 (ser_writedata16 x16 @ s) = Inr (x16, s)"
  "ser_readdata16be (ser_writedata16be x16 @ s) = Inr (x16, s)"
  "ser_readdata32 (ser_writedata32 x32 @ s) = Inr (x32, s)"
  "ser_readdata32be (ser_writedata32be x32 @ s) = Inr (x32, s)"
  "ser_readdata64 (ser_writedata64 x64 @ s) = Inr (x64, s)"
  by (simp_all add: read_int_iff)

lemma length_write_int [simp]:
  "length (ser_writedata8 x8) = 1" "length (ser_writedata16 x16) = 2" "length (ser_writedata16be x16) = 2"
  "length (ser_writedata32 x32) = 4" "length (ser_writedata32be x32) = 4" "length (ser_writedata64 x64) = 8"
  by (simp_all add: ser_writedata8_def ser_writedata16_def ser_writedata16be_def ser_writedata32_def
      ser_writedata32be_def ser_writedata64_def del: le_bytes.simps)

section \<open>Compact sizes\<close>

lemma ucast_there_back:
  assumes "unat (n :: ('a :: len) word) < 2 ^ LENGTH('b :: len)"
  shows "unat (ucast n :: 'b word) = unat n" "ucast (ucast n :: 'b word) = n"
proof -
  show u: "unat (ucast n :: 'b word) = unat n" using assms by (simp add: unsigned_ucast_eq take_bit_nat_eq_self)
  show "ucast (ucast n :: 'b word) = n"
    unfolding word_unat_eq_iff [of "ucast _"] using unsigned_less [of n]
    by (simp only: unsigned_ucast_eq [of "ucast n :: 'b word"] u) (simp add: take_bit_nat_eq_self)
qed

lemma length_WriteCompactSize: "length (WriteCompactSize n) = GetSizeOfCompactSize n"
  by (simp add: WriteCompactSize_def GetSizeOfCompactSize_def)

lemma ReadCompactSize_WriteCompactSize:
  assumes "rc \<Longrightarrow> unat n \<le> MAX_SIZE"
  shows "ReadCompactSize rc (WriteCompactSize n @ s) = Inr (n, s)"
proof -
  consider "unat n < 253" | "253 \<le> unat n" "unat n < 2 ^ 16" | "2 ^ 16 \<le> unat n" "unat n < 2 ^ 32" | "2 ^ 32 \<le> unat n"
    by linarith
  then show ?thesis
  proof cases
    case 1
    then have "unat (ucast n :: u8) = unat n" "ucast (ucast n :: u8) = n" using ucast_there_back [of n, where 'b = 8] by auto
    then show ?thesis using 1 assms
      by (auto simp: ReadCompactSize_def WriteCompactSize_def word_less_nat_alt)
  next
    case 2
    then have "unat (ucast n :: u16) = unat n" "ucast (ucast n :: u16) = n" using ucast_there_back [of n, where 'b = 16] by auto
    then show ?thesis using 2 assms
      by (auto simp: ReadCompactSize_def WriteCompactSize_def word_less_nat_alt word_le_nat_alt)
  next
    case 3
    then have "unat (ucast n :: u32) = unat n" "ucast (ucast n :: u32) = n" using ucast_there_back [of n, where 'b = 32] by auto
    then show ?thesis using 3 assms
      by (auto simp: ReadCompactSize_def WriteCompactSize_def word_less_nat_alt word_le_nat_alt)
  next
    case 4
    then show ?thesis using assms
      by (auto simp: ReadCompactSize_def WriteCompactSize_def word_less_nat_alt word_le_nat_alt)
  qed
qed

lemma ReadCompactSize_canonical:
  assumes "ReadCompactSize rc s = Inr (n, r)"
  shows "s = WriteCompactSize n @ r" "rc \<Longrightarrow> unat n \<le> MAX_SIZE"
proof -
  show "rc \<Longrightarrow> unat n \<le> MAX_SIZE"
    using assms by (auto simp: ReadCompactSize_def sum_bind_ok split: if_splits)
  from assms obtain c s' where s: "s = ser_writedata8 c @ s'" and dec: "(if c < 253 then Inr (ucast c, s')
      else if c = 253 then
        sum_bind (ser_readdata16 s') (\<lambda>(n, s). if n < 253 then Inl NonCanonicalSize else Inr (ucast n, s))
      else if c = 254 then
        sum_bind (ser_readdata32 s') (\<lambda>(n, s). if n < 0x10000 then Inl NonCanonicalSize else Inr (ucast n, s))
      else
        sum_bind (ser_readdata64 s') (\<lambda>(n, s). if n < 0x100000000 then Inl NonCanonicalSize else Inr (n, s))) = Inr (n, r)"
    by (auto simp: ReadCompactSize_def sum_bind_ok [of "if _ then _ else _"] sum_bind_ok [of "ser_readdata8 s"] read_int_iff
        split: if_splits simp del: split_paired_Ex)
  have rest:
    "(if c < 253 then n = ucast c \<and> s' = r
      else if c = 253 then \<exists>k. s' = ser_writedata16 k @ r \<and> \<not> k < 253 \<and> n = ucast k
      else if c = 254 then \<exists>k. s' = ser_writedata32 k @ r \<and> \<not> k < 0x10000 \<and> n = ucast k
      else s' = ser_writedata64 n @ r \<and> \<not> n < 0x100000000)"
    using dec by (auto simp: sum_bind_ok read_int_iff split: if_splits)
  have c: "c < 253 \<or> c = 253 \<or> c = 254 \<or> c = 255"
    using unat_u8_less [of c] by (auto simp: word_less_nat_alt word_unat_eq_iff)
  have u: "unat (ucast (a :: u8) :: u64) = unat a" "unat (ucast (b :: u16) :: u64) = unat b"
    "ucast (ucast a :: u64) = a" "ucast (ucast b :: u64) = b" "ucast (ucast d :: u64) = (d :: u32)" for a b d
    using unat_u8_less [of a] unat_u16_less [of b] unat_u32_less [of d]
      ucast_there_back [of a, where 'b = 64] ucast_there_back [of b, where 'b = 64] ucast_there_back [of d, where 'b = 64]
    by simp_all
  show "s = WriteCompactSize n @ r"
    using c
  proof (elim disjE)
    assume "c < 253"
    then show ?thesis using s rest u by (simp add: WriteCompactSize_def word_less_nat_alt)
  next
    assume c: "c = 253"
    then obtain k where k: "s' = ser_writedata16 k @ r" "\<not> k < 253" "n = ucast k" using rest by auto
    then show ?thesis using s c u unat_u16_less [of k] by (simp add: WriteCompactSize_def word_less_nat_alt word_le_nat_alt)
  next
    assume c: "c = 254"
    then obtain k where k: "s' = ser_writedata32 k @ r" "\<not> k < 0x10000" "n = ucast k" using rest by auto
    then show ?thesis using s c u unat_u32_less [of k] by (simp add: WriteCompactSize_def word_less_nat_alt word_le_nat_alt)
  next
    assume c: "c = 255"
    then show ?thesis using s rest by (simp add: WriteCompactSize_def word_less_nat_alt word_le_nat_alt)
  qed
qed

section \<open>Variable-length integers\<close>

text \<open>The bytes of \<^verbatim>\<open>WriteVarInt\<close> in the order they go out: all but the last carry the continuation
  bit, and each leading part is the encoding of the remaining digits.\<close>

function varint_bytes :: "nat \<Rightarrow> u8 \<Rightarrow> byte list" where
  "varint_bytes n c =
     (if n \<le> 0x7f then [of_nat n OR c] else varint_bytes (n div 128 - 1) 0x80 @ [of_nat (n mod 128) OR c])"
  by pat_completeness auto
termination by (relation "measure fst") auto

declare varint_bytes.simps [simp del]

lemma write_varint_loop_bytes: "write_varint_loop n first tmp = varint_bytes n (if first then 0 else 0x80) @ tmp"
proof (induction n first tmp rule: write_varint_loop.induct)
  case (1 n first tmp)
  then show ?case
    by (subst write_varint_loop.simps, subst varint_bytes.simps) (auto simp: Let_def)
qed

lemma WriteVarInt_bytes: "WriteVarInt n = varint_bytes n 0"
  by (simp add: WriteVarInt_def write_varint_loop_bytes)

lemma digit_bits:
  assumes "d < 128"
  shows "unat ((of_nat d OR 0x80 :: u8) AND 0x7f) = d" "unat ((of_nat d :: u8) AND 0x7f) = d"
    "(of_nat d OR 0x80 :: u8) AND 0x80 \<noteq> 0" "(of_nat d :: u8) AND 0x80 = 0"
proof -
  have m: "(x :: u8) AND 0x7f = take_bit 7 x" for x by (simp add: take_bit_eq_mask mask_eq_decr_exp)
  have t: "take_bit 7 (of_nat d OR 0x80 :: u8) = take_bit 7 (of_nat d)"
    by (simp add: take_bit_or)
  have d: "unat (take_bit 7 (of_nat d :: u8)) = d"
    using assms by (simp add: unsigned_take_bit_eq unat_of_nat take_bit_nat_eq_self)
  show "unat ((of_nat d OR 0x80 :: u8) AND 0x7f) = d" "unat ((of_nat d :: u8) AND 0x7f) = d"
    using m t d by simp_all
  have b: "(x :: u8) AND 0x80 \<noteq> 0 \<longleftrightarrow> bit x 7" for x
    using and_exp_eq_0_iff_not_bit [of x 7] by simp
  have "\<not> bit (of_nat d :: u8) 7" 
    unfolding bit_of_nat_iff using assms by (simp add: bit_iff_odd)
  then show "(of_nat d :: u8) AND 0x80 = 0" using b by blast
  show "(of_nat d OR 0x80 :: u8) AND 0x80 \<noteq> 0" using b [of "of_nat d OR 0x80"] by (simp add: bit_or_iff bit_numeral_rec)
qed

lemma byte_digits:
  "unat (c AND 0x7f) < 128"
  "of_nat (unat (c AND 0x7f)) OR (if c AND 0x80 \<noteq> 0 then 0x80 else 0) = (c :: u8)"
proof -
  have m: "c AND 0x7f = take_bit 7 c" by (simp add: take_bit_eq_mask mask_eq_decr_exp)
  show "unat (c AND 0x7f) < 128" unfolding m using take_bit_nat_less_exp [of 7 "unat c"] by (simp add: unsigned_take_bit_eq)
  have b: "c AND 0x80 \<noteq> 0 \<longleftrightarrow> bit c 7" using and_exp_eq_0_iff_not_bit [of c 7] by simp
  show "of_nat (unat (c AND 0x7f)) OR (if c AND 0x80 \<noteq> 0 then 0x80 else 0) = c"
  proof (rule bit_word_eqI)
    fix n assume "n < LENGTH(8)"
    then have "n < 7 \<or> n = 7" by auto
    moreover have "bit (0x80 :: u8) n \<longleftrightarrow> n = 7" using bit_exp_iff [of 7 n, where 'a = "8 word"] by auto
    ultimately show "bit (of_nat (unat (c AND 0x7f)) OR (if c AND 0x80 \<noteq> 0 then 0x80 else 0) :: u8) n = bit c n"
      unfolding b m by (auto simp: bit_or_iff bit_take_bit_iff)
  qed
qed

text \<open>Reading a continued number leaves its successor in the accumulator; reading a final one returns it.\<close>

lemma read_varint_bytes:
  assumes "127 \<le> M"
  shows "n < M \<Longrightarrow> read_varint_loop M 0 (varint_bytes n 0x80 @ s) = read_varint_loop M (n + 1) s"
    and "n \<le> M \<Longrightarrow> read_varint_loop M 0 (varint_bytes n 0 @ s) = Inr (n, s)"
proof (induction n arbitrary: s rule: less_induct)
  case (less n)
  have pre: "read_varint_loop M 0 (varint_bytes n c @ s) = read_varint_loop M (n div 128) ((of_nat (n mod 128) OR c) # s)"
    if "n \<le> M" for c s
  proof (cases "n \<le> 0x7f")
    case True
    then show ?thesis by (subst varint_bytes.simps) simp
  next
    case False
    then have "n div 128 - 1 < n" "n div 128 - 1 < M" "n div 128 - 1 + 1 = n div 128" using that by (auto intro: Suc_pred)
    then show ?thesis using False less.IH(1) [of "n div 128 - 1"] by (subst varint_bytes.simps) simp
  qed
  have d: "n mod 128 < 128" "n div 128 * 128 + n mod 128 = n" by simp_all
  {
    case 1
    then have "n div 128 \<le> M div 128" by (intro div_le_mono) simp
    then show ?case using 1 pre [of "0x80" s] digit_bits [OF d(1)] d(2) by (simp add: Let_def)
  next
    case 2
    then have "n div 128 \<le> M div 128" by (intro div_le_mono)
    then show ?case using 2 pre [of 0 s] digit_bits [OF d(1)] d(2) by (simp add: Let_def)
  }
qed

text \<open>The other direction: whatever is read was written by \<^verbatim>\<open>WriteVarInt\<close>, so that no number has two
  encodings.\<close>

definition varint_prefix :: "nat \<Rightarrow> byte list" where
  "varint_prefix a = (if a = 0 then [] else varint_bytes (a - 1) 0x80)"

lemma varint_prefix_step:
  "varint_prefix a @ [c] =
     varint_bytes (a * 128 + unat (c AND 0x7f)) (if c AND 0x80 \<noteq> 0 then 0x80 else 0)"
proof -
  let ?d = "unat (c AND 0x7f)"
  note d = byte_digits [of c]
  show ?thesis
  proof (cases a)
    case 0
    then show ?thesis using d by (subst varint_bytes.simps) (simp add: varint_prefix_def)
  next
    case (Suc b)
    have "(a * 128 + ?d) div 128 = a" "(a * 128 + ?d) mod 128 = ?d" using d(1) by simp_all
    moreover have "\<not> a * 128 + ?d \<le> 0x7f" using Suc by simp
    ultimately show ?thesis using d(2) Suc by (subst varint_bytes.simps) (simp add: varint_prefix_def)
  qed
qed

lemma read_varint_loop_canonical:
  "read_varint_loop M a s = Inr (n, r) \<Longrightarrow> varint_prefix a @ s = varint_bytes n 0 @ r"
proof (induction M a s rule: read_varint_loop.induct)
  case (2 M a c s)
  let ?n = "a * 128 + unat (c AND 0x7f)"
  show ?case
  proof (cases "c AND 0x80 \<noteq> 0")
    case True
    then have "read_varint_loop M (?n + 1) s = Inr (n, r)" "\<not> a > M div 128" "?n \<noteq> M"
      using 2(2) by (auto simp: Let_def split: if_splits)
    then have "varint_prefix (?n + 1) @ s = varint_bytes n 0 @ r" using 2(1) [OF _ refl] True by simp
    then have "(varint_prefix a @ [c]) @ s = varint_bytes n 0 @ r"
      unfolding varint_prefix_step using True by (simp add: varint_prefix_def)
    then show ?thesis by simp
  next
    case False
    then have "n = ?n" "r = s" using 2(2) by (auto simp: Let_def split: if_splits)
    then have "(varint_prefix a @ [c]) @ s = varint_bytes n 0 @ r"
      unfolding varint_prefix_step using False by simp
    then show ?thesis by simp
  qed
qed simp

lemma read_varint_loop_bound:
  "read_varint_loop M a s = Inr (n, r) \<Longrightarrow> M mod 128 = 127 \<Longrightarrow> n \<le> M"
proof (induction M a s rule: read_varint_loop.induct)
  case (2 M a c s)
  then have a: "a \<le> M div 128" by (auto split: if_splits)
  have "M = M div 128 * 128 + 127" using 2(3) by (metis div_mult_mod_eq)
  then have "a * 128 + unat (c AND 0x7f) \<le> M" using a byte_digits(1) [of c] mult_le_mono1 [OF a, of 128] by linarith
  then show ?case using 2 by (auto simp: Let_def split: if_splits)
qed simp

lemma ReadVarInt_iff:
  assumes "M mod 128 = 127"
  shows "ReadVarInt M s = Inr (n, r) \<longleftrightarrow> n \<le> M \<and> s = WriteVarInt n @ r"
proof
  assume l: "ReadVarInt M s = Inr (n, r)"
  then show "n \<le> M \<and> s = WriteVarInt n @ r"
    using read_varint_loop_bound [of M 0 s n r] read_varint_loop_canonical [of M 0 s n r] assms
    by (simp add: ReadVarInt_def WriteVarInt_bytes varint_prefix_def)
next
  assume "n \<le> M \<and> s = WriteVarInt n @ r"
  moreover have "127 \<le> M" using assms by (metis mod_less_eq_dividend)
  ultimately show "ReadVarInt M s = Inr (n, r)" using read_varint_bytes(2) by (simp add: ReadVarInt_def WriteVarInt_bytes)
qed

lemma length_varint_bytes: "length (varint_bytes n c) = GetSizeOfVarInt n"
proof (induction n c rule: varint_bytes.induct)
  case (1 n c)
  then show ?case by (subst varint_bytes.simps, subst GetSizeOfVarInt.simps) simp
qed

text \<open>The buffer \<^verbatim>\<open>tmp[(sizeof(n)*8+6)/7]\<close> is long enough for every value of a \<open>w\<close>-bit type.\<close>

lemma GetSizeOfVarInt_bound: "n < 2 ^ w \<Longrightarrow> 0 < w \<Longrightarrow> GetSizeOfVarInt n \<le> (w + 6) div 7"
proof (induction n arbitrary: w rule: GetSizeOfVarInt.induct)
  case (1 n)
  show ?case
  proof (cases "n \<le> 0x7f")
    case True
    then show ?thesis using 1(3) by (subst GetSizeOfVarInt.simps) simp
  next
    case False
    have "7 < w"
    proof (rule ccontr)
      assume "\<not> 7 < w"
      then have "(2 :: nat) ^ w \<le> 2 ^ 7" by (intro power_increasing) auto
      then show False using 1(2) False by simp
    qed
    then obtain v where v: "w = 7 + v" "0 < v" using less_imp_add_positive by blast
    then have "n div 128 < 2 ^ v" using 1(2) by (simp add: power_add less_mult_imp_div_less mult.commute)
    then have "GetSizeOfVarInt (n div 128 - 1) \<le> (v + 6) div 7" using 1(1) [OF False, of v] v(2) by simp
    then show ?thesis using False v by (subst GetSizeOfVarInt.simps) simp
  qed
qed

section \<open>Codecs\<close>

locale codec =
  fixes enc :: "'a \<Rightarrow> byte list" and dec :: "'a reader" and valid :: "'a \<Rightarrow> bool"
  assumes round_trip: "valid x \<Longrightarrow> dec (enc x @ s) = Inr (x, s)"
begin

lemma contents_round_trip:
  "list_all valid xs \<Longrightarrow> UnserializeVectorContents dec (length xs) (concat (map enc xs) @ s) = Inr (xs, s)"
  by (induction xs) (simp_all add: round_trip)

lemma enc_injective: "valid x \<Longrightarrow> valid y \<Longrightarrow> enc x = enc y \<Longrightarrow> x = y"
  by (metis Inr_inject prod.inject round_trip)

lemma enc_prefix_free: "valid x \<Longrightarrow> valid y \<Longrightarrow> enc x @ s = enc y @ t \<Longrightarrow> x = y \<and> s = t"
  by (metis Inr_inject prod.inject round_trip)

lemma vector_codec: "codec (SerVector enc) (UnserVector dec) (\<lambda>xs. list_all valid xs \<and> length xs \<le> MAX_SIZE)"
proof
  fix xs s assume xs: "list_all valid xs \<and> length xs \<le> MAX_SIZE"
  then have "unat (of_nat (length xs) :: u64) = length xs" by (simp add: unat_of_nat MAX_SIZE_def)
  then show "UnserVector dec (SerVector enc xs @ s) = Inr (xs, s)"
    using xs by (simp add: UnserVector_def SerVector_def ReadCompactSize_WriteCompactSize contents_round_trip)
qed

lemma limited_vector_codec:
  assumes "Limit \<le> MAX_SIZE"
  shows "codec (SerVector enc) (UnserLimitedVector Limit dec) (\<lambda>xs. list_all valid xs \<and> length xs \<le> Limit)"
proof
  fix xs s assume xs: "list_all valid xs \<and> length xs \<le> Limit"
  then have "unat (of_nat (length xs) :: u64) = length xs" using assms by (simp add: unat_of_nat MAX_SIZE_def)
  then show "UnserLimitedVector Limit dec (SerVector enc xs @ s) = Inr (xs, s)"
    using xs assms by (simp add: UnserLimitedVector_def SerVector_def ReadCompactSize_WriteCompactSize contents_round_trip)
qed

end

text \<open>A canonical codec accepts nothing but what its encoder produces, so the bytes determine the
  value and the value determines the bytes.\<close>

locale canonical_codec = codec +
  assumes canonical: "dec s = Inr (x, r) \<Longrightarrow> valid x \<and> s = enc x @ r"
begin

lemma dec_iff: "dec s = Inr (x, r) \<longleftrightarrow> valid x \<and> s = enc x @ r"
  using canonical round_trip by blast

lemma contents_canonical:
  "UnserializeVectorContents dec n s = Inr (xs, r) \<Longrightarrow>
     list_all valid xs \<and> length xs = n \<and> s = concat (map enc xs) @ r"
proof (induction n arbitrary: s xs)
  case (Suc n)
  then obtain x t ys where "dec s = Inr (x, t)" "UnserializeVectorContents dec n t = Inr (ys, r)" "xs = x # ys"
    by (auto simp: sum_bind_ok)
  then show ?case using Suc.IH [of t ys] by (simp add: dec_iff)
qed simp

lemma vector_canonical:
  "canonical_codec (SerVector enc) (UnserVector dec) (\<lambda>xs. list_all valid xs \<and> length xs \<le> MAX_SIZE)"
proof (rule canonical_codec.intro [OF vector_codec], unfold_locales)
  fix s xs r assume "UnserVector dec s = Inr (xs, r)"
  then obtain n t where n: "ReadCompactSize True s = Inr (n, t)" "UnserializeVectorContents dec (unat n) t = Inr (xs, r)"
    by (auto simp: UnserVector_def sum_bind_ok)
  note c = ReadCompactSize_canonical [OF n(1)] contents_canonical [OF n(2)]
  then have "of_nat (length xs) = n" by simp
  then show "(list_all valid xs \<and> length xs \<le> MAX_SIZE) \<and> s = SerVector enc xs @ r"
    using c by (simp add: SerVector_def)
qed

end

locale codec_pair = a: codec e1 d1 v1 + b: codec e2 d2 v2
  for e1 :: "'a \<Rightarrow> byte list" and d1 v1 and e2 :: "'b \<Rightarrow> byte list" and d2 v2
begin

lemma pair_codec: "codec (SerPair e1 e2) (UnserPair d1 d2) (\<lambda>(x, y). v1 x \<and> v2 y)"
  by unfold_locales (auto simp: SerPair_def UnserPair_def a.round_trip b.round_trip)

end

interpretation u8_codec: canonical_codec ser_writedata8 ser_readdata8 "\<lambda>_. True"
  by unfold_locales (simp_all add: read_int_iff)

interpretation u16_codec: canonical_codec ser_writedata16 ser_readdata16 "\<lambda>_. True"
  by unfold_locales (simp_all add: read_int_iff)

interpretation u32_codec: canonical_codec ser_writedata32 ser_readdata32 "\<lambda>_. True"
  by unfold_locales (simp_all add: read_int_iff)

interpretation u64_codec: canonical_codec ser_writedata64 ser_readdata64 "\<lambda>_. True"
  by unfold_locales (simp_all add: read_int_iff)

interpretation size_codec: canonical_codec WriteCompactSize "ReadCompactSize True" "\<lambda>n. unat n \<le> MAX_SIZE"
  by unfold_locales (simp_all add: ReadCompactSize_WriteCompactSize ReadCompactSize_canonical)

interpretation varint32_codec: canonical_codec WriteVarInt "ReadVarInt (2 ^ 32 - 1)" "\<lambda>n. n \<le> 2 ^ 32 - 1"
  by unfold_locales (auto simp: ReadVarInt_iff)

interpretation varint64_codec: canonical_codec WriteVarInt "ReadVarInt (2 ^ 64 - 1)" "\<lambda>n. n \<le> 2 ^ 64 - 1"
  by unfold_locales (auto simp: ReadVarInt_iff)

interpretation blob_codec: canonical_codec "\<lambda>h :: uint256. h" "read_bytes 32" "\<lambda>h. length h = 32"
  by unfold_locales (auto simp: read_bytes_ok)

text \<open>Reading a byte vector block by block is reading it at once.\<close>

lemma read_blocks_read_bytes: "read_blocks n s = read_bytes n s"
proof (induction n arbitrary: s rule: less_induct)
  case (less n)
  show ?case
  proof (cases "n = 0")
    case True
    then show ?thesis by (subst read_blocks.simps) (simp add: read_bytes_def)
  next
    case False
    define b where "b = min n (1 + 4999999)"
    have b: "b \<le> n" "0 < b" using False by (auto simp: b_def)
    have rest: "read_blocks (n - b) t = read_bytes (n - b) t" for t using less b by simp
    have "take n s = take b s @ take (n - b) (drop b s)" using b take_add [of b "n - b" s] by simp
    moreover have "read_blocks n s = sum_bind (read_bytes b s) (\<lambda>(bs, s).
        sum_bind (read_blocks (n - b) s) (\<lambda>(cs, s). Inr (bs @ cs, s)))"
      using False unfolding b_def by (subst read_blocks.simps) (simp only: Let_def if_False)
    ultimately show ?thesis using b by (auto simp: rest read_bytes_def)
  qed
qed

interpretation bytes_codec: canonical_codec SerBytes UnserBytes "\<lambda>v. length v \<le> MAX_SIZE"
proof
  fix v s :: "byte list" assume "length v \<le> MAX_SIZE"
  then show "UnserBytes (SerBytes v @ s) = Inr (v, s)"
    by (simp add: UnserBytes_def SerBytes_def read_blocks_read_bytes ReadCompactSize_WriteCompactSize unat_of_nat MAX_SIZE_def)
next
  fix s v r assume "UnserBytes s = Inr (v, r)"
  then obtain n t where n: "ReadCompactSize True s = Inr (n, t)" "t = v @ r" "length v = unat n"
    by (auto simp: UnserBytes_def sum_bind_ok read_blocks_read_bytes read_bytes_ok)
  then show "length v \<le> MAX_SIZE \<and> s = SerBytes v @ r"
    using ReadCompactSize_canonical [OF n(1)] by (simp add: SerBytes_def)
qed

section \<open>Bit sets\<close>

text \<open>Bit \<open>k\<close> of byte \<open>j\<close> is element \<open>8 j + k\<close> of the vector.\<close>

lemma bit_set_foldl:
  fixes vec :: "bool list" and nb m :: nat
  assumes "m \<le> 8 * nb"
  defines "f \<equiv> \<lambda>vBytes p. vBytes[p div 8 := vBytes ! (p div 8) OR push_bit (p mod 8) (of_bool (vec ! p)) :: u8]"
  shows "length (foldl f (replicate nb 0) [0..<m]) = nb \<and>
    (\<forall>j<nb. \<forall>k<8. bit (foldl f (replicate nb 0) [0..<m] ! j) k \<longleftrightarrow> 8 * j + k < m \<and> vec ! (8 * j + k))"
  using assms(1)
proof (induction m)
  case (Suc m)
  let ?w = "foldl f (replicate nb 0) [0..<m]"
  have IH: "length ?w = nb" "\<And>j k. j < nb \<Longrightarrow> k < 8 \<Longrightarrow> bit (?w ! j) k \<longleftrightarrow> 8 * j + k < m \<and> vec ! (8 * j + k)"
    using Suc by auto
  have j: "m div 8 < nb" "8 * (m div 8) + m mod 8 = m" "m mod 8 < 8" using Suc.prems by auto
  have b: "bit (push_bit (m mod 8) (of_bool (vec ! m)) :: u8) k \<longleftrightarrow> k = m mod 8 \<and> vec ! m" if "k < 8" for k
    using that by (auto simp: bit_push_bit_iff bit_of_bool_iff)
  show ?case
  proof (intro conjI allI impI)
    fix j k assume jk: "j < nb" "k < (8 :: nat)"
    show "bit (foldl f (replicate nb 0) [0..<Suc m] ! j) k \<longleftrightarrow> 8 * j + k < Suc m \<and> vec ! (8 * j + k)"
    proof (cases "j = m div 8")
      case True
      have "k = m mod 8 \<longleftrightarrow> 8 * j + k = m" using True j(2) by linarith
      then show ?thesis using True IH jk j b [OF jk(2)] by (auto simp: f_def bit_or_iff less_Suc_eq)
    next
      case False
      then have "8 * j + k \<noteq> m" using jk by auto
      then show ?thesis using False IH jk by (auto simp: f_def)
    qed
  qed (use IH in \<open>simp add: f_def\<close>)
qed simp

lemma WriteFixedBitSet_bits:
  "length (WriteFixedBitSet vec n) = (n + 7) div 8"
  "j < (n + 7) div 8 \<Longrightarrow> k < 8 \<Longrightarrow>
     bit (WriteFixedBitSet vec n ! j) k \<longleftrightarrow> 8 * j + k < min n (length vec) \<and> vec ! (8 * j + k)"
proof -
  have "min n (length vec) \<le> 8 * ((n + 7) div 8)" by auto
  note bit_set_foldl [OF this, of vec]
  then show "length (WriteFixedBitSet vec n) = (n + 7) div 8"
    "j < (n + 7) div 8 \<Longrightarrow> k < 8 \<Longrightarrow>
     bit (WriteFixedBitSet vec n ! j) k \<longleftrightarrow> 8 * j + k < min n (length vec) \<and> vec ! (8 * j + k)"
    unfolding WriteFixedBitSet_def by blast+
qed

lemma and_bit_iff: "k < 8 \<Longrightarrow> (x :: u8) AND push_bit k 1 \<noteq> 0 \<longleftrightarrow> bit x k"
  by (simp add: and_exp_eq_0_iff_not_bit push_bit_eq_mult)

lemma spare_bits_iff: "(x :: u8) AND NOT (drop_bit rem 0xff) \<noteq> 0 \<longleftrightarrow> (\<exists>k<8. 8 \<le> k + rem \<and> bit x k)"
proof -
  have m: "(0xff :: u8) = mask 8" by (simp add: mask_eq_decr_exp)
  have "bit (NOT (drop_bit rem 0xff) :: u8) k \<longleftrightarrow> 8 \<le> k + rem" if "k < 8" for k
    using that unfolding m by (auto simp: bit_not_iff bit_drop_bit_eq bit_mask_iff add.commute)
  then have "bit (x AND NOT (drop_bit rem 0xff)) k \<longleftrightarrow> 8 \<le> k + rem \<and> bit x k" if "k < 8" for k
    using that by (auto simp: bit_and_iff)
  moreover have "y \<noteq> 0 \<longleftrightarrow> (\<exists>k<8. bit y k)" for y :: u8
    using bit_word_eqI [of y 0] by auto
  ultimately show ?thesis by blast
qed

definition bit_set_of :: "nat \<Rightarrow> byte list \<Rightarrow> bool list" where
  "bit_set_of n bs = map (\<lambda>p. bit (bs ! (p div 8)) (p mod 8)) [0..<n]"

text \<open>What the reader accepts: the right number of bytes, with every bit past the vector clear.\<close>

lemma ReadFixedBitSet_ok:
  "ReadFixedBitSet n s = Inr (vec, r) \<longleftrightarrow>
     (\<exists>bs. s = bs @ r \<and> length bs = (n + 7) div 8 \<and> vec = bit_set_of n bs \<and>
       (\<forall>j<length bs. \<forall>k<8. n \<le> 8 * j + k \<longrightarrow> \<not> bit (bs ! j) k))"
proof -
  define bad where "bad = (\<lambda>bs :: byte list. length bs * 8 \<noteq> n \<and>
    bs ! (length bs - 1) AND NOT (drop_bit (length bs * 8 - n) 0xff) \<noteq> 0)"
  have spare: "bad bs \<longleftrightarrow> \<not> (\<forall>j<length bs. \<forall>k<8. n \<le> 8 * j + k \<longrightarrow> \<not> bit (bs ! j) k)"
    if l: "length bs = (n + 7) div 8" for bs :: "byte list"
  proof -
    have b: "n \<le> 8 * length bs" "8 * length bs < n + 8" using l by auto
    have "j = length bs - 1 \<and> 8 \<le> k + (length bs * 8 - n)" if "j < length bs" "k < 8" "n \<le> 8 * j + k" for j k
      using that b by auto
    moreover have "n \<le> 8 * (length bs - 1) + k" if "0 < length bs" "8 \<le> k + (length bs * 8 - n)" for k
      using that b by auto
    moreover have "length bs * 8 \<noteq> n \<Longrightarrow> 0 < length bs" using b by auto
    moreover have "length bs * 8 \<noteq> n" if "k < 8" "8 \<le> k + (length bs * 8 - n)" for k using that by auto
    ultimately show ?thesis unfolding bad_def spare_bits_iff by (metis diff_less less_numeral_extra(1))
  qed
  have "map (\<lambda>p. bs ! (p div 8) AND push_bit (p mod 8) 1 \<noteq> 0) [0..<n] = bit_set_of n bs" for bs :: "byte list"
    unfolding bit_set_of_def by (intro map_cong refl) (rule and_bit_iff, simp)
  then have "ReadFixedBitSet n s = (if (n + 7) div 8 > length s then Inl BitSetTooLong
      else sum_bind (read_bytes ((n + 7) div 8) s) (\<lambda>(bs, s).
        if bad bs then Inl OutOfRangeBits else Inr (bit_set_of n bs, s)))"
    by (simp only: ReadFixedBitSet_def Let_def bad_def)
  then show ?thesis using spare by (auto simp: sum_bind_ok read_bytes_ok split: if_splits) metis
qed

lemma WriteFixedBitSet_of: "length vec = n \<Longrightarrow> bit_set_of n (WriteFixedBitSet vec n) = vec"
  by (rule nth_equalityI) (auto simp: bit_set_of_def WriteFixedBitSet_bits)

interpretation bit_set_codec: canonical_codec "\<lambda>v. WriteFixedBitSet v n" "ReadFixedBitSet n" "\<lambda>v. length v = n" for n
proof
  fix v :: "bool list" and s assume "length v = n"
  then show "ReadFixedBitSet n (WriteFixedBitSet v n @ s) = Inr (v, s)"
    unfolding ReadFixedBitSet_ok
    by (intro exI [of _ "WriteFixedBitSet v n"]) (auto simp: WriteFixedBitSet_bits WriteFixedBitSet_of)
next
  fix s v r assume "ReadFixedBitSet n s = Inr (v, r)"
  then obtain bs where bs: "s = bs @ r" "length bs = (n + 7) div 8" "v = bit_set_of n bs"
    "\<forall>j<length bs. \<forall>k<8. n \<le> 8 * j + k \<longrightarrow> \<not> bit (bs ! j) k" unfolding ReadFixedBitSet_ok by auto
  have "bs = WriteFixedBitSet v n"
  proof (rule nth_equalityI)
    fix j assume j: "j < length bs"
    show "bs ! j = WriteFixedBitSet v n ! j"
    proof (rule bit_word_eqI)
      fix k assume "k < LENGTH(8)"
      then have k: "k < 8" by simp
      show "bit (bs ! j) k = bit (WriteFixedBitSet v n ! j) k"
        using j k bs(2-4) by (cases "8 * j + k < n") (auto simp: WriteFixedBitSet_bits bit_set_of_def)
    qed
  qed (simp add: bs WriteFixedBitSet_bits)
  then show "length v = n \<and> s = WriteFixedBitSet v n @ r" using bs by (simp add: bit_set_of_def)
qed

text \<open>The index at which the loops over the varint encoding resume.\<close>

definition next_index :: "nat option \<Rightarrow> nat" where
  "next_index prev = (case prev of None \<Rightarrow> 0 | Some l \<Rightarrow> l + 1)"

definition index_offset :: "nat option \<Rightarrow> nat \<Rightarrow> nat" where
  "index_offset prev i = (case prev of Some l \<Rightarrow> i - l | None \<Rightarrow> i + 1)"

lemma index_offset_inverse:
  assumes "next_index prev \<le> i"
  shows "0 < index_offset prev i" "index_offset prev i \<le> i + 1"
    "(case prev of Some l \<Rightarrow> l + index_offset prev i | None \<Rightarrow> index_offset prev i - 1) = i"
    "\<not> (case prev of Some l \<Rightarrow> i \<le> l | None \<Rightarrow> False)"
  using assms by (auto simp: next_index_def index_offset_def split: option.splits)

lemma index_offset_of:
  assumes "i = (case prev of Some l \<Rightarrow> l + offset | None \<Rightarrow> offset - 1)" "offset \<noteq> 0"
  shows "next_index prev \<le> i" "offset = index_offset prev i"
  using assms by (auto simp: next_index_def index_offset_def split: option.splits)

lemma write_varints_skip:
  "write_varints_loop i prev (replicate d False @ True # bs) =
     WriteVarInt (index_offset prev (i + d) mod 2 ^ 32) @ write_varints_loop (i + d + 1) (Some (i + d)) bs"
  by (cases prev; induction d arbitrary: i) (simp_all add: index_offset_def)

lemma write_varints_none: "write_varints_loop i prev (replicate d False) = []"
  by (induction d arbitrary: i) simp_all

lemma leading_falses:
  obtains "bs = replicate (length bs) False"
  | d cs where "bs = replicate d False @ True # cs"
proof (induction bs arbitrary: thesis)
  case (Cons b bs)
  show ?case
  proof (cases b)
    case True
    then show ?thesis using Cons(3) [of 0 bs] by simp
  next
    case False
    show ?thesis
    proof (rule Cons.IH)
      assume "bs = replicate (length bs) False"
      then show thesis using False Cons(2) by simp
    next
      fix d cs assume "bs = replicate d False @ True # cs"
      then show thesis using False Cons(3) [of "Suc d" cs] by simp
    qed
  qed
qed simp

lemma read_varints_write:
  assumes "length vec = n" "next_index prev \<le> i" "i + length bs = n" "drop i vec = replicate (length bs) False" "n < 2 ^ 32"
  shows "read_varints_loop n vec prev (write_varints_loop i prev bs @ WriteVarInt 0 @ s) = Inr (take i vec @ bs, s)"
  using assms
proof (induction "length bs" arbitrary: bs vec prev i rule: less_induct)
  case less
  have rd: "ReadVarInt (2 ^ 32 - 1) (WriteVarInt k @ t) = Inr (k, t)" if "k < 2 ^ 32" for k t
    using that by (intro varint32_codec.round_trip) simp
  show ?case
  proof (rule leading_falses [of bs])
    assume z: "bs = replicate (length bs) False"
    then have "write_varints_loop i prev bs = []" using write_varints_none by metis
    moreover have "take i vec @ bs = vec" using less.prems(4) z append_take_drop_id [of i vec] by simp
    ultimately show ?thesis using rd [of 0 s] by (subst read_varints_loop.simps) simp
  next
    fix d cs assume bs: "bs = replicate d False @ True # cs"
    have i: "i + d < n" "i + d + 1 + length cs = n" "next_index prev \<le> i + d" using less.prems(2,3) bs by auto
    note o = index_offset_inverse [OF i(3)]
    have fit: "index_offset prev (i + d) < 2 ^ 32" using o(2) i(1) less.prems(5) by simp
    let ?v = "vec[i + d := True]"
    have dr: "drop (i + d + 1) vec = replicate (length cs) False"
    proof -
      have "drop (i + d + 1) vec = drop (d + 1) (drop i vec)" by (simp add: add.commute)
      then show ?thesis using less.prems(4) bs by (simp del: drop_drop)
    qed
    have "read_varints_loop n ?v (Some (i + d)) (write_varints_loop (i + d + 1) (Some (i + d)) cs @ WriteVarInt 0 @ s)
        = Inr (take (i + d + 1) ?v @ cs, s)"
      using less.prems(1,5) i dr by (intro less.hyps) (auto simp: bs next_index_def)
    moreover have "take (i + d + 1) ?v @ cs = take i vec @ bs"
    proof -
      have "take d (drop i vec) = replicate d False" unfolding less.prems(4) take_replicate by (simp add: bs)
      then have "take (i + d) vec = take i vec @ replicate d False" by (simp add: take_add)
      then show ?thesis using i less.prems(1) bs by (simp add: take_Suc_conv_app_nth)
    qed
    ultimately show ?thesis
      unfolding bs write_varints_skip using o i(1) fit rd
      by (subst read_varints_loop.simps) (simp add: Let_def)
  qed
qed

lemma read_varints_canonical:
  assumes "read_varints_loop n vec prev s = Inr (v, r)" "length vec = n" "next_index prev \<le> n" "n < 2 ^ 32"
    "drop (next_index prev) vec = replicate (n - next_index prev) False"
  shows "length v = n \<and> take (next_index prev) v = take (next_index prev) vec \<and>
    s = write_varints_loop (next_index prev) prev (drop (next_index prev) v) @ WriteVarInt 0 @ r"
  using assms
proof (induction n vec prev s rule: read_varints_loop.induct)
  case (1 n vec prev s)
  obtain off t where rd: "ReadVarInt (2 ^ 32 - 1) s = Inr (off, t)" and s: "s = WriteVarInt off @ t" "off < 2 ^ 32"
    using 1(2) varint32_codec.canonical [of s]
    by (subst (asm) read_varints_loop.simps) (fastforce split: sum.splits)
  show ?case
  proof (cases "off = 0")
    case True
    then have "v = vec" "r = t" using 1(2) rd by (subst (asm) read_varints_loop.simps, simp)+
    then show ?thesis using 1(3,6) s True by (simp add: write_varints_none)
  next
    case False
    define i where "i = (case prev of Some l \<Rightarrow> l + off | None \<Rightarrow> off - 1)"
    note o = index_offset_of [OF i_def False]
    have step: "i < n" "read_varints_loop n (vec[i := True]) (Some i) t = Inr (v, r)"
      using 1(2) rd False by (subst (asm) read_varints_loop.simps, simp add: Let_def i_def split: if_splits)+
    let ?d = "i - next_index prev"
    have "drop (i + 1) vec = replicate (n - (i + 1)) False"
    proof -
      have "drop (i + 1) vec = drop (i + 1 - next_index prev) (drop (next_index prev) vec)" using o(1) by simp
      then show ?thesis using 1(6) o(1) by (simp del: drop_drop)
    qed
    then have IH: "length v = n" "take (i + 1) v = take (i + 1) (vec[i := True])"
      "t = write_varints_loop (i + 1) (Some i) (drop (i + 1) v) @ WriteVarInt 0 @ r"
      using 1(1) [OF rd refl False i_def] step 1(3,5) index_offset_inverse(4) [OF o(1)]
      by (auto simp: next_index_def i_def [symmetric])
    have "take (next_index prev) v = take (next_index prev) vec"
      using arg_cong [OF IH(2), of "take (next_index prev)"] o(1) by (simp add: min_def)
    moreover have "drop (next_index prev) v = replicate ?d False @ True # drop (i + 1) v"
    proof -
      have "drop (next_index prev) (take (i + 1) v) = drop (next_index prev) (take i vec) @ [True]"
        using IH(2) step(1) 1(3) o(1) by (simp add: take_Suc_conv_app_nth)
      also have "drop (next_index prev) (take i vec) = take ?d (drop (next_index prev) vec)"
        using o(1) by (simp add: drop_take)
      also have "\<dots> = replicate ?d False" using 1(6) step(1) by simp
      finally show ?thesis
        using o(1) append_take_drop_id [of "i + 1" v] drop_append [of "next_index prev" "take (i + 1) v" "drop (i + 1) v"]
          step(1) IH(1) by simp
    qed
    ultimately show ?thesis
      using IH s o write_varints_skip [of "next_index prev" prev ?d "drop (i + 1) v"] by simp
  qed
qed

lemma varints_codec:
  assumes "n < 2 ^ 32"
  shows "canonical_codec WriteFixedVarIntsBitSet (ReadFixedVarIntsBitSet n) (\<lambda>v. length v = n)"
proof (unfold_locales, goal_cases)
  case (1 v s)
  then show ?case
    using read_varints_write [of "replicate n False" n None 0 v s] assms
    by (simp add: WriteFixedVarIntsBitSet_def ReadFixedVarIntsBitSet_def next_index_def)
next
  case (2 s v r)
  then show ?case
    using read_varints_canonical [of n "replicate n False" None s v r] assms
    by (simp add: WriteFixedVarIntsBitSet_def ReadFixedVarIntsBitSet_def next_index_def)
qed

lemma ReadAutoBitSet_WriteAutoBitSet:
  assumes "length vec < 2 ^ 32"
  shows "ReadAutoBitSet (length vec) (WriteAutoBitSet vec @ s) = Inr (vec, s)"
  using codec.round_trip [OF canonical_codec.axioms(1) [OF varints_codec [OF assms]], of vec s]
    bit_set_codec.round_trip [of vec "length vec" s]
  by (simp add: ReadAutoBitSet_def WriteAutoBitSet_def Let_def)

interpretation dyn_bit_set_codec: canonical_codec SerDynamicBitSet UnserDynamicBitSet "\<lambda>v. length v \<le> MAX_SIZE"
proof
  fix v :: "bool list" and s assume "length v \<le> MAX_SIZE"
  then show "UnserDynamicBitSet (SerDynamicBitSet v @ s) = Inr (v, s)"
    using bit_set_codec.round_trip [of v "length v" s]
    by (simp add: UnserDynamicBitSet_def SerDynamicBitSet_def ReadCompactSize_WriteCompactSize unat_of_nat MAX_SIZE_def)
next
  fix s v r assume "UnserDynamicBitSet s = Inr (v, r)"
  then obtain n t where n: "ReadCompactSize True s = Inr (n, t)" "ReadFixedBitSet (unat n) t = Inr (v, r)"
    by (auto simp: UnserDynamicBitSet_def sum_bind_ok)
  then show "length v \<le> MAX_SIZE \<and> s = SerDynamicBitSet v @ r"
    using ReadCompactSize_canonical [OF n(1)] bit_set_codec.canonical [OF n(2)] by (auto simp: SerDynamicBitSet_def)
qed

section \<open>Properties\<close>

text \<open>\<^bold>\<open>C29\<close>: compact sizes and variable-length integers are canonical formats. A compact size is read
  exactly when the stream starts with the bytes \<^verbatim>\<open>WriteCompactSize\<close> produces for a size of at most
  \<^verbatim>\<open>MAX_SIZE\<close>, and a 32-bit or 64-bit \<^verbatim>\<open>VARINT\<close> is read exactly when the stream starts with the bytes
  \<^verbatim>\<open>WriteVarInt\<close> produces: nothing else is accepted, so no value has two encodings. The writers use the
  number of bytes \<^verbatim>\<open>GetSizeOfCompactSize\<close> and \<^verbatim>\<open>GetSizeOfVarInt\<close> announce.\<close>

theorem wire_integers_canonical:
  "(ReadCompactSize True s = Inr (c, r) \<longleftrightarrow> unat c \<le> MAX_SIZE \<and> s = WriteCompactSize c @ r) \<and>
   (ReadVarInt (2 ^ 32 - 1) s = Inr (n, r) \<longleftrightarrow> n \<le> 2 ^ 32 - 1 \<and> s = WriteVarInt n @ r) \<and>
   (ReadVarInt (2 ^ 64 - 1) s = Inr (n, r) \<longleftrightarrow> n \<le> 2 ^ 64 - 1 \<and> s = WriteVarInt n @ r) \<and>
   length (WriteCompactSize c) = GetSizeOfCompactSize c \<and> length (WriteVarInt n) = GetSizeOfVarInt n"
  using size_codec.dec_iff varint32_codec.dec_iff varint64_codec.dec_iff
  by (auto simp: length_WriteCompactSize WriteVarInt_bytes length_varint_bytes)

text \<open>\<^bold>\<open>C30\<close>: every bit set survives its encodings. A vector of at most \<^verbatim>\<open>MAX_SIZE\<close> bits written by
  \<^verbatim>\<open>WriteAutoBitSet\<close>, which picks the shorter of the packed and the varint form, is read back by
  \<^verbatim>\<open>ReadAutoBitSet\<close> with its length; written by \<^verbatim>\<open>DYNBITSET\<close> it is read back
  without knowing its length. In both cases the rest of the stream is untouched.\<close>

theorem bit_sets_round_trip:
  assumes "length vec \<le> MAX_SIZE"
  shows "ReadAutoBitSet (length vec) (WriteAutoBitSet vec @ s) = Inr (vec, s) \<and>
    UnserDynamicBitSet (SerDynamicBitSet vec @ s) = Inr (vec, s)"
  using assms ReadAutoBitSet_WriteAutoBitSet [of vec s] dyn_bit_set_codec.round_trip [of vec s]
  by (simp_all add: MAX_SIZE_def)

theorem bit_sets_round_trip_witness:
  "ReadAutoBitSet 3 (WriteAutoBitSet [True, False, True] @ [7]) = Inr ([True, False, True], [7])"
  using bit_sets_round_trip [of "[True, False, True]" "[7]"] by (simp add: MAX_SIZE_def numeral_3_eq_3)

end
