(* ===== verification/Transaction.thy ===== *)
theory Transaction
  imports Serialization Chain_View Consensus_Params
begin

text \<open>
  Transactions: the data of \<^verbatim>\<open>src/src/primitives/transaction.h\<close> with its serialization, the
  context-free checks of \<^verbatim>\<open>src/src/consensus/tx_check.cpp\<close>, and the lock-time rules of
  \<^verbatim>\<open>src/src/consensus/tx_verify.cpp\<close>. A rejected transaction is a value: the
  \<^verbatim>\<open>TxValidationResult\<close> and the reason string that the source hands to \<^verbatim>\<open>state.Invalid\<close>.
  \<^verbatim>\<open>CTransaction\<close> and \<^verbatim>\<open>CMutableTransaction\<close> carry the same fields and are one record; the cached hash
  is recomputed, with the hash function as an argument.
\<close>

section \<open>Model\<close>

type_synonym CScript = "byte list"

definition TRANSACTION_NORMAL :: u16 where "TRANSACTION_NORMAL = 0"
definition TRANSACTION_PROVIDER_REGISTER :: u16 where "TRANSACTION_PROVIDER_REGISTER = 1"
definition TRANSACTION_PROVIDER_UPDATE_SERVICE :: u16 where "TRANSACTION_PROVIDER_UPDATE_SERVICE = 2"
definition TRANSACTION_PROVIDER_UPDATE_REGISTRAR :: u16 where "TRANSACTION_PROVIDER_UPDATE_REGISTRAR = 3"
definition TRANSACTION_PROVIDER_UPDATE_REVOKE :: u16 where "TRANSACTION_PROVIDER_UPDATE_REVOKE = 4"
definition TRANSACTION_COINBASE :: u16 where "TRANSACTION_COINBASE = 5"
definition TRANSACTION_QUORUM_COMMITMENT :: u16 where "TRANSACTION_QUORUM_COMMITMENT = 6"
definition TRANSACTION_MNHF_SIGNAL :: u16 where "TRANSACTION_MNHF_SIGNAL = 7"
definition TRANSACTION_ASSET_LOCK :: u16 where "TRANSACTION_ASSET_LOCK = 8"
definition TRANSACTION_ASSET_UNLOCK :: u16 where "TRANSACTION_ASSET_UNLOCK = 9"
definition TRANSACTION_POSE_SERVICE_COMMITMENT :: u16 where "TRANSACTION_POSE_SERVICE_COMMITMENT = 10"

lemmas tx_type_defs = TRANSACTION_NORMAL_def TRANSACTION_PROVIDER_REGISTER_def TRANSACTION_PROVIDER_UPDATE_SERVICE_def
  TRANSACTION_PROVIDER_UPDATE_REGISTRAR_def TRANSACTION_PROVIDER_UPDATE_REVOKE_def TRANSACTION_COINBASE_def TRANSACTION_QUORUM_COMMITMENT_def
  TRANSACTION_MNHF_SIGNAL_def TRANSACTION_ASSET_LOCK_def TRANSACTION_ASSET_UNLOCK_def TRANSACTION_POSE_SERVICE_COMMITMENT_def

definition COutPoint_IsNull :: "COutPoint \<Rightarrow> bool" where
  "COutPoint_IsNull p \<longleftrightarrow> uint256_IsNull (op_hash p) \<and> op_n p = 0xffffffff"

definition COutPoint_less :: "COutPoint \<Rightarrow> COutPoint \<Rightarrow> bool" where
  "COutPoint_less a b \<longleftrightarrow> op_hash a < op_hash b \<or> op_hash a = op_hash b \<and> op_n a < op_n b"

record CTxIn =
  prevout :: COutPoint
  scriptSig :: CScript
  nSequence :: u32

definition SEQUENCE_FINAL :: u32 where "SEQUENCE_FINAL = 0xffffffff"
definition SEQUENCE_LOCKTIME_DISABLE_FLAG :: u32 where "SEQUENCE_LOCKTIME_DISABLE_FLAG = push_bit 31 1"
definition SEQUENCE_LOCKTIME_TYPE_FLAG :: u32 where "SEQUENCE_LOCKTIME_TYPE_FLAG = push_bit 22 1"
definition SEQUENCE_LOCKTIME_MASK :: u32 where "SEQUENCE_LOCKTIME_MASK = 0x0000ffff"
definition SEQUENCE_LOCKTIME_GRANULARITY :: nat where "SEQUENCE_LOCKTIME_GRANULARITY = 9"

record CTxOut =
  nValue :: CAmount
  scriptPubKey :: CScript

definition CTxOut_null :: CTxOut where
  "CTxOut_null = \<lparr>nValue = -1, scriptPubKey = []\<rparr>"

definition CTxOut_IsNull :: "CTxOut \<Rightarrow> bool" where
  "CTxOut_IsNull out \<longleftrightarrow> nValue out = -1"

definition CTxOut_empty :: CTxOut where
  "CTxOut_empty = \<lparr>nValue = 0, scriptPubKey = []\<rparr>"

definition CTxOut_IsEmpty :: "CTxOut \<Rightarrow> bool" where
  "CTxOut_IsEmpty out \<longleftrightarrow> nValue out = 0 \<and> scriptPubKey out = []"

text \<open>\<^verbatim>\<open>nVersion\<close> is an \<^verbatim>\<open>int16_t\<close>; the field holds its bits, read as a signed number.\<close>

record CTransaction =
  vin :: "CTxIn list"
  vout :: "CTxOut list"
  tx_nVersion :: u16
  nType :: u16
  nLockTime :: u32
  vExtraPayload :: "byte list"

definition CTransaction_IsNull :: "CTransaction \<Rightarrow> bool" where
  "CTransaction_IsNull tx \<longleftrightarrow> vin tx = [] \<and> vout tx = []"

definition IsCoinBase :: "CTransaction \<Rightarrow> bool" where
  "IsCoinBase tx \<longleftrightarrow> length (vin tx) = 1 \<and> COutPoint_IsNull (prevout (vin tx ! 0)) \<and> length (vout tx) \<ge> 1"

definition IsCoinStake :: "CTransaction \<Rightarrow> bool" where
  "IsCoinStake tx \<longleftrightarrow> length (vin tx) > 0 \<and> \<not> COutPoint_IsNull (prevout (vin tx ! 0)) \<and> length (vout tx) \<ge> 2 \<and>
     CTxOut_IsEmpty (vout tx ! 0)"

definition IsMasternodeReward :: "CTransaction \<Rightarrow> bool" where
  "IsMasternodeReward tx \<longleftrightarrow> length (vin tx) = 1 \<and> COutPoint_IsNull (prevout (vin tx ! 0)) \<and> length (vout tx) > 1 \<and>
     CTxOut_IsEmpty (vout tx ! 0) \<and> \<not> CTxOut_IsEmpty (vout tx ! 1)"

definition SPECIAL_VERSION :: int where "SPECIAL_VERSION = 3"

definition IsSpecialTxVersion :: "CTransaction \<Rightarrow> bool" where
  "IsSpecialTxVersion tx \<longleftrightarrow> sint (tx_nVersion tx) \<ge> SPECIAL_VERSION"

definition IsPlatformTransfer :: "CTransaction \<Rightarrow> bool" where
  "IsPlatformTransfer tx \<longleftrightarrow> IsSpecialTxVersion tx \<and> nType tx = TRANSACTION_ASSET_UNLOCK"

definition HasExtraPayloadField :: "CTransaction \<Rightarrow> bool" where
  "HasExtraPayloadField tx \<longleftrightarrow> IsSpecialTxVersion tx \<and> nType tx \<noteq> TRANSACTION_NORMAL"

fun value_out_loop :: "CTxOut list \<Rightarrow> CAmount \<Rightarrow> abort + CAmount" where
  "value_out_loop [] nValueOut = (if MoneyRange nValueOut then Inr nValueOut else Inl AssertFailed)"
| "value_out_loop (out # outs) nValueOut =
     (if \<not> MoneyRange (nValue out) \<or> \<not> MoneyRange (nValueOut + nValue out) then Inl Thrown
      else value_out_loop outs (nValueOut + nValue out))"

definition GetValueOut :: "CTransaction \<Rightarrow> abort + CAmount" where
  "GetValueOut tx = value_out_loop (vout tx) 0"

subsection \<open>Serialization\<close>

definition SerOutPoint :: "COutPoint \<Rightarrow> byte list" where
  "SerOutPoint p = op_hash p @ ser_writedata32 (op_n p)"

definition UnserOutPoint :: "COutPoint reader" where
  "UnserOutPoint s =
     sum_bind (read_bytes 32 s) (\<lambda>(h, s). sum_bind (ser_readdata32 s) (\<lambda>(n, s). Inr (\<lparr>op_hash = h, op_n = n\<rparr>, s)))"

definition SerTxIn :: "CTxIn \<Rightarrow> byte list" where
  "SerTxIn i = SerOutPoint (prevout i) @ SerBytes (scriptSig i) @ ser_writedata32 (nSequence i)"

definition UnserTxIn :: "CTxIn reader" where
  "UnserTxIn s =
     sum_bind (UnserOutPoint s) (\<lambda>(p, s). sum_bind (UnserBytes s) (\<lambda>(sc, s). sum_bind (ser_readdata32 s) (\<lambda>(q, s).
       Inr (\<lparr>prevout = p, scriptSig = sc, nSequence = q\<rparr>, s))))"

definition SerTxOut :: "CTxOut \<Rightarrow> byte list" where
  "SerTxOut out = ser_writedata64 (of_int (nValue out)) @ SerBytes (scriptPubKey out)"

definition UnserTxOut :: "CTxOut reader" where
  "UnserTxOut s =
     sum_bind (ser_readdata64 s) (\<lambda>(v, s). sum_bind (UnserBytes s) (\<lambda>(sc, s).
       Inr (\<lparr>nValue = sint v, scriptPubKey = sc\<rparr>, s)))"

definition n32bitVersion :: "CTransaction \<Rightarrow> u32" where
  "n32bitVersion tx = scast (tx_nVersion tx) OR push_bit 16 (ucast (nType tx))"

definition SerTransaction :: "CTransaction \<Rightarrow> byte list" where
  "SerTransaction tx =
     ser_writedata32 (n32bitVersion tx) @ SerVector SerTxIn (vin tx) @ SerVector SerTxOut (vout tx) @
     ser_writedata32 (nLockTime tx) @ (if HasExtraPayloadField tx then SerBytes (vExtraPayload tx) else [])"

definition UnserTransaction :: "CTransaction reader" where
  "UnserTransaction s =
     sum_bind (ser_readdata32 s) (\<lambda>(n32, s).
     let ver = ucast (n32 AND 0xffff) :: u16; ty = ucast (drop_bit 16 n32 AND 0xffff) :: u16 in
     sum_bind (UnserVector UnserTxIn s) (\<lambda>(ins, s).
     sum_bind (UnserVector UnserTxOut s) (\<lambda>(outs, s).
     sum_bind (ser_readdata32 s) (\<lambda>(lt, s).
     sum_bind (if sint ver \<ge> SPECIAL_VERSION \<and> ty \<noteq> TRANSACTION_NORMAL then UnserBytes s else Inr ([], s)) (\<lambda>(pl, s).
       Inr (\<lparr>vin = ins, vout = outs, tx_nVersion = ver, nType = ty, nLockTime = lt, vExtraPayload = pl\<rparr>, s))))))"

definition ComputeHash :: "(byte list \<Rightarrow> uint256) \<Rightarrow> CTransaction \<Rightarrow> uint256" where
  "ComputeHash Hash tx = Hash (SerTransaction tx)"

definition GetTotalSize :: "CTransaction \<Rightarrow> nat" where
  "GetTotalSize tx = length (SerTransaction tx)"

subsection \<open>Context-free checks\<close>

datatype TxValidationResult =
  TX_RESULT_UNSET | TX_CONSENSUS | TX_RECENT_CONSENSUS_CHANGE | TX_INPUTS_NOT_STANDARD | TX_NOT_STANDARD |
  TX_MISSING_INPUTS | TX_PREMATURE_SPEND | TX_BAD_SPECIAL | TX_CONFLICT | TX_CONFLICT_LOCK | TX_MEMPOOL_POLICY |
  TX_NO_MEMPOOL

type_synonym tx_invalid = "TxValidationResult \<times> string"

definition MAX_LEGACY_BLOCK_SIZE :: nat where "MAX_LEGACY_BLOCK_SIZE = 1000000"
definition MAX_TX_EXTRA_PAYLOAD :: nat where "MAX_TX_EXTRA_PAYLOAD = 10000"

fun check_outputs :: "CTxOut list \<Rightarrow> CAmount \<Rightarrow> tx_invalid + unit" where
  "check_outputs [] nValueOut = Inr ()"
| "check_outputs (out # outs) nValueOut =
     (if nValue out < 0 then Inl (TX_CONSENSUS, ''bad-txns-vout-negative'')
      else if nValue out > MAX_MONEY then Inl (TX_CONSENSUS, ''bad-txns-vout-toolarge'')
      else if \<not> MoneyRange (nValueOut + nValue out) then Inl (TX_CONSENSUS, ''bad-txns-txouttotal-toolarge'')
      else check_outputs outs (nValueOut + nValue out))"

fun check_duplicates :: "CTxIn list \<Rightarrow> COutPoint set \<Rightarrow> tx_invalid + unit" where
  "check_duplicates [] vInOutPoints = Inr ()"
| "check_duplicates (i # is) vInOutPoints =
     (if prevout i \<in> vInOutPoints then Inl (TX_CONSENSUS, ''bad-txns-inputs-duplicate'')
      else check_duplicates is (insert (prevout i) vInOutPoints))"

definition CheckTransaction :: "CTransaction \<Rightarrow> tx_invalid + unit" where
  "CheckTransaction tx =
     (let allowBoth = nType tx = TRANSACTION_QUORUM_COMMITMENT \<or> nType tx = TRANSACTION_MNHF_SIGNAL \<or>
                      nType tx = TRANSACTION_POSE_SERVICE_COMMITMENT;
          allowEmptyTxIn = allowBoth \<or> nType tx = TRANSACTION_ASSET_UNLOCK;
          allowEmptyTxOut = allowBoth
      in if \<not> allowEmptyTxIn \<and> vin tx = [] then Inl (TX_CONSENSUS, ''bad-txns-vin-empty'')
         else if \<not> allowEmptyTxOut \<and> vout tx = [] then Inl (TX_CONSENSUS, ''bad-txns-vout-empty'')
         else if GetTotalSize tx > MAX_LEGACY_BLOCK_SIZE then Inl (TX_CONSENSUS, ''bad-txns-oversize'')
         else if length (vExtraPayload tx) > MAX_TX_EXTRA_PAYLOAD then Inl (TX_CONSENSUS, ''bad-txns-payload-oversize'')
         else sum_bind (check_outputs (vout tx) 0) (\<lambda>_. sum_bind (check_duplicates (vin tx) {}) (\<lambda>_.
           if IsCoinBase tx then
             let minCbSize = (if nType tx = TRANSACTION_COINBASE then 1 else 2); n = length (scriptSig (vin tx ! 0)) in
             if n < minCbSize \<or> n > 100 then Inl (TX_CONSENSUS, ''bad-cb-length'') else Inr ()
           else if list_ex (\<lambda>i. COutPoint_IsNull (prevout i)) (vin tx) then Inl (TX_CONSENSUS, ''bad-txns-prevout-null'')
           else Inr ())))"

text \<open>\<^verbatim>\<open>ContextualCheckTransaction\<close> of \<^verbatim>\<open>src/src/validation.cpp\<close>; \<open>prev\<close> is the height of the previous block, if any.\<close>

definition MAX_STANDARD_TX_SIZE :: nat where "MAX_STANDARD_TX_SIZE = 100000"

definition ContextualCheckTransaction :: "CTransaction \<Rightarrow> Params \<Rightarrow> int option \<Rightarrow> tx_invalid + unit" where
  "ContextualCheckTransaction tx params prev =
     (let height = (case prev of None \<Rightarrow> 0 | Some h \<Rightarrow> h + 1);
          fDIP0001Active_context = height \<ge> DIP0001Height params;
          fDIP0003Active_context = height \<ge> DIP0003Height params;
          fDSLActive_context = height \<ge> nDSLActivationHeight params
      in if fDIP0003Active_context \<and> IsSpecialTxVersion tx \<and>
            nType tx \<notin> set [TRANSACTION_NORMAL, TRANSACTION_PROVIDER_REGISTER, TRANSACTION_PROVIDER_UPDATE_SERVICE,
              TRANSACTION_PROVIDER_UPDATE_REGISTRAR, TRANSACTION_PROVIDER_UPDATE_REVOKE, TRANSACTION_COINBASE,
              TRANSACTION_QUORUM_COMMITMENT, TRANSACTION_MNHF_SIGNAL, TRANSACTION_ASSET_LOCK, TRANSACTION_ASSET_UNLOCK] \<and>
            \<not> (fDSLActive_context \<and> nType tx = TRANSACTION_POSE_SERVICE_COMMITMENT)
         then Inl (TX_CONSENSUS, ''bad-txns-type'')
         else if fDIP0003Active_context \<and> IsSpecialTxVersion tx \<and> IsCoinBase tx \<and> nType tx \<noteq> TRANSACTION_COINBASE
         then Inl (TX_CONSENSUS, ''bad-txns-cb-type'')
         else if fDIP0003Active_context \<and> \<not> IsSpecialTxVersion tx \<and> nType tx \<noteq> TRANSACTION_NORMAL
         then Inl (TX_CONSENSUS, ''bad-txns-type'')
         else if fDIP0001Active_context \<and> GetTotalSize tx > MAX_STANDARD_TX_SIZE
         then Inl (TX_CONSENSUS, ''bad-txns-oversize'')
         else Inr ())"

subsection \<open>Lock times\<close>

definition LOCKTIME_THRESHOLD :: int where "LOCKTIME_THRESHOLD = 500000000"
definition LOCKTIME_VERIFY_SEQUENCE :: u32 where "LOCKTIME_VERIFY_SEQUENCE = 1"

definition IsFinalTx :: "CTransaction \<Rightarrow> int \<Rightarrow> int \<Rightarrow> bool" where
  "IsFinalTx tx nBlockHeight nBlockTime \<longleftrightarrow>
     (if nLockTime tx = 0 then True
      else if uint (nLockTime tx) < (if uint (nLockTime tx) < LOCKTIME_THRESHOLD then nBlockHeight else nBlockTime) then True
      else list_all (\<lambda>i. nSequence i = SEQUENCE_FINAL) (vin tx))"

fun sequence_locks_loop ::
  "block_store \<Rightarrow> ptr \<Rightarrow> (CTxIn \<times> int) list \<Rightarrow> int \<Rightarrow> int \<Rightarrow> abort + (int \<times> int) \<times> int list" where
  "sequence_locks_loop st block [] nMinHeight nMinTime = Inr ((nMinHeight, nMinTime), [])"
| "sequence_locks_loop st block ((i, nCoinHeight) # is) nMinHeight nMinTime =
     (if nSequence i AND SEQUENCE_LOCKTIME_DISABLE_FLAG \<noteq> 0 then
        map_sum id (\<lambda>(l, hs). (l, 0 # hs)) (sequence_locks_loop st block is nMinHeight nMinTime)
      else if nSequence i AND SEQUENCE_LOCKTIME_TYPE_FLAG \<noteq> 0 then
        sum_bind (GetAncestor st block (max (nCoinHeight - 1) 0)) (\<lambda>a.
        case a of
          None \<Rightarrow> Inl NullDeref
        | Some q \<Rightarrow> sum_bind (GetMedianTimePast st q) (\<lambda>nCoinTime.
            map_sum id (\<lambda>(l, hs). (l, nCoinHeight # hs))
              (sequence_locks_loop st block is nMinHeight
                (max nMinTime (nCoinTime + uint (push_bit SEQUENCE_LOCKTIME_GRANULARITY (nSequence i AND SEQUENCE_LOCKTIME_MASK)) - 1)))))
      else
        map_sum id (\<lambda>(l, hs). (l, nCoinHeight # hs))
          (sequence_locks_loop st block is
            (max nMinHeight (nCoinHeight + uint (nSequence i AND SEQUENCE_LOCKTIME_MASK) - 1)) nMinTime))"

definition CalculateSequenceLocks ::
  "block_store \<Rightarrow> CTransaction \<Rightarrow> u32 \<Rightarrow> int list \<Rightarrow> ptr \<Rightarrow> abort + (int \<times> int) \<times> int list" where
  "CalculateSequenceLocks st tx flags prevHeights block =
     (if length prevHeights \<noteq> length (vin tx) then Inl AssertFailed
      else if \<not> ((scast (tx_nVersion tx) :: u32) \<ge> 2 \<and> flags AND LOCKTIME_VERIFY_SEQUENCE \<noteq> 0) then Inr ((-1, -1), prevHeights)
      else sequence_locks_loop st block (zip (vin tx) prevHeights) (-1) (-1))"

definition EvaluateSequenceLocks :: "block_store \<Rightarrow> ptr \<Rightarrow> int \<times> int \<Rightarrow> abort + bool" where
  "EvaluateSequenceLocks st block lockPair =
     (case st block of
        None \<Rightarrow> Inl NullDeref
      | Some b \<Rightarrow>
          case pprev b of
            None \<Rightarrow> Inl AssertFailed
          | Some q \<Rightarrow> sum_bind (GetMedianTimePast st q) (\<lambda>nBlockTime.
              Inr (\<not> (fst lockPair \<ge> nHeight b \<or> snd lockPair \<ge> nBlockTime))))"

definition SequenceLocks :: "block_store \<Rightarrow> CTransaction \<Rightarrow> u32 \<Rightarrow> int list \<Rightarrow> ptr \<Rightarrow> abort + bool \<times> int list" where
  "SequenceLocks st tx flags prevHeights block =
     sum_bind (CalculateSequenceLocks st tx flags prevHeights block) (\<lambda>(l, hs).
       map_sum id (\<lambda>b. (b, hs)) (EvaluateSequenceLocks st block l))"

section \<open>Serialization round trip\<close>

definition outpoint_ok :: "COutPoint \<Rightarrow> bool" where
  "outpoint_ok p \<longleftrightarrow> length (op_hash p) = 32"

definition txin_ok :: "CTxIn \<Rightarrow> bool" where
  "txin_ok i \<longleftrightarrow> outpoint_ok (prevout i) \<and> length (scriptSig i) \<le> MAX_SIZE"

definition txout_ok :: "CTxOut \<Rightarrow> bool" where
  "txout_ok out \<longleftrightarrow> - (2 ^ 63) \<le> nValue out \<and> nValue out < 2 ^ 63 \<and> length (scriptPubKey out) \<le> MAX_SIZE"

interpretation outpoint_codec: canonical_codec SerOutPoint UnserOutPoint outpoint_ok
proof
  fix p s assume "outpoint_ok p"
  then show "UnserOutPoint (SerOutPoint p @ s) = Inr (p, s)"
    by (simp add: UnserOutPoint_def SerOutPoint_def outpoint_ok_def blob_codec.round_trip)
next
  fix s p r assume "UnserOutPoint s = Inr (p, r)"
  then show "outpoint_ok p \<and> s = SerOutPoint p @ r"
    by (auto simp: UnserOutPoint_def SerOutPoint_def outpoint_ok_def sum_bind_ok read_bytes_ok read_int_iff)
qed

interpretation txin_codec: canonical_codec SerTxIn UnserTxIn txin_ok
proof
  fix i s assume "txin_ok i"
  then show "UnserTxIn (SerTxIn i @ s) = Inr (i, s)"
    by (simp add: UnserTxIn_def SerTxIn_def txin_ok_def outpoint_codec.round_trip bytes_codec.round_trip)
next
  fix s i r assume "UnserTxIn s = Inr (i, r)"
  then show "txin_ok i \<and> s = SerTxIn i @ r"
    by (auto simp: UnserTxIn_def SerTxIn_def txin_ok_def sum_bind_ok outpoint_codec.dec_iff bytes_codec.dec_iff read_int_iff)
qed

lemma sint_of_int_64: "- (2 ^ 63) \<le> v \<Longrightarrow> v < 2 ^ 63 \<Longrightarrow> sint (of_int v :: u64) = v"
  using signed_take_bit_int_eq_self [of 63 v] by (simp add: sint_sbintrunc')

lemma sint_64_range: "- (2 ^ 63) \<le> sint (w :: u64)" "sint (w :: u64) < 2 ^ 63"
  using sint_range_size [of w] by (simp_all add: word_size)

interpretation txout_codec: canonical_codec SerTxOut UnserTxOut txout_ok
proof
  fix out s assume "txout_ok out"
  then show "UnserTxOut (SerTxOut out @ s) = Inr (out, s)"
    using sint_of_int_64 [of "nValue out"] by (simp add: UnserTxOut_def SerTxOut_def txout_ok_def bytes_codec.round_trip)
next
  fix s out r assume "UnserTxOut s = Inr (out, r)"
  then show "txout_ok out \<and> s = SerTxOut out @ r"
    using sint_64_range by (auto simp: UnserTxOut_def SerTxOut_def txout_ok_def sum_bind_ok bytes_codec.dec_iff read_int_iff)
qed

interpretation vin_codec: canonical_codec "SerVector SerTxIn" "UnserVector UnserTxIn"
  "\<lambda>is. list_all txin_ok is \<and> length is \<le> MAX_SIZE"
  by (rule txin_codec.vector_canonical)

interpretation vout_codec: canonical_codec "SerVector SerTxOut" "UnserVector UnserTxOut"
  "\<lambda>os. list_all txout_ok os \<and> length os \<le> MAX_SIZE"
  by (rule txout_codec.vector_canonical)

definition tx_ok :: "CTransaction \<Rightarrow> bool" where
  "tx_ok tx \<longleftrightarrow> list_all txin_ok (vin tx) \<and> length (vin tx) \<le> MAX_SIZE \<and> list_all txout_ok (vout tx) \<and> length (vout tx) \<le> MAX_SIZE \<and>
     length (vExtraPayload tx) \<le> MAX_SIZE \<and> (HasExtraPayloadField tx \<or> vExtraPayload tx = []) \<and> 0 \<le> sint (tx_nVersion tx)"

text \<open>With a non-negative version the two halves of the first word are the version and the type.\<close>

lemma version_halves:
  assumes "0 \<le> sint (tx_nVersion tx)"
  shows "ucast (n32bitVersion tx AND 0xffff) = tx_nVersion tx" "ucast (drop_bit 16 (n32bitVersion tx) AND 0xffff) = nType tx"
proof -
  have m: "(x :: u32) AND 0xffff = take_bit 16 x" for x by (simp add: take_bit_eq_mask mask_eq_decr_exp)
  have top: "\<not> bit (tx_nVersion tx) 15" using assms bit_last_iff [of "tx_nVersion tx"] by simp
  show "ucast (n32bitVersion tx AND 0xffff) = tx_nVersion tx"
    unfolding m n32bitVersion_def by (rule bit_word_eqI) (auto simp: bit_simps bit_signed_iff)
  show "ucast (drop_bit 16 (n32bitVersion tx) AND 0xffff) = nType tx"
    unfolding m n32bitVersion_def using top
    by (intro bit_word_eqI) (auto simp: bit_simps bit_signed_iff bit_signed_take_bit_iff min_def)
qed

interpretation tx_codec: codec SerTransaction UnserTransaction tx_ok
proof
  fix tx s assume ok: "tx_ok tx"
  note v = version_halves [of tx]
  have "(sint (tx_nVersion tx) \<ge> SPECIAL_VERSION \<and> nType tx \<noteq> TRANSACTION_NORMAL) = HasExtraPayloadField tx"
    by (simp add: HasExtraPayloadField_def IsSpecialTxVersion_def)
  then show "UnserTransaction (SerTransaction tx @ s) = Inr (tx, s)"
    using ok v
    by (simp add: UnserTransaction_def SerTransaction_def tx_ok_def vin_codec.round_trip vout_codec.round_trip Let_def)
       (auto simp: bytes_codec.round_trip)
qed

section \<open>Values\<close>

lemma MoneyRange_iff: "MoneyRange v \<longleftrightarrow> 0 \<le> v \<and> v \<le> MAX_MONEY"
  by (simp add: MoneyRange_def)

lemma value_out_loop_eq:
  "MoneyRange v \<Longrightarrow> \<forall>x\<in>set outs. 0 \<le> nValue x \<Longrightarrow> v + sum_list (map nValue outs) \<le> MAX_MONEY \<Longrightarrow>
     value_out_loop outs v = Inr (v + sum_list (map nValue outs))"
proof (induction outs arbitrary: v)
  case (Cons out outs)
  have "0 \<le> sum_list (map nValue outs)" using Cons.prems by (intro sum_list_nonneg) auto
  then have "MoneyRange (nValue out)" "MoneyRange (v + nValue out)" using Cons.prems by (auto simp: MoneyRange_iff)
  then show ?case using Cons.IH [of "v + nValue out"] Cons.prems by (simp add: algebra_simps)
qed (simp add: MoneyRange_iff)

lemma check_outputs_iff:
  "0 \<le> v \<Longrightarrow> v \<le> MAX_MONEY \<Longrightarrow>
   check_outputs outs v = Inr () \<longleftrightarrow> (\<forall>x\<in>set outs. 0 \<le> nValue x) \<and> v + sum_list (map nValue outs) \<le> MAX_MONEY"
proof (induction outs arbitrary: v)
  case (Cons out outs)
  have nn: "0 \<le> sum_list (map nValue outs)" if "\<forall>x\<in>set outs. 0 \<le> nValue x" using that by (intro sum_list_nonneg) auto
  show ?case
  proof (cases "0 \<le> nValue out \<and> v + nValue out \<le> MAX_MONEY")
    case True
    then show ?thesis using Cons.IH [of "v + nValue out"] Cons.prems by (auto simp: MoneyRange_iff add.assoc)
  next
    case False
    then show ?thesis using nn Cons.prems by (auto simp: MoneyRange_iff)
  qed
qed simp

lemma check_duplicates_iff:
  "check_duplicates is S = Inr () \<longleftrightarrow> distinct (map prevout is) \<and> prevout ` set is \<inter> S = {}"
  by (induction "is" arbitrary: S) auto

lemma if_Inl_ok: "(if c then Inl e else x) = Inr y \<longleftrightarrow> \<not> c \<and> x = Inr y"
  by simp

lemma CheckTransaction_ok:
  "CheckTransaction tx = Inr () \<longleftrightarrow>
     (vin tx \<noteq> [] \<or> nType tx \<in> {TRANSACTION_QUORUM_COMMITMENT, TRANSACTION_MNHF_SIGNAL, TRANSACTION_POSE_SERVICE_COMMITMENT,
        TRANSACTION_ASSET_UNLOCK}) \<and>
     (vout tx \<noteq> [] \<or> nType tx \<in> {TRANSACTION_QUORUM_COMMITMENT, TRANSACTION_MNHF_SIGNAL, TRANSACTION_POSE_SERVICE_COMMITMENT}) \<and>
     GetTotalSize tx \<le> MAX_LEGACY_BLOCK_SIZE \<and> length (vExtraPayload tx) \<le> MAX_TX_EXTRA_PAYLOAD \<and>
     (\<forall>x\<in>set (vout tx). 0 \<le> nValue x) \<and> sum_list (map nValue (vout tx)) \<le> MAX_MONEY \<and>
     distinct (map prevout (vin tx)) \<and>
     (if IsCoinBase tx
      then length (scriptSig (vin tx ! 0)) \<in> {(if nType tx = TRANSACTION_COINBASE then 1 else 2)..100}
      else \<forall>i\<in>set (vin tx). \<not> COutPoint_IsNull (prevout i))"
proof -
  have "0 \<le> MAX_MONEY" by (simp add: MAX_MONEY_def COIN_def)
  then have outs: "check_outputs (vout tx) 0 = Inr () \<longleftrightarrow>
      (\<forall>x\<in>set (vout tx). 0 \<le> nValue x) \<and> sum_list (map nValue (vout tx)) \<le> MAX_MONEY"
    using check_outputs_iff [of 0 "vout tx"] by simp
  have dups: "check_duplicates (vin tx) {} = Inr () \<longleftrightarrow> distinct (map prevout (vin tx))" by (simp add: check_duplicates_iff)
  show ?thesis
  proof (cases "IsCoinBase tx")
    case True
    then show ?thesis
      unfolding CheckTransaction_def Let_def by (simp add: if_Inl_ok sum_bind_ok outs dups not_less del: One_nat_def) blast
  next
    case False
    then show ?thesis
      unfolding CheckTransaction_def Let_def by (simp add: if_Inl_ok sum_bind_ok outs dups not_less list_ex_iff) blast
  qed
qed

section \<open>Relative lock times\<close>

text \<open>What BIP 68 asks of one input whose coin was included at height \<open>h\<close>: nothing if its sequence
  number is final in the BIP 68 sense, otherwise that enough blocks or enough median time have passed.\<close>

definition lock_met :: "block_store \<Rightarrow> ptr \<Rightarrow> int \<Rightarrow> int \<Rightarrow> CTxIn \<Rightarrow> int \<Rightarrow> bool" where
  "lock_met st block height mtp i h \<longleftrightarrow>
     (if nSequence i AND SEQUENCE_LOCKTIME_DISABLE_FLAG \<noteq> 0 then True
      else if nSequence i AND SEQUENCE_LOCKTIME_TYPE_FLAG \<noteq> 0 then
        (\<exists>q m. GetAncestor st block (max (h - 1) 0) = Inr (Some q) \<and> GetMedianTimePast st q = Inr m \<and>
           m + 512 * uint (nSequence i AND SEQUENCE_LOCKTIME_MASK) \<le> mtp)
      else h + uint (nSequence i AND SEQUENCE_LOCKTIME_MASK) \<le> height)"

lemma time_lock_seconds:
  "uint (push_bit SEQUENCE_LOCKTIME_GRANULARITY (x AND SEQUENCE_LOCKTIME_MASK)) = 512 * uint (x AND SEQUENCE_LOCKTIME_MASK)"
proof -
  have m: "x AND SEQUENCE_LOCKTIME_MASK = take_bit 16 x"
    by (simp add: SEQUENCE_LOCKTIME_MASK_def take_bit_eq_mask mask_eq_decr_exp)
  have "uint (take_bit 16 x) < 2 ^ 16" using take_bit_int_less_exp [of 16 "uint x"] by (simp add: unsigned_take_bit_eq)
  then have "take_bit 32 (push_bit 9 (uint (take_bit 16 x))) = 512 * uint (take_bit 16 x)"
    by (subst take_bit_int_eq_self) (simp_all add: push_bit_eq_mult)
  then show ?thesis unfolding m SEQUENCE_LOCKTIME_GRANULARITY_def by (simp add: unsigned_push_bit_eq)
qed

lemma GetMedianTimePast_total:
  assumes "index_wf st" "st p = Some b"
  obtains m where "GetMedianTimePast st p = Inr m" "0 \<le> m"
proof -
  obtain ts where ts: "past_times st 11 (Some p) = Inr (GetBlockTime b # ts)"
    using past_times_total [OF assms, of 10] by auto
  let ?xs = "GetBlockTime b # ts"
  have nn: "past_times st n q = Inr us \<Longrightarrow> \<forall>t\<in>set us. 0 \<le> t" for n q us
  proof (induction n arbitrary: q us)
    case (Suc n)
    then show ?case by (cases q) (auto simp: GetBlockTime_def split: option.splits sum.splits simp: map_sum_def)
  qed simp
  have "sort ?xs ! (length ?xs div 2) \<in> set (sort ?xs)" by (intro nth_mem) simp
  then have "0 \<le> sort ?xs ! (length ?xs div 2)" unfolding set_sort by (rule bspec [OF nn [OF ts]])
  then show ?thesis using that ts by (simp add: GetMedianTimePast_def nMedianTimeSpan_def del: sort_key_simps)
qed

lemma sequence_locks_loop_spec:
  assumes wf: "index_wf st" "st block = Some b" and hs: "\<forall>(i, h)\<in>set ihs. 0 \<le> h \<and> h \<le> nHeight b"
  shows "\<exists>H' T' hs'. sequence_locks_loop st block ihs H T = Inr ((H', T'), hs') \<and>
    (H' < nHeight b \<and> T' < mtp \<longleftrightarrow> H < nHeight b \<and> T < mtp \<and> (\<forall>(i, h)\<in>set ihs. lock_met st block (nHeight b) mtp i h))"
  using hs
proof (induction ihs arbitrary: H T)
  case (Cons ih ihs)
  obtain i h where ih: "ih = (i, h)" by force
  have h: "0 \<le> h" "h \<le> nHeight b" using Cons.prems ih by auto
  have hs': "\<forall>(i, h)\<in>set ihs. 0 \<le> h \<and> h \<le> nHeight b" using Cons.prems by auto
  let ?w = "uint (nSequence i AND SEQUENCE_LOCKTIME_MASK)"
  consider (off) "nSequence i AND SEQUENCE_LOCKTIME_DISABLE_FLAG \<noteq> 0"
    | (time) "nSequence i AND SEQUENCE_LOCKTIME_DISABLE_FLAG = 0" "nSequence i AND SEQUENCE_LOCKTIME_TYPE_FLAG \<noteq> 0"
    | (blocks) "nSequence i AND SEQUENCE_LOCKTIME_DISABLE_FLAG = 0" "nSequence i AND SEQUENCE_LOCKTIME_TYPE_FLAG = 0"
    by blast
  then show ?case
  proof cases
    case off
    then have "lock_met st block (nHeight b) mtp i h" by (simp add: lock_met_def)
    then show ?thesis using off Cons.IH [OF hs', of H T] by (auto simp: ih)
  next
    case blocks
    then have "lock_met st block (nHeight b) mtp i h \<longleftrightarrow> h + ?w - 1 < nHeight b" by (auto simp: lock_met_def)
    then show ?thesis using blocks Cons.IH [OF hs', of "max H (h + ?w - 1)" T] by (auto simp: ih)
  next
    case time
    have "0 \<le> max (h - 1) 0" "max (h - 1) 0 \<le> nHeight b" using h index_wf_height [OF wf] by auto
    then obtain q c where q: "GetAncestor st block (max (h - 1) 0) = Inr (Some q)" "st q = Some c"
      using GetAncestor_in_range [OF wf] by metis
    obtain m where m: "GetMedianTimePast st q = Inr m" using GetMedianTimePast_total [OF wf(1) q(2)] by blast
    have "lock_met st block (nHeight b) mtp i h \<longleftrightarrow> m + 512 * ?w - 1 < mtp" using time q m by (auto simp: lock_met_def)
    then show ?thesis using time q m Cons.IH [OF hs', of H "max T (m + 512 * ?w - 1)"]
      by (auto simp: ih time_lock_seconds simp del: push_bit_and)
  qed
qed auto

section \<open>Properties\<close>

text \<open>\<^bold>\<open>C8\<close>: a transaction survives the wire. Deserializing a serialized transaction whose vectors and
  scripts are within the size limit, whose amounts fit \<^verbatim>\<open>int64_t\<close>, which carries a payload only if its type
  has one, and whose version is not negative, gives the same transaction and leaves the rest of the
  stream unread.\<close>

theorem tx_round_trip:
  assumes "tx_ok tx"
  shows "UnserTransaction (SerTransaction tx @ s) = Inr (tx, s)"
  using assms by (rule tx_codec.round_trip)

definition example_spend :: CTransaction where
  "example_spend =
     \<lparr>vin = [\<lparr>prevout = \<lparr>op_hash = replicate 32 7, op_n = 1\<rparr>, scriptSig = [0x51], nSequence = 5\<rparr>],
      vout = [\<lparr>nValue = 3 * COIN, scriptPubKey = [0x51]\<rparr>, \<lparr>nValue = COIN, scriptPubKey = []\<rparr>],
      tx_nVersion = 2, nType = 0, nLockTime = 100, vExtraPayload = []\<rparr>"

lemma example_spend_ok: "tx_ok example_spend"
  by (simp add: tx_ok_def example_spend_def txin_ok_def txout_ok_def outpoint_ok_def MAX_SIZE_def COIN_def)

theorem tx_round_trip_witness: "UnserTransaction (SerTransaction example_spend @ [1]) = Inr (example_spend, [1])"
  by (rule tx_round_trip [OF example_spend_ok])



text \<open>\<^bold>\<open>C19\<close>: \<^verbatim>\<open>CheckTransaction\<close> accepts exactly the transactions that have inputs and outputs (or a type that
  may do without), respect both size limits, pay no negative output and in total at most \<^verbatim>\<open>MAX_MONEY\<close>,
  spend no output twice, and either are a coinbase with a script of allowed length or have no null
  input; on those \<^verbatim>\<open>GetValueOut\<close> does not throw and returns the sum of the outputs.\<close>

theorem CheckTransaction_iff:
  "(CheckTransaction tx = Inr () \<longleftrightarrow>
     (vin tx \<noteq> [] \<or> nType tx \<in> {TRANSACTION_QUORUM_COMMITMENT, TRANSACTION_MNHF_SIGNAL, TRANSACTION_POSE_SERVICE_COMMITMENT,
        TRANSACTION_ASSET_UNLOCK}) \<and>
     (vout tx \<noteq> [] \<or> nType tx \<in> {TRANSACTION_QUORUM_COMMITMENT, TRANSACTION_MNHF_SIGNAL, TRANSACTION_POSE_SERVICE_COMMITMENT}) \<and>
     GetTotalSize tx \<le> MAX_LEGACY_BLOCK_SIZE \<and> length (vExtraPayload tx) \<le> MAX_TX_EXTRA_PAYLOAD \<and>
     (\<forall>x\<in>set (vout tx). 0 \<le> nValue x) \<and> sum_list (map nValue (vout tx)) \<le> MAX_MONEY \<and>
     distinct (map prevout (vin tx)) \<and>
     (if IsCoinBase tx
      then length (scriptSig (vin tx ! 0)) \<in> {(if nType tx = TRANSACTION_COINBASE then 1 else 2)..100}
      else \<forall>i\<in>set (vin tx). \<not> COutPoint_IsNull (prevout i))) \<and>
   (CheckTransaction tx = Inr () \<longrightarrow> GetValueOut tx = Inr (sum_list (map nValue (vout tx))))"
proof -
  have "MoneyRange 0" by (simp add: MoneyRange_def MAX_MONEY_def COIN_def)
  then have "CheckTransaction tx = Inr () \<longrightarrow> GetValueOut tx = Inr (sum_list (map nValue (vout tx)))"
    using value_out_loop_eq [of 0 "vout tx"] by (auto simp: CheckTransaction_ok GetValueOut_def)
  with CheckTransaction_ok [of tx] show ?thesis by blast
qed

theorem CheckTransaction_iff_witness: "CheckTransaction example_spend = Inr () \<and> GetValueOut example_spend = Inr (4 * COIN)"
proof -
  have "GetTotalSize example_spend \<le> MAX_LEGACY_BLOCK_SIZE"
    by (simp add: GetTotalSize_def SerTransaction_def example_spend_def SerVector_def SerTxIn_def SerTxOut_def SerOutPoint_def
        SerBytes_def length_WriteCompactSize GetSizeOfCompactSize_def MAX_LEGACY_BLOCK_SIZE_def HasExtraPayloadField_def
        IsSpecialTxVersion_def SPECIAL_VERSION_def)
  then have "CheckTransaction example_spend = Inr ()"
    using CheckTransaction_iff [of example_spend]
    by (simp add: example_spend_def MAX_TX_EXTRA_PAYLOAD_def MAX_MONEY_def COIN_def IsCoinBase_def COutPoint_IsNull_def)
  then show ?thesis using CheckTransaction_iff [of example_spend] by (simp add: example_spend_def)
qed

text \<open>\<^bold>\<open>C21\<close>: relative lock times are judged input by input. On a well-formed block tree, for a block with a
  parent and coins that are not younger than the block, \<^verbatim>\<open>SequenceLocks\<close> returns without failing, and it
  says yes exactly if the rule is not enforced (old version or flag unset) or every input meets its own
  BIP 68 lock: its height plus the block count has been reached, or the median time past of the block
  before its coin plus the seconds encoded is not after the median time past of the block's parent.\<close>

theorem SequenceLocks_iff:
  assumes wf: "index_wf st" "st block = Some b" "pprev b = Some q" "GetMedianTimePast st q = Inr mtp"
    and hs: "length hs = length (vin tx)" "\<forall>h\<in>set hs. 0 \<le> h \<and> h \<le> nHeight b"
  shows "\<exists>hs'. SequenceLocks st tx flags hs block =
    Inr (((scast (tx_nVersion tx) :: u32) \<ge> 2 \<and> flags AND LOCKTIME_VERIFY_SEQUENCE \<noteq> 0 \<longrightarrow>
           (\<forall>(i, h)\<in>set (zip (vin tx) hs). lock_met st block (nHeight b) mtp i h)), hs')"
proof -
  obtain c where c: "st q = Some c" "nHeight b = nHeight c + 1" using index_wf_prev [OF wf(1-3)] by blast
  have base: "-1 < nHeight b" using index_wf_height [OF wf(1) c(1)] c by simp
  obtain m where "GetMedianTimePast st q = Inr m" "0 \<le> m" using GetMedianTimePast_total [OF wf(1) c(1)] by blast
  then have mtp: "-1 < mtp" using wf(4) by simp
  have ihs: "\<forall>(i, h)\<in>set (zip (vin tx) hs). 0 \<le> h \<and> h \<le> nHeight b" using hs(2) by (auto dest: set_zip_rightD)
  obtain H T hs' where loop: "sequence_locks_loop st block (zip (vin tx) hs) (-1) (-1) = Inr ((H, T), hs')"
    "H < nHeight b \<and> T < mtp \<longleftrightarrow> (\<forall>(i, h)\<in>set (zip (vin tx) hs). lock_met st block (nHeight b) mtp i h)"
    using sequence_locks_loop_spec [OF wf(1,2) ihs, of "-1" "-1" mtp] unfolding eqTrueI [OF base] eqTrueI [OF mtp] simp_thms
    by blast
  have ev: "EvaluateSequenceLocks st block l = Inr (fst l < nHeight b \<and> snd l < mtp)" for l
    using wf by (auto simp: EvaluateSequenceLocks_def)
  show ?thesis
  proof (cases "(scast (tx_nVersion tx) :: u32) \<ge> 2 \<and> flags AND LOCKTIME_VERIFY_SEQUENCE \<noteq> 0")
    case True
    then show ?thesis using hs(1) loop ev by (auto simp: SequenceLocks_def CalculateSequenceLocks_def)
  next
    case False
    then have "CalculateSequenceLocks st tx flags hs block = Inr ((-1, -1), hs)" using hs(1) by (auto simp: CalculateSequenceLocks_def)
    then show ?thesis using False base mtp ev by (auto simp: SequenceLocks_def)
  qed
qed

theorem SequenceLocks_iff_witness:
  "\<exists>hs'. SequenceLocks example_index example_spend 1 [1] [2] = Inr (False, hs')"
proof -
  have t: "GetMedianTimePast example_index [1] = Inr 60"
    by (simp add: GetMedianTimePast_def nMedianTimeSpan_def past_times_numeral example_index_simps
        CBlockIndex_default_def GetBlockTime_def)
  have p: "pprev (the (example_index [2])) = Some [1]" "nHeight (the (example_index [2])) = 2"
    by (simp_all add: example_index_simps CBlockIndex_default_def)
  have "\<not> lock_met example_index [2] 2 60 (vin example_spend ! 0) 1"
    by (simp add: lock_met_def example_spend_def SEQUENCE_LOCKTIME_DISABLE_FLAG_def SEQUENCE_LOCKTIME_TYPE_FLAG_def
        SEQUENCE_LOCKTIME_MASK_def)
  then show ?thesis
    using SequenceLocks_iff [OF example_index_wf _ _ t, of "[2]" "the (example_index [2])" "[1]" example_spend 1] p
    by (simp add: example_index_simps example_spend_def LOCKTIME_VERIFY_SEQUENCE_def)
qed

end
