(* ===== verification/Coins_Cache.thy ===== *)
theory Coins_Cache
  imports Transaction
begin

text \<open>
  The cache of unspent transaction outputs: \<^verbatim>\<open>src/src/coins.h\<close> and \<^verbatim>\<open>src/src/coins.cpp\<close>. A
  \<^verbatim>\<open>CCoinsViewCache\<close> overlays a backing view; entries carry the flags \<^verbatim>\<open>DIRTY\<close> (differs from the
  backing view) and \<^verbatim>\<open>FRESH\<close> (the backing view has no unspent coin there). The backing view enters as the
  function \<open>base\<close> that its \<^verbatim>\<open>GetCoin\<close> computes: \<open>None\<close> where \<^verbatim>\<open>GetCoin\<close> returns false.
  Reading fills the cache, so the reading operations return the cache too. The hash map of the
  source is a partial function; where the source iterates over it, the model takes the list of its
  elements in whatever order the iteration yields. Memory accounting is left out.

  The abstract specification is the set of unspent outputs itself, a partial function from
  outpoints to coins (\<open>utxo_of\<close>), with the invariant \<open>cache_inv\<close> that the flags tell the truth; the
  lemmas show that every operation keeps the invariant and acts on the set as its name says, and
  that flushing a cache into its parent loses nothing.
\<close>

section \<open>Model\<close>

record Coin =
  out :: CTxOut
  fCoinBase :: bool
  coin_nHeight :: int
  fCoinStake :: bool

text \<open>\<^verbatim>\<open>nHeight\<close> is a bit field of 31 bits.\<close>

definition mk_Coin :: "CTxOut \<Rightarrow> int \<Rightarrow> bool \<Rightarrow> bool \<Rightarrow> Coin" where
  "mk_Coin outIn nHeightIn fCoinBaseIn fCoinStakeIn =
     \<lparr>out = outIn, fCoinBase = fCoinBaseIn, coin_nHeight = nHeightIn mod 2 ^ 31, fCoinStake = fCoinStakeIn\<rparr>"

text \<open>The empty coin: the value of \<^verbatim>\<open>Coin()\<close>, of \<^verbatim>\<open>Clear\<close> and of \<^verbatim>\<open>coinEmpty\<close>.\<close>

definition coinEmpty :: Coin where
  "coinEmpty = \<lparr>out = CTxOut_null, fCoinBase = False, coin_nHeight = 0, fCoinStake = False\<rparr>"

definition IsSpent :: "Coin \<Rightarrow> bool" where
  "IsSpent c \<longleftrightarrow> CTxOut_IsNull (out c)"

definition IsUnspendable :: "CScript \<Rightarrow> bool" where
  "IsUnspendable s \<longleftrightarrow> (length s > 0 \<and> s ! 0 = 0x6a) \<or> length s > 10000"

record CCoinsCacheEntry =
  ce_coin :: Coin
  DIRTY :: bool
  FRESH :: bool

record CCoinsViewCache =
  hashBlock :: uint256
  cacheCoins :: "COutPoint \<Rightarrow> CCoinsCacheEntry option"

type_synonym coins_view = "COutPoint \<Rightarrow> Coin option"

definition FetchCoin :: "coins_view \<Rightarrow> CCoinsViewCache \<Rightarrow> COutPoint \<Rightarrow> CCoinsCacheEntry option \<times> CCoinsViewCache" where
  "FetchCoin base c outpoint =
     (case cacheCoins c outpoint of
        Some e \<Rightarrow> (Some e, c)
      | None \<Rightarrow>
          case base outpoint of
            None \<Rightarrow> (None, c)
          | Some tmp \<Rightarrow>
              let e = \<lparr>ce_coin = tmp, DIRTY = False, FRESH = IsSpent tmp\<rparr>
              in (Some e, c\<lparr>cacheCoins := (cacheCoins c)(outpoint \<mapsto> e)\<rparr>))"

definition GetCoin :: "coins_view \<Rightarrow> CCoinsViewCache \<Rightarrow> COutPoint \<Rightarrow> Coin option \<times> CCoinsViewCache" where
  "GetCoin base c outpoint =
     (let (it, c) = FetchCoin base c outpoint in
      (case it of Some e \<Rightarrow> if IsSpent (ce_coin e) then None else Some (ce_coin e) | None \<Rightarrow> None, c))"

definition AddCoin :: "CCoinsViewCache \<Rightarrow> COutPoint \<Rightarrow> Coin \<Rightarrow> bool \<Rightarrow> abort + CCoinsViewCache" where
  "AddCoin c outpoint coin possible_overwrite =
     (if IsSpent coin then Inl AssertFailed
      else if IsUnspendable (scriptPubKey (out coin)) then Inr c
      else
        let it = (case cacheCoins c outpoint of
                    Some e \<Rightarrow> e | None \<Rightarrow> \<lparr>ce_coin = coinEmpty, DIRTY = False, FRESH = False\<rparr>) in
        if \<not> possible_overwrite \<and> \<not> IsSpent (ce_coin it) then Inl Thrown
        else
          let fresh = \<not> possible_overwrite \<and> \<not> DIRTY it;
              e = \<lparr>ce_coin = coin, DIRTY = True, FRESH = FRESH it \<or> fresh\<rparr>
          in Inr (c\<lparr>cacheCoins := (cacheCoins c)(outpoint \<mapsto> e)\<rparr>))"

definition EmplaceCoinInternalDANGER :: "CCoinsViewCache \<Rightarrow> COutPoint \<Rightarrow> Coin \<Rightarrow> CCoinsViewCache" where
  "EmplaceCoinInternalDANGER c outpoint coin =
     (case cacheCoins c outpoint of
        Some _ \<Rightarrow> c
      | None \<Rightarrow> c\<lparr>cacheCoins := (cacheCoins c)(outpoint \<mapsto> \<lparr>ce_coin = coin, DIRTY = True, FRESH = False\<rparr>)\<rparr>)"

text \<open>\<^verbatim>\<open>SpendCoin\<close>: \<open>None\<close> where the source returns false, otherwise the coin moved out.\<close>

definition SpendCoin :: "coins_view \<Rightarrow> CCoinsViewCache \<Rightarrow> COutPoint \<Rightarrow> Coin option \<times> CCoinsViewCache" where
  "SpendCoin base c outpoint =
     (let (it, c) = FetchCoin base c outpoint in
      case it of
        None \<Rightarrow> (None, c)
      | Some e \<Rightarrow>
          (Some (ce_coin e),
           c\<lparr>cacheCoins := (cacheCoins c)(outpoint :=
               if FRESH e then None else Some (e\<lparr>DIRTY := True, ce_coin := coinEmpty\<rparr>))\<rparr>))"

definition AccessCoin :: "coins_view \<Rightarrow> CCoinsViewCache \<Rightarrow> COutPoint \<Rightarrow> Coin \<times> CCoinsViewCache" where
  "AccessCoin base c outpoint =
     (let (it, c) = FetchCoin base c outpoint in (case it of None \<Rightarrow> coinEmpty | Some e \<Rightarrow> ce_coin e, c))"

definition HaveCoin :: "coins_view \<Rightarrow> CCoinsViewCache \<Rightarrow> COutPoint \<Rightarrow> bool \<times> CCoinsViewCache" where
  "HaveCoin base c outpoint =
     (let (it, c) = FetchCoin base c outpoint in (case it of None \<Rightarrow> False | Some e \<Rightarrow> \<not> IsSpent (ce_coin e), c))"

definition HaveCoinInCache :: "CCoinsViewCache \<Rightarrow> COutPoint \<Rightarrow> bool" where
  "HaveCoinInCache c outpoint \<longleftrightarrow> (case cacheCoins c outpoint of None \<Rightarrow> False | Some e \<Rightarrow> \<not> IsSpent (ce_coin e))"

definition GetBestBlock :: "uint256 \<Rightarrow> CCoinsViewCache \<Rightarrow> uint256 \<times> CCoinsViewCache" where
  "GetBestBlock base_best c =
     (let h = (if uint256_IsNull (hashBlock c) then base_best else hashBlock c) in (h, c\<lparr>hashBlock := h\<rparr>))"

definition SetBestBlock :: "CCoinsViewCache \<Rightarrow> uint256 \<Rightarrow> CCoinsViewCache" where
  "SetBestBlock c h = c\<lparr>hashBlock := h\<rparr>"

fun AddCoins_loop ::
  "coins_view \<Rightarrow> CCoinsViewCache \<Rightarrow> uint256 \<Rightarrow> nat \<Rightarrow> CTxOut list \<Rightarrow> int \<Rightarrow> bool \<Rightarrow> bool \<Rightarrow> bool \<Rightarrow> abort + CCoinsViewCache" where
  "AddCoins_loop base c txid i [] height fCoinbase fCoinstake check_for_overwrite = Inr c"
| "AddCoins_loop base c txid i (x # xs) height fCoinbase fCoinstake check_for_overwrite =
     (let p = \<lparr>op_hash = txid, op_n = of_nat i\<rparr>;
          (overwrite, c) = (if check_for_overwrite then HaveCoin base c p else (fCoinbase, c))
      in sum_bind (AddCoin c p (mk_Coin x height fCoinbase fCoinstake) overwrite) (\<lambda>c.
           AddCoins_loop base c txid (i + 1) xs height fCoinbase fCoinstake check_for_overwrite))"

definition AddCoins ::
  "coins_view \<Rightarrow> (byte list \<Rightarrow> uint256) \<Rightarrow> CCoinsViewCache \<Rightarrow> CTransaction \<Rightarrow> int \<Rightarrow> bool \<Rightarrow> abort + CCoinsViewCache" where
  "AddCoins base Hash c tx height check_for_overwrite =
     AddCoins_loop base c (ComputeHash Hash tx) 0 (vout tx) height (IsCoinBase tx) (IsCoinStake tx) check_for_overwrite"

text \<open>\<^verbatim>\<open>BatchWrite\<close> merges the entries of a child into the parent: one entry, then all of them.\<close>

definition batch_entry ::
  "(COutPoint \<Rightarrow> CCoinsCacheEntry option) \<Rightarrow> COutPoint \<Rightarrow> CCoinsCacheEntry \<Rightarrow> abort + (COutPoint \<Rightarrow> CCoinsCacheEntry option)" where
  "batch_entry m k e =
     (if \<not> DIRTY e then Inr m
      else
        case m k of
          None \<Rightarrow>
            if FRESH e \<and> IsSpent (ce_coin e) then Inr m
            else Inr (m(k \<mapsto> \<lparr>ce_coin = ce_coin e, DIRTY = True, FRESH = FRESH e\<rparr>))
        | Some us \<Rightarrow>
            if FRESH e \<and> \<not> IsSpent (ce_coin us) then Inl Thrown
            else if FRESH us \<and> IsSpent (ce_coin e) then Inr (m(k := None))
            else Inr (m(k \<mapsto> us\<lparr>ce_coin := ce_coin e, DIRTY := True\<rparr>)))"

fun batch_loop ::
  "(COutPoint \<Rightarrow> CCoinsCacheEntry option) \<Rightarrow> (COutPoint \<times> CCoinsCacheEntry) list \<Rightarrow> abort + (COutPoint \<Rightarrow> CCoinsCacheEntry option)" where
  "batch_loop m [] = Inr m"
| "batch_loop m ((k, e) # es) = sum_bind (batch_entry m k e) (\<lambda>m. batch_loop m es)"

definition BatchWrite :: "CCoinsViewCache \<Rightarrow> (COutPoint \<times> CCoinsCacheEntry) list \<Rightarrow> uint256 \<Rightarrow> abort + CCoinsViewCache" where
  "BatchWrite c mapCoins hashBlockIn =
     map_sum id (\<lambda>m. c\<lparr>cacheCoins := m, hashBlock := hashBlockIn\<rparr>) (batch_loop (cacheCoins c) mapCoins)"

text \<open>\<^verbatim>\<open>Flush\<close> and \<^verbatim>\<open>Sync\<close> of a child whose backing view is the cache \<open>parent\<close>; the result is the child and
  the parent. \<open>es\<close> lists the child's entries in iteration order.\<close>

definition Flush ::
  "CCoinsViewCache \<Rightarrow> (COutPoint \<times> CCoinsCacheEntry) list \<Rightarrow> CCoinsViewCache \<Rightarrow> abort + CCoinsViewCache \<times> CCoinsViewCache" where
  "Flush child es parent =
     sum_bind (BatchWrite parent es (hashBlock child)) (\<lambda>parent. Inr (child\<lparr>cacheCoins := Map.empty\<rparr>, parent))"

definition Sync ::
  "CCoinsViewCache \<Rightarrow> (COutPoint \<times> CCoinsCacheEntry) list \<Rightarrow> CCoinsViewCache \<Rightarrow> abort + CCoinsViewCache \<times> CCoinsViewCache" where
  "Sync child es parent =
     sum_bind (BatchWrite parent es (hashBlock child)) (\<lambda>parent.
       Inr (child\<lparr>cacheCoins := \<lambda>k. case cacheCoins child k of
              None \<Rightarrow> None
            | Some e \<Rightarrow> if IsSpent (ce_coin e) then None else Some (e\<lparr>DIRTY := False, FRESH := False\<rparr>)\<rparr>, parent))"

definition Uncache :: "CCoinsViewCache \<Rightarrow> COutPoint \<Rightarrow> CCoinsViewCache" where
  "Uncache c k =
     (case cacheCoins c k of
        None \<Rightarrow> c
      | Some e \<Rightarrow> if \<not> DIRTY e \<and> \<not> FRESH e then c\<lparr>cacheCoins := (cacheCoins c)(k := None)\<rparr> else c)"

fun have_inputs_loop :: "coins_view \<Rightarrow> CCoinsViewCache \<Rightarrow> CTxIn list \<Rightarrow> bool \<times> CCoinsViewCache" where
  "have_inputs_loop base c [] = (True, c)"
| "have_inputs_loop base c (i # is) =
     (let (h, c) = HaveCoin base c (prevout i) in if h then have_inputs_loop base c is else (False, c))"

definition HaveInputs :: "coins_view \<Rightarrow> CCoinsViewCache \<Rightarrow> CTransaction \<Rightarrow> bool \<times> CCoinsViewCache" where
  "HaveInputs base c tx = (if IsCoinBase tx then (True, c) else have_inputs_loop base c (vin tx))"

text \<open>The assertion of \<^verbatim>\<open>SanityCheck\<close> on one entry: three of the eight flag combinations cannot occur.\<close>

definition entry_sane :: "CCoinsCacheEntry \<Rightarrow> bool" where
  "entry_sane e \<longleftrightarrow>
     (let attr = (if DIRTY e then 1 else 0) + (if FRESH e then 2 else 0) + (if IsSpent (ce_coin e) then 4 else 0) :: nat
      in attr \<noteq> 2 \<and> attr \<noteq> 4 \<and> attr \<noteq> 7)"

fun value_in_loop :: "coins_view \<Rightarrow> CCoinsViewCache \<Rightarrow> CTxIn list \<Rightarrow> CAmount \<Rightarrow> CAmount \<times> CCoinsViewCache" where
  "value_in_loop base c [] nResult = (nResult, c)"
| "value_in_loop base c (i # is) nResult =
     (let (coin, c) = AccessCoin base c (prevout i) in value_in_loop base c is (nResult + nValue (out coin)))"

definition GetValueIn :: "coins_view \<Rightarrow> CCoinsViewCache \<Rightarrow> CTransaction \<Rightarrow> CAmount \<times> CCoinsViewCache" where
  "GetValueIn base c tx = (if IsCoinBase tx then (0, c) else value_in_loop base c (vin tx) 0)"

fun access_by_txid_loop :: "coins_view \<Rightarrow> CCoinsViewCache \<Rightarrow> uint256 \<Rightarrow> nat \<Rightarrow> nat \<Rightarrow> Coin \<times> CCoinsViewCache" where
  "access_by_txid_loop base c txid n 0 = (coinEmpty, c)"
| "access_by_txid_loop base c txid n (Suc k) =
     (let (alternate, c) = AccessCoin base c \<lparr>op_hash = txid, op_n = of_nat n\<rparr> in
      if \<not> IsSpent alternate then (alternate, c) else access_by_txid_loop base c txid (n + 1) k)"

definition MAX_OUTPUTS_PER_BLOCK :: nat where
  "MAX_OUTPUTS_PER_BLOCK = 2000000 div 9"

definition AccessByTxid :: "coins_view \<Rightarrow> CCoinsViewCache \<Rightarrow> uint256 \<Rightarrow> Coin \<times> CCoinsViewCache" where
  "AccessByTxid base c txid = access_by_txid_loop base c txid 0 MAX_OUTPUTS_PER_BLOCK"

section \<open>The abstract set of unspent outputs\<close>

definition unspent :: "Coin option \<Rightarrow> Coin option" where
  "unspent x = (case x of None \<Rightarrow> None | Some c \<Rightarrow> if IsSpent c then None else Some c)"

definition utxo_of :: "coins_view \<Rightarrow> CCoinsViewCache \<Rightarrow> coins_view" where
  "utxo_of base c k = (case cacheCoins c k of None \<Rightarrow> unspent (base k) | Some e \<Rightarrow> unspent (Some (ce_coin e)))"

text \<open>The flags tell the truth: where the backing view has an unspent coin nothing is marked fresh, a
  clean entry agrees with the backing view, and the assertion of \<^verbatim>\<open>SanityCheck\<close> holds.\<close>

definition cache_inv :: "coins_view \<Rightarrow> CCoinsViewCache \<Rightarrow> bool" where
  "cache_inv base c \<longleftrightarrow>
     (\<forall>k e. cacheCoins c k = Some e \<longrightarrow>
        (FRESH e \<longrightarrow> unspent (base k) = None) \<and>
        (\<not> DIRTY e \<longrightarrow> unspent (Some (ce_coin e)) = unspent (base k)) \<and> entry_sane e)"

lemma unspent_simps [simp]:
  "unspent None = None" "IsSpent c \<Longrightarrow> unspent (Some c) = None" "\<not> IsSpent c \<Longrightarrow> unspent (Some c) = Some c"
  "unspent (unspent x) = unspent x"
  by (auto simp: unspent_def split: option.splits)

lemma unspent_Some_iff: "unspent x = Some c \<longleftrightarrow> x = Some c \<and> \<not> IsSpent c"
  by (auto simp: unspent_def split: option.splits)

lemma unspent_coin_None [simp]: "unspent (Some c) = None \<longleftrightarrow> IsSpent c"
  by (simp add: unspent_def)

lemma IsSpent_coinEmpty [simp]: "IsSpent coinEmpty"
  by (simp add: IsSpent_def coinEmpty_def CTxOut_IsNull_def CTxOut_null_def)

lemma unspent_utxo_of [simp]: "unspent (utxo_of base c k) = utxo_of base c k"
  by (simp add: utxo_of_def split: option.splits)

lemma utxo_of_unspent: "utxo_of base c k = Some x \<Longrightarrow> \<not> IsSpent x"
  by (auto simp: utxo_of_def unspent_Some_iff split: option.splits)

lemma entry_sane_iff:
  "entry_sane e \<longleftrightarrow> (FRESH e \<and> \<not> DIRTY e \<longrightarrow> IsSpent (ce_coin e)) \<and> (IsSpent (ce_coin e) \<and> \<not> DIRTY e \<longrightarrow> FRESH e) \<and>
     \<not> (DIRTY e \<and> FRESH e \<and> IsSpent (ce_coin e))"
  by (auto simp: entry_sane_def)

lemma cache_invD:
  assumes "cache_inv base c" "cacheCoins c k = Some e"
  shows "FRESH e \<Longrightarrow> unspent (base k) = None" "\<not> DIRTY e \<Longrightarrow> unspent (Some (ce_coin e)) = unspent (base k)" "entry_sane e"
  using assms by (auto simp: cache_inv_def)

lemma cache_inv_update:
  assumes "cache_inv base c" "FRESH e \<Longrightarrow> unspent (base k) = None"
    "\<not> DIRTY e \<Longrightarrow> unspent (Some (ce_coin e)) = unspent (base k)" "entry_sane e"
  shows "cache_inv base (c\<lparr>cacheCoins := (cacheCoins c)(k \<mapsto> e)\<rparr>)"
  using assms by (simp add: cache_inv_def)

lemma cache_inv_erase: "cache_inv base c \<Longrightarrow> cache_inv base (c\<lparr>cacheCoins := (cacheCoins c)(k := None)\<rparr>)"
  by (simp add: cache_inv_def)

lemma utxo_of_update: "utxo_of base (c\<lparr>cacheCoins := (cacheCoins c)(k := x)\<rparr>) =
    (utxo_of base c)(k := (case x of None \<Rightarrow> unspent (base k) | Some e \<Rightarrow> unspent (Some (ce_coin e))))"
  by (auto simp: utxo_of_def)

lemma FetchCoin_spec:
  assumes "cache_inv base c" "FetchCoin base c k = (it, c')"
  shows "cache_inv base c'" "utxo_of base c' = utxo_of base c" "cacheCoins c' k = it" "hashBlock c' = hashBlock c"
    "utxo_of base c k = (case it of None \<Rightarrow> None | Some e \<Rightarrow> unspent (Some (ce_coin e)))"
proof -
  show "cache_inv base c'"
    using assms by (auto simp: FetchCoin_def Let_def entry_sane_def split: option.splits intro!: cache_inv_update)
  show u: "utxo_of base c' = utxo_of base c"
    using assms(2) by (auto simp: FetchCoin_def Let_def utxo_of_def fun_eq_iff split: option.splits if_splits)
  show k: "cacheCoins c' k = it" "hashBlock c' = hashBlock c" using assms(2) by (auto simp: FetchCoin_def Let_def split: option.splits)
  show "utxo_of base c k = (case it of None \<Rightarrow> None | Some e \<Rightarrow> unspent (Some (ce_coin e)))"
    using assms(2) by (auto simp: FetchCoin_def Let_def utxo_of_def split: option.splits)
qed

lemma GetCoin_spec:
  assumes "cache_inv base c"
  shows "fst (GetCoin base c k) = utxo_of base c k" "cache_inv base (snd (GetCoin base c k))"
    "utxo_of base (snd (GetCoin base c k)) = utxo_of base c"
  using FetchCoin_spec [OF assms] by (auto simp: GetCoin_def split: prod.splits option.splits)

lemma HaveCoin_spec:
  assumes "cache_inv base c"
  shows "fst (HaveCoin base c k) \<longleftrightarrow> utxo_of base c k \<noteq> None" "cache_inv base (snd (HaveCoin base c k))"
    "utxo_of base (snd (HaveCoin base c k)) = utxo_of base c"
  using FetchCoin_spec [OF assms] by (auto simp: HaveCoin_def split: prod.splits option.splits)

lemma AccessCoin_spec:
  assumes "cache_inv base c"
  shows "unspent (Some (fst (AccessCoin base c k))) = utxo_of base c k" "cache_inv base (snd (AccessCoin base c k))"
    "utxo_of base (snd (AccessCoin base c k)) = utxo_of base c"
  using FetchCoin_spec [OF assms] by (auto simp: AccessCoin_def split: prod.splits option.splits)

lemma SpendCoin_spec:
  assumes "cache_inv base c"
  shows "cache_inv base (snd (SpendCoin base c k))" "utxo_of base (snd (SpendCoin base c k)) = (utxo_of base c)(k := None)"
    "utxo_of base c k = Some x \<Longrightarrow> fst (SpendCoin base c k) = Some x"
proof -
  obtain it c' where f: "FetchCoin base c k = (it, c')" by force
  note s = FetchCoin_spec [OF assms f]
  show "cache_inv base (snd (SpendCoin base c k))"
    using s(1) by (auto simp: SpendCoin_def f entry_sane_def split: option.splits intro!: cache_inv_update cache_inv_erase)
  show "utxo_of base (snd (SpendCoin base c k)) = (utxo_of base c)(k := None)"
  proof (cases it)
    case None
    then show ?thesis using s by (auto simp: SpendCoin_def f fun_eq_iff)
  next
    case (Some e)
    then have "FRESH e \<Longrightarrow> unspent (base k) = None" using cache_invD(1) [OF s(1)] s(3) by blast
    then show ?thesis using Some s by (auto simp: SpendCoin_def f utxo_of_update)
  qed
  show "fst (SpendCoin base c k) = Some x" if "utxo_of base c k = Some x"
    using that s(5) by (auto simp: SpendCoin_def f unspent_Some_iff split: option.splits)
qed

lemma AddCoin_spec:
  assumes inv: "cache_inv base c" and new: "\<not> IsSpent coin" "overwrite \<or> utxo_of base c k = None"
  shows "\<exists>c'. AddCoin c k coin overwrite = Inr c' \<and> cache_inv base c' \<and>
    utxo_of base c' = (if IsUnspendable (scriptPubKey (out coin)) then utxo_of base c else (utxo_of base c)(k \<mapsto> coin))"
proof (cases "IsUnspendable (scriptPubKey (out coin))")
  case True
  then show ?thesis using assms by (simp add: AddCoin_def)
next
  case False
  define it where "it = (case cacheCoins c k of Some e \<Rightarrow> e | None \<Rightarrow> \<lparr>ce_coin = coinEmpty, DIRTY = False, FRESH = False\<rparr>)"
  define e where "e = \<lparr>ce_coin = coin, DIRTY = True, FRESH = FRESH it \<or> \<not> overwrite \<and> \<not> DIRTY it\<rparr>"
  have free: "IsSpent (ce_coin it)" "\<not> DIRTY it \<Longrightarrow> unspent (base k) = None" if "\<not> overwrite"
    using that new(2) cache_invD [OF inv] by (auto simp: it_def utxo_of_def split: option.splits)
  have "AddCoin c k coin overwrite = Inr (c\<lparr>cacheCoins := (cacheCoins c)(k \<mapsto> e)\<rparr>)"
    using new(1) False free(1) by (auto simp: AddCoin_def e_def it_def [symmetric] Let_def)
  moreover have "FRESH it \<Longrightarrow> unspent (base k) = None"
    using cache_invD(1) [OF inv] by (auto simp: it_def split: option.splits)
  then have "cache_inv base (c\<lparr>cacheCoins := (cacheCoins c)(k \<mapsto> e)\<rparr>)"
    using new(1) free(2) by (intro cache_inv_update [OF inv]) (auto simp: e_def entry_sane_iff)
  ultimately show ?thesis using False new(1) by (simp add: utxo_of_update e_def)
qed

lemma Uncache_spec:
  assumes "cache_inv base c"
  shows "cache_inv base (Uncache c k)" "utxo_of base (Uncache c k) = utxo_of base c"
proof -
  show "cache_inv base (Uncache c k)" using assms by (auto simp: Uncache_def cache_inv_erase split: option.splits)
  show "utxo_of base (Uncache c k) = utxo_of base c"
    using cache_invD(2) [OF assms] by (auto simp: Uncache_def utxo_of_update fun_eq_iff utxo_of_def split: option.splits)
qed

section \<open>The contract of a store of unspent outputs\<close>

text \<open>What code that spends and restores coins relies on.\<close>

locale utxo_store =
  fixes inv :: "'s \<Rightarrow> bool" and view :: "'s \<Rightarrow> coins_view"
    and spend :: "'s \<Rightarrow> COutPoint \<Rightarrow> Coin option \<times> 's" and add :: "'s \<Rightarrow> COutPoint \<Rightarrow> Coin \<Rightarrow> bool \<Rightarrow> abort + 's"
  assumes spend_inv: "inv s \<Longrightarrow> inv (snd (spend s k))"
    and spend_view: "inv s \<Longrightarrow> view (snd (spend s k)) = (view s)(k := None)"
    and spend_coin: "inv s \<Longrightarrow> view s k = Some c \<Longrightarrow> fst (spend s k) = Some c"
    and add_view: "inv s \<Longrightarrow> \<not> IsSpent c \<Longrightarrow> overwrite \<or> view s k = None \<Longrightarrow>
      \<exists>s'. add s k c overwrite = Inr s' \<and> inv s' \<and>
        view s' = (if IsUnspendable (scriptPubKey (out c)) then view s else (view s)(k \<mapsto> c))"
    and view_unspent: "view s k = Some c \<Longrightarrow> \<not> IsSpent c"
begin

lemma spend_then_restore:
  assumes "inv s" "view s k = Some c" "\<not> IsUnspendable (scriptPubKey (out c))"
  shows "\<exists>s'. add (snd (spend s k)) k c overwrite = Inr s' \<and> inv s' \<and> view s' = view s"
proof -
  have v: "view (snd (spend s k)) k = None" using spend_view [OF assms(1)] by simp
  then obtain s' where s': "add (snd (spend s k)) k c overwrite = Inr s'" "inv s'" "view s' = (view (snd (spend s k)))(k \<mapsto> c)"
    using add_view [OF spend_inv [OF assms(1)] view_unspent [OF assms(2)], of overwrite k k] assms(3) by auto
  then have "view s' = view s" using spend_view [OF assms(1)] assms(2) by auto
  with s' show ?thesis by blast
qed

lemma add_then_spend:
  assumes "inv s" "view s k = None" "\<not> IsSpent c" "\<not> IsUnspendable (scriptPubKey (out c))"
  shows "\<exists>s'. add s k c overwrite = Inr s' \<and> inv s' \<and> fst (spend s' k) = Some c \<and> view (snd (spend s' k)) = view s"
proof -
  obtain s' where s': "add s k c overwrite = Inr s'" "inv s'" "view s' = (view s)(k \<mapsto> c)"
    using add_view [OF assms(1,3), of overwrite k] assms by auto
  then show ?thesis using spend_coin [of s' k c] spend_view [of s' k] assms(2) by auto
qed

end

interpretation coins: utxo_store "cache_inv base" "utxo_of base" "SpendCoin base" AddCoin for base
proof unfold_locales
  fix s k c and overwrite :: bool
  assume "cache_inv base s" "\<not> IsSpent c" "overwrite \<or> utxo_of base s k = None"
  then show "\<exists>s'. AddCoin s k c overwrite = Inr s' \<and> cache_inv base s' \<and>
      utxo_of base s' = (if IsUnspendable (scriptPubKey (out c)) then utxo_of base s else (utxo_of base s)(k \<mapsto> c))"
    by (rule AddCoin_spec)
qed (simp_all add: SpendCoin_spec utxo_of_unspent)

section \<open>Flushing\<close>

text \<open>Merging one entry of a child into its parent replaces the coin there by the child's.\<close>

lemma batch_entry_spec:
  assumes inv: "cache_inv base c" and e: "DIRTY e" "FRESH e \<Longrightarrow> utxo_of base c k = None" "entry_sane e"
  shows "\<exists>m. batch_entry (cacheCoins c) k e = Inr m \<and> cache_inv base (c\<lparr>cacheCoins := m\<rparr>) \<and>
    utxo_of base (c\<lparr>cacheCoins := m\<rparr>) = (utxo_of base c)(k := unspent (Some (ce_coin e)))"
proof (cases "cacheCoins c k")
  case None
  let ?e = "\<lparr>ce_coin = ce_coin e, DIRTY = True, FRESH = FRESH e\<rparr>"
  have "\<not> (FRESH e \<and> IsSpent (ce_coin e))" using e(1,3) by (simp add: entry_sane_iff)
  then have "batch_entry (cacheCoins c) k e = Inr ((cacheCoins c)(k \<mapsto> ?e))" using None e(1) by (auto simp: batch_entry_def)
  moreover have "cache_inv base (c\<lparr>cacheCoins := (cacheCoins c)(k \<mapsto> ?e)\<rparr>)"
    using None e by (intro cache_inv_update [OF inv]) (auto simp: utxo_of_def entry_sane_iff)
  ultimately show ?thesis by (simp add: utxo_of_update)
next
  case (Some us)
  have nt: "\<not> (FRESH e \<and> \<not> IsSpent (ce_coin us))" using Some e(2) by (auto simp: utxo_of_def)
  show ?thesis
  proof (cases "FRESH us \<and> IsSpent (ce_coin e)")
    case True
    then have "unspent (base k) = None" using cache_invD(1) [OF inv Some] by blast
    then show ?thesis
      using Some e(1) nt True cache_inv_erase [OF inv, of k] by (auto simp: batch_entry_def utxo_of_update)
  next
    case False
    let ?e = "us\<lparr>ce_coin := ce_coin e, DIRTY := True\<rparr>"
    have "cache_inv base (c\<lparr>cacheCoins := (cacheCoins c)(k \<mapsto> ?e)\<rparr>)"
      using False cache_invD(1) [OF inv Some] by (intro cache_inv_update [OF inv]) (auto simp: entry_sane_iff)
    then show ?thesis using Some e(1) nt False by (auto simp: batch_entry_def utxo_of_update)
  qed
qed

lemma batch_loop_spec:
  assumes "cache_inv base c" "distinct (map fst es)"
    "\<forall>(k, e)\<in>set es. entry_sane e \<and> (DIRTY e \<and> FRESH e \<longrightarrow> utxo_of base c k = None)"
  shows "\<exists>m. batch_loop (cacheCoins c) es = Inr m \<and> cache_inv base (c\<lparr>cacheCoins := m\<rparr>) \<and>
    utxo_of base (c\<lparr>cacheCoins := m\<rparr>) = (\<lambda>k. case map_of es k of
      Some e \<Rightarrow> if DIRTY e then unspent (Some (ce_coin e)) else utxo_of base c k | None \<Rightarrow> utxo_of base c k)"
  using assms
proof (induction es arbitrary: c)
  case (Cons x es)
  obtain k e where x: "x = (k, e)" by force
  have k: "k \<notin> fst ` set es" "map_of es k = None" using Cons.prems(2) x by (auto simp: map_of_eq_None_iff)
  obtain m where m: "batch_entry (cacheCoins c) k e = Inr m" "cache_inv base (c\<lparr>cacheCoins := m\<rparr>)"
    "utxo_of base (c\<lparr>cacheCoins := m\<rparr>) = (if DIRTY e then (utxo_of base c)(k := unspent (Some (ce_coin e))) else utxo_of base c)"
  proof (cases "DIRTY e")
    case True
    then show ?thesis using that batch_entry_spec [OF Cons.prems(1), of e k] Cons.prems(3) x by auto
  next
    case False
    then show ?thesis using that [of "cacheCoins c"] Cons.prems(1) by (simp add: batch_entry_def)
  qed
  have pre: "\<forall>(k, e)\<in>set es. entry_sane e \<and> (DIRTY e \<and> FRESH e \<longrightarrow> utxo_of base (c\<lparr>cacheCoins := m\<rparr>) k = None)"
    using Cons.prems(3) k(1) x m(3) by (force split: prod.splits)
  have "distinct (map fst es)" using Cons.prems(2) by simp
  from Cons.IH [OF m(2) this pre] obtain ma where ma: "batch_loop m es = Inr ma" "cache_inv base (c\<lparr>cacheCoins := ma\<rparr>)"
    "utxo_of base (c\<lparr>cacheCoins := ma\<rparr>) = (\<lambda>k. case map_of es k of
      Some e \<Rightarrow> if DIRTY e then unspent (Some (ce_coin e)) else utxo_of base (c\<lparr>cacheCoins := m\<rparr>) k
    | None \<Rightarrow> utxo_of base (c\<lparr>cacheCoins := m\<rparr>) k)"
    by auto
  have "(\<lambda>k. case map_of es k of
      Some e \<Rightarrow> if DIRTY e then unspent (Some (ce_coin e)) else utxo_of base (c\<lparr>cacheCoins := m\<rparr>) k
    | None \<Rightarrow> utxo_of base (c\<lparr>cacheCoins := m\<rparr>) k) = (\<lambda>k. case map_of (x # es) k of
      Some e \<Rightarrow> if DIRTY e then unspent (Some (ce_coin e)) else utxo_of base c k | None \<Rightarrow> utxo_of base c k)"
    unfolding m(3) x using k(2) by (auto simp: fun_eq_iff split: option.splits)
  then show ?case using m(1) ma x by simp
qed simp

definition entries_of :: "CCoinsViewCache \<Rightarrow> (COutPoint \<times> CCoinsCacheEntry) list \<Rightarrow> bool" where
  "entries_of c es \<longleftrightarrow> distinct (map fst es) \<and> map_of es = cacheCoins c"

lemma BatchWrite_spec:
  assumes "cache_inv base parent" "cache_inv (utxo_of base parent) child" "entries_of child es"
  shows "\<exists>parent'. BatchWrite parent es h = Inr parent' \<and> cache_inv base parent' \<and>
    utxo_of base parent' = utxo_of (utxo_of base parent) child \<and> hashBlock parent' = h"
proof -
  have in_es: "(k, e) \<in> set es \<longleftrightarrow> cacheCoins child k = Some e" for k e
    using assms(3) map_of_eq_Some_iff [of es k e] by (auto simp: entries_of_def)
  have pre: "\<forall>(k, e)\<in>set es. entry_sane e \<and> (DIRTY e \<and> FRESH e \<longrightarrow> utxo_of base parent k = None)"
    using cache_invD [OF assms(2)] in_es by fastforce
  have "distinct (map fst es)" using assms(3) by (simp add: entries_of_def)
  from batch_loop_spec [OF assms(1) this pre] obtain m where m: "batch_loop (cacheCoins parent) es = Inr m"
    "cache_inv base (parent\<lparr>cacheCoins := m\<rparr>)"
    "utxo_of base (parent\<lparr>cacheCoins := m\<rparr>) = (\<lambda>k. case map_of es k of
      Some e \<Rightarrow> if DIRTY e then unspent (Some (ce_coin e)) else utxo_of base parent k | None \<Rightarrow> utxo_of base parent k)" by blast
  have "(case cacheCoins child k of
      Some e \<Rightarrow> if DIRTY e then unspent (Some (ce_coin e)) else utxo_of base parent k | None \<Rightarrow> utxo_of base parent k)
      = utxo_of (utxo_of base parent) child k" for k
    using cache_invD(2) [OF assms(2), of k] by (auto simp: utxo_of_def [of "utxo_of base parent"] split: option.splits)
  then have "utxo_of base (parent\<lparr>cacheCoins := m\<rparr>) = utxo_of (utxo_of base parent) child"
    using m(3) assms(3) by (simp add: entries_of_def fun_eq_iff)
  moreover have "cache_inv base (parent\<lparr>cacheCoins := m, hashBlock := h\<rparr>)" using m(2) by (simp add: cache_inv_def)
  moreover have "utxo_of base (parent\<lparr>cacheCoins := m, hashBlock := h\<rparr>) = utxo_of base (parent\<lparr>cacheCoins := m\<rparr>)"
    by (simp add: utxo_of_def fun_eq_iff)
  ultimately show ?thesis using m(1) by (simp add: BatchWrite_def)
qed

section \<open>Reachable caches\<close>

text \<open>Every cache that starts empty and is changed only by the public operations, with callers of
  \<^verbatim>\<open>AddCoin\<close> keeping their promise: without \<^verbatim>\<open>possible_overwrite\<close> there is no unspent coin at the outpoint.\<close>

inductive cache_reachable :: "coins_view \<Rightarrow> CCoinsViewCache \<Rightarrow> bool" for base where
  init: "cache_reachable base \<lparr>hashBlock = h, cacheCoins = Map.empty\<rparr>"
| get: "cache_reachable base c \<Longrightarrow> cache_reachable base (snd (GetCoin base c k))"
| spend: "cache_reachable base c \<Longrightarrow> cache_reachable base (snd (SpendCoin base c k))"
| add: "cache_reachable base c \<Longrightarrow> \<not> IsSpent coin \<Longrightarrow> overwrite \<or> utxo_of base c k = None \<Longrightarrow>
    AddCoin c k coin overwrite = Inr c' \<Longrightarrow> cache_reachable base c'"
| emplace: "cache_reachable base c \<Longrightarrow> cache_reachable base (EmplaceCoinInternalDANGER c k coin)"
| uncache: "cache_reachable base c \<Longrightarrow> cache_reachable base (Uncache c k)"
| best: "cache_reachable base c \<Longrightarrow> cache_reachable base (SetBestBlock c h)"

lemma EmplaceCoin_inv: "cache_inv base c \<Longrightarrow> cache_inv base (EmplaceCoinInternalDANGER c k coin)"
  by (auto simp: EmplaceCoinInternalDANGER_def entry_sane_iff split: option.splits intro!: cache_inv_update)

lemma cache_reachable_inv: "cache_reachable base c \<Longrightarrow> cache_inv base c"
proof (induction rule: cache_reachable.induct)
  case (add c coin overwrite k c')
  then show ?case using AddCoin_spec [of base c coin overwrite k] by auto
qed (auto simp: cache_inv_def [of _ "\<lparr>hashBlock = _, cacheCoins = Map.empty\<rparr>"] GetCoin_spec SpendCoin_spec Uncache_spec EmplaceCoin_inv
    SetBestBlock_def cache_inv_def [of _ "_\<lparr>hashBlock := _\<rparr>"] dest: cache_invD)

section \<open>Properties\<close>

text \<open>\<^bold>\<open>C1\<close>: the cache implements a set of unspent outputs. In every reachable cache the flag combinations
  that \<^verbatim>\<open>SanityCheck\<close> asserts against do not occur; reading returns the coin of the set and changes nothing;
  \<^verbatim>\<open>SpendCoin\<close> removes exactly one outpoint from the set and hands out its coin; \<^verbatim>\<open>AddCoin\<close> of an unspent coin,
  with the outpoint free or overwriting allowed, succeeds and adds exactly that coin, except that an
  unspendable output is not stored; \<^verbatim>\<open>Uncache\<close> changes nothing.\<close>

theorem cache_refines_utxo_set:
  assumes "cache_reachable base c"
  shows "(\<forall>k e. cacheCoins c k = Some e \<longrightarrow> entry_sane e) \<and>
    fst (GetCoin base c k) = utxo_of base c k \<and> utxo_of base (snd (GetCoin base c k)) = utxo_of base c \<and>
    (fst (HaveCoin base c k) \<longleftrightarrow> utxo_of base c k \<noteq> None) \<and>
    utxo_of base (snd (SpendCoin base c k)) = (utxo_of base c)(k := None) \<and>
    (\<forall>x. utxo_of base c k = Some x \<longrightarrow> fst (SpendCoin base c k) = Some x) \<and>
    (\<forall>coin overwrite. \<not> IsSpent coin \<and> (overwrite \<or> utxo_of base c k = None) \<longrightarrow>
      (\<exists>c'. AddCoin c k coin overwrite = Inr c' \<and> utxo_of base c' =
        (if IsUnspendable (scriptPubKey (out coin)) then utxo_of base c else (utxo_of base c)(k \<mapsto> coin)))) \<and>
    utxo_of base (Uncache c k) = utxo_of base c"
proof -
  have inv: "cache_inv base c" using cache_reachable_inv [OF assms] .
  have add: "\<exists>c'. AddCoin c k coin overwrite = Inr c' \<and> utxo_of base c' =
      (if IsUnspendable (scriptPubKey (out coin)) then utxo_of base c else (utxo_of base c)(k \<mapsto> coin))"
    if "\<not> IsSpent coin" "overwrite \<or> utxo_of base c k = None" for coin overwrite
    using AddCoin_spec [OF inv that] by blast
  have "\<forall>k e. cacheCoins c k = Some e \<longrightarrow> entry_sane e" using cache_invD(3) [OF inv] by blast
  then show ?thesis using inv add by (simp add: GetCoin_spec HaveCoin_spec SpendCoin_spec Uncache_spec)
qed

definition example_coin :: Coin where
  "example_coin = \<lparr>out = \<lparr>nValue = 5 * COIN, scriptPubKey = [0x51]\<rparr>, fCoinBase = False, coin_nHeight = 3, fCoinStake = False\<rparr>"

theorem cache_refines_utxo_set_witness:
  "fst (SpendCoin (\<lambda>_. Some example_coin) \<lparr>hashBlock = [], cacheCoins = Map.empty\<rparr> COutPoint_null) = Some example_coin"
proof -
  have "utxo_of (\<lambda>_. Some example_coin) \<lparr>hashBlock = [], cacheCoins = Map.empty\<rparr> COutPoint_null = Some example_coin"
    by (simp add: utxo_of_def unspent_Some_iff IsSpent_def CTxOut_IsNull_def example_coin_def COIN_def)
  then show ?thesis
    using cache_refines_utxo_set [OF cache_reachable.init [of "\<lambda>_. Some example_coin" "[]"], of COutPoint_null] by blast
qed

lemma synced_view:
  assumes "V = utxo_of W c"
  shows "utxo_of V (c\<lparr>cacheCoins := \<lambda>k. case cacheCoins c k of None \<Rightarrow> None
     | Some e \<Rightarrow> if IsSpent (ce_coin e) then None else Some (e\<lparr>DIRTY := False, FRESH := False\<rparr>)\<rparr>) = V"
proof
  fix k
  have "V k = utxo_of W c k" using assms by simp
  then show "utxo_of V (c\<lparr>cacheCoins := \<lambda>k. case cacheCoins c k of None \<Rightarrow> None
     | Some e \<Rightarrow> if IsSpent (ce_coin e) then None else Some (e\<lparr>DIRTY := False, FRESH := False\<rparr>)\<rparr>) k = V k"
    by (auto simp: utxo_of_def unspent_def split: option.splits)
qed

text \<open>\<^bold>\<open>C9\<close>: flushing loses nothing. When a child cache whose backing view is a parent cache is flushed or
  synchronised, with the entries taken in any order, no \<^verbatim>\<open>FRESH\<close> flag turns out misapplied, the parent then
  holds exactly the set of unspent outputs the child showed, the child shows the same set on top of the
  new parent, both keep their invariants, and the parent's best block is the child's.\<close>

theorem flush_lossless:
  assumes "cache_inv base parent" "cache_inv (utxo_of base parent) child" "entries_of child es"
  shows "\<exists>parent'. cache_inv base parent' \<and> utxo_of base parent' = utxo_of (utxo_of base parent) child \<and>
    hashBlock parent' = hashBlock child \<and>
    (\<exists>child'. Flush child es parent = Inr (child', parent') \<and> cache_inv (utxo_of base parent') child' \<and>
       utxo_of (utxo_of base parent') child' = utxo_of (utxo_of base parent) child) \<and>
    (\<exists>child'. Sync child es parent = Inr (child', parent') \<and> cache_inv (utxo_of base parent') child' \<and>
       utxo_of (utxo_of base parent') child' = utxo_of (utxo_of base parent) child)"
proof -
  obtain p where p: "BatchWrite parent es (hashBlock child) = Inr p" "cache_inv base p"
    "utxo_of base p = utxo_of (utxo_of base parent) child" "hashBlock p = hashBlock child"
    using BatchWrite_spec [OF assms] by blast
  have flush: "Flush child es parent = Inr (child\<lparr>cacheCoins := Map.empty\<rparr>, p)" by (simp add: Flush_def p)
  let ?s = "child\<lparr>cacheCoins := \<lambda>k. case cacheCoins child k of None \<Rightarrow> None
     | Some e \<Rightarrow> if IsSpent (ce_coin e) then None else Some (e\<lparr>DIRTY := False, FRESH := False\<rparr>)\<rparr>"
  have sync: "Sync child es parent = Inr (?s, p)" by (simp add: Sync_def p)
  have "utxo_of (utxo_of base p) ?s = utxo_of base p"
    using synced_view [OF p(3)] .
  moreover have "cache_inv (utxo_of base p) ?s"
    by (auto simp: cache_inv_def p(3) utxo_of_def [of "utxo_of base parent"] entry_sane_iff split: option.splits if_splits)
  moreover have "utxo_of (utxo_of base p) (child\<lparr>cacheCoins := Map.empty\<rparr>) = utxo_of base p"
    "cache_inv (utxo_of base p) (child\<lparr>cacheCoins := Map.empty\<rparr>)"
    by (simp_all add: utxo_of_def [of "utxo_of base p"] cache_inv_def fun_eq_iff)
  ultimately show ?thesis using p(3)
    by (intro exI [of _ p] conjI exI [of _ ?s] exI [of _ "child\<lparr>cacheCoins := Map.empty\<rparr>"] p(2,4) flush sync) simp_all
qed

theorem flush_lossless_witness:
  "\<exists>child' parent'. Flush \<lparr>hashBlock = [1], cacheCoins = Map.empty\<rparr> [] \<lparr>hashBlock = [], cacheCoins = Map.empty\<rparr> = Inr (child', parent') \<and>
     hashBlock parent' = [1]"
  using flush_lossless [of Map.empty "\<lparr>hashBlock = [], cacheCoins = Map.empty\<rparr>" "\<lparr>hashBlock = [1], cacheCoins = Map.empty\<rparr>" "[]"]
  by (auto simp: cache_inv_def entries_of_def)

end
