(* ===== verification/Coins_Update.thy ===== *)
theory Coins_Update
  imports Coins_Cache
begin

text \<open>
  Applying the transactions of a block to the coins cache and taking them back:
  \<^verbatim>\<open>UpdateCoins\<close>, \<^verbatim>\<open>ApplyTxInUndo\<close>, the coin updates of \<^verbatim>\<open>ConnectBlock\<close> and \<^verbatim>\<open>DisconnectBlock\<close> of
  \<^verbatim>\<open>src/src/validation.cpp\<close>, with the undo records of \<^verbatim>\<open>src/src/undo.h\<close> (a \<^verbatim>\<open>CTxUndo\<close> is the list of coins spent by a
  transaction, a \<^verbatim>\<open>CBlockUndo\<close> the list of those for all transactions but the first). The optional
  address, spent and timestamp indexes are off. The answers of the other subsystems that
  \<^verbatim>\<open>DisconnectBlock\<close> asks are arguments.

  The main lemmas follow the set of unspent outputs of \<open>Coins_Cache\<close> through one transaction and
  back; the property at the end is that disconnecting a block is the inverse of connecting it.
\<close>

section \<open>Model\<close>

fun spend_inputs :: "coins_view \<Rightarrow> CCoinsViewCache \<Rightarrow> CTxIn list \<Rightarrow> abort + Coin list \<times> CCoinsViewCache" where
  "spend_inputs base c [] = Inr ([], c)"
| "spend_inputs base c (i # is) =
     (let (spent, c) = SpendCoin base c (prevout i) in
      case spent of
        None \<Rightarrow> Inl AssertFailed
      | Some coin \<Rightarrow> sum_bind (spend_inputs base c is) (\<lambda>(vprevout, c). Inr (coin # vprevout, c)))"

definition UpdateCoins ::
  "coins_view \<Rightarrow> (byte list \<Rightarrow> uint256) \<Rightarrow> CTransaction \<Rightarrow> CCoinsViewCache \<Rightarrow> int \<Rightarrow> abort + Coin list \<times> CCoinsViewCache" where
  "UpdateCoins base Hash tx inputs height =
     sum_bind (if IsCoinBase tx then Inr ([], inputs) else spend_inputs base inputs (vin tx)) (\<lambda>(txundo, inputs).
       sum_bind (AddCoins base Hash inputs tx height False) (\<lambda>inputs. Inr (txundo, inputs)))"

text \<open>The coin updates of \<^verbatim>\<open>ConnectBlock\<close>: the undo record of transaction 0 goes to a dummy.\<close>

fun connect_txs ::
  "coins_view \<Rightarrow> (byte list \<Rightarrow> uint256) \<Rightarrow> int \<Rightarrow> nat \<Rightarrow> CTransaction list \<Rightarrow> CCoinsViewCache \<Rightarrow> abort + Coin list list \<times> CCoinsViewCache" where
  "connect_txs base Hash height i [] view = Inr ([], view)"
| "connect_txs base Hash height i (tx # txs) view =
     sum_bind (UpdateCoins base Hash tx view height) (\<lambda>(txundo, view).
       sum_bind (connect_txs base Hash height (i + 1) txs view) (\<lambda>(vtxundo, view).
         Inr (if i > 0 then txundo # vtxundo else vtxundo, view)))"

datatype DisconnectResult = DISCONNECT_OK | DISCONNECT_UNCLEAN | DISCONNECT_FAILED

definition ApplyTxInUndo ::
  "coins_view \<Rightarrow> Coin \<Rightarrow> CCoinsViewCache \<Rightarrow> COutPoint \<Rightarrow> abort + DisconnectResult \<times> CCoinsViewCache" where
  "ApplyTxInUndo base undo view outp =
     (let (have_coin, view) = HaveCoin base view outp;
          fClean = \<not> have_coin;
          (undo', view) =
            (if coin_nHeight undo = 0 then
               (let (alternate, view) = AccessByTxid base view (op_hash outp) in
                if \<not> IsSpent alternate
                then (Some (undo\<lparr>coin_nHeight := coin_nHeight alternate, fCoinBase := fCoinBase alternate,
                                  fCoinStake := fCoinStake alternate\<rparr>), view)
                else (None, view))
             else (Some undo, view))
      in case undo' of
           None \<Rightarrow> Inr (DISCONNECT_FAILED, view)
         | Some undo \<Rightarrow>
             sum_bind (AddCoin view outp undo (\<not> fClean)) (\<lambda>view.
               Inr (if fClean then DISCONNECT_OK else DISCONNECT_UNCLEAN, view)))"

text \<open>The loop of \<^verbatim>\<open>DisconnectBlock\<close> over the outputs of a transaction.\<close>

fun disconnect_outputs ::
  "coins_view \<Rightarrow> uint256 \<Rightarrow> int \<Rightarrow> bool \<Rightarrow> bool \<Rightarrow> nat \<Rightarrow> CTxOut list \<Rightarrow> bool \<Rightarrow> CCoinsViewCache \<Rightarrow> bool \<times> CCoinsViewCache" where
  "disconnect_outputs base hash height is_coinbase is_coinstake i [] fClean view = (fClean, view)"
| "disconnect_outputs base hash height is_coinbase is_coinstake i (x # xs) fClean view =
     (if IsUnspendable (scriptPubKey x)
      then disconnect_outputs base hash height is_coinbase is_coinstake (i + 1) xs fClean view
      else
        let (spent, view) = SpendCoin base view \<lparr>op_hash = hash, op_n = of_nat i\<rparr>;
            mismatch = (case spent of
              None \<Rightarrow> True
            | Some coin \<Rightarrow> x \<noteq> out coin \<or> height \<noteq> coin_nHeight coin \<or> is_coinbase \<noteq> fCoinBase coin \<or>
                is_coinstake \<noteq> fCoinStake coin)
        in disconnect_outputs base hash height is_coinbase is_coinstake (i + 1) xs (fClean \<and> \<not> mismatch) view)"

text \<open>The loop over the inputs, last one first: \<open>None\<close> where the source returns \<^verbatim>\<open>DISCONNECT_FAILED\<close>.\<close>

fun restore_inputs ::
  "coins_view \<Rightarrow> (CTxIn \<times> Coin) list \<Rightarrow> bool \<Rightarrow> CCoinsViewCache \<Rightarrow> abort + bool option \<times> CCoinsViewCache" where
  "restore_inputs base [] fClean view = Inr (Some fClean, view)"
| "restore_inputs base ((txin, undo) # rest) fClean view =
     sum_bind (ApplyTxInUndo base undo view (prevout txin)) (\<lambda>(res, view).
       if res = DISCONNECT_FAILED then Inr (None, view)
       else restore_inputs base rest (fClean \<and> res \<noteq> DISCONNECT_UNCLEAN) view)"

definition disconnect_tx ::
  "coins_view \<Rightarrow> (byte list \<Rightarrow> uint256) \<Rightarrow> int \<Rightarrow> nat \<Rightarrow> CTransaction \<Rightarrow> Coin list list \<Rightarrow> bool \<Rightarrow> CCoinsViewCache \<Rightarrow>
     abort + bool option \<times> CCoinsViewCache" where
  "disconnect_tx base Hash height i tx vtxundo fClean view =
     (let (fClean, view) =
        disconnect_outputs base (ComputeHash Hash tx) height (IsCoinBase tx) (IsCoinStake tx) 0 (vout tx) fClean view
      in if i > 0 then
           if length (vtxundo ! (i - 1)) \<noteq> length (vin tx) then Inr (None, view)
           else restore_inputs base (rev (zip (vin tx) (vtxundo ! (i - 1)))) fClean view
         else Inr (Some fClean, view))"

text \<open>The loop over the transactions, from index \<open>n - 1\<close> down to 0.\<close>

fun disconnect_txs ::
  "coins_view \<Rightarrow> (byte list \<Rightarrow> uint256) \<Rightarrow> int \<Rightarrow> CTransaction list \<Rightarrow> Coin list list \<Rightarrow> nat \<Rightarrow> bool \<Rightarrow> CCoinsViewCache \<Rightarrow>
     abort + bool option \<times> CCoinsViewCache" where
  "disconnect_txs base Hash height vtx vtxundo 0 fClean view = Inr (Some fClean, view)"
| "disconnect_txs base Hash height vtx vtxundo (Suc i) fClean view =
     sum_bind (disconnect_tx base Hash height i (vtx ! i) vtxundo fClean view) (\<lambda>(res, view).
       case res of None \<Rightarrow> Inr (None, view) | Some fClean \<Rightarrow> disconnect_txs base Hash height vtx vtxundo i fClean view)"

text \<open>\<^verbatim>\<open>DisconnectBlock\<close>: \<open>evo_consistent\<close> is the answer of the EvoDB check (true before DIP3), \<open>blockUndo\<close> what
  \<^verbatim>\<open>UndoReadFromDisk\<close> read, \<open>special_undone\<close> the result of \<^verbatim>\<open>UndoSpecialTxsInBlock\<close>.\<close>

definition DisconnectBlock ::
  "coins_view \<Rightarrow> (byte list \<Rightarrow> uint256) \<Rightarrow> bool \<Rightarrow> Coin list list option \<Rightarrow> bool \<Rightarrow> CTransaction list \<Rightarrow> int \<Rightarrow> uint256 \<Rightarrow>
     CCoinsViewCache \<Rightarrow> abort + DisconnectResult \<times> CCoinsViewCache" where
  "DisconnectBlock base Hash evo_consistent blockUndo special_undone vtx height hashPrev view =
     (if \<not> evo_consistent then Inr (DISCONNECT_FAILED, view)
      else case blockUndo of
        None \<Rightarrow> Inr (DISCONNECT_FAILED, view)
      | Some vtxundo \<Rightarrow>
          if length vtxundo + 1 \<noteq> length vtx then Inr (DISCONNECT_FAILED, view)
          else if \<not> special_undone then Inr (DISCONNECT_FAILED, view)
          else
            sum_bind (disconnect_txs base Hash height vtx vtxundo (length vtx) True view) (\<lambda>(res, view).
              case res of
                None \<Rightarrow> Inr (DISCONNECT_FAILED, view)
              | Some fClean \<Rightarrow>
                  Inr (if fClean then DISCONNECT_OK else DISCONNECT_UNCLEAN, SetBestBlock view hashPrev)))"

section \<open>The effect on the set of unspent outputs\<close>

definition spent_outpoints :: "CTransaction \<Rightarrow> COutPoint list" where
  "spent_outpoints tx = (if IsCoinBase tx then [] else map prevout (vin tx))"

fun out_from :: "uint256 \<Rightarrow> int \<Rightarrow> bool \<Rightarrow> bool \<Rightarrow> nat \<Rightarrow> CTxOut list \<Rightarrow> coins_view" where
  "out_from txid h cb cs i [] = Map.empty"
| "out_from txid h cb cs i (x # xs) =
     (if IsUnspendable (scriptPubKey x) then out_from txid h cb cs (i + 1) xs
      else (out_from txid h cb cs (i + 1) xs)(\<lparr>op_hash = txid, op_n = of_nat i\<rparr> \<mapsto> mk_Coin x h cb cs))"

definition new_coins :: "(byte list \<Rightarrow> uint256) \<Rightarrow> int \<Rightarrow> CTransaction \<Rightarrow> coins_view" where
  "new_coins Hash h tx = out_from (ComputeHash Hash tx) h (IsCoinBase tx) (IsCoinStake tx) 0 (vout tx)"

definition tx_effect :: "(byte list \<Rightarrow> uint256) \<Rightarrow> int \<Rightarrow> coins_view \<Rightarrow> CTransaction \<Rightarrow> coins_view" where
  "tx_effect Hash h V tx = (V |` (- set (spent_outpoints tx))) ++ new_coins Hash h tx"

text \<open>What the checks before the coin updates establish: the inputs are distinct unspent outputs, the new outpoints are free
  (BIP30), the values are not the null value, and outputs are indexed by 32 bits.\<close>

definition tx_connectable :: "(byte list \<Rightarrow> uint256) \<Rightarrow> int \<Rightarrow> coins_view \<Rightarrow> CTransaction \<Rightarrow> bool" where
  "tx_connectable Hash h V tx \<longleftrightarrow>
     distinct (spent_outpoints tx) \<and> set (spent_outpoints tx) \<subseteq> dom V \<and> dom (new_coins Hash h tx) \<inter> dom V = {} \<and>
     (\<forall>x\<in>set (vout tx). nValue x \<noteq> -1) \<and> length (vout tx) \<le> 2 ^ 32"

fun connectable :: "(byte list \<Rightarrow> uint256) \<Rightarrow> int \<Rightarrow> coins_view \<Rightarrow> CTransaction list \<Rightarrow> bool" where
  "connectable Hash h V [] = True"
| "connectable Hash h V (tx # txs) = (tx_connectable Hash h V tx \<and> connectable Hash h (tx_effect Hash h V tx) txs)"

text \<open>Stored coins have a height (the coinbase of block 0 is not stored) and a spendable script.\<close>

definition coins_ok :: "coins_view \<Rightarrow> bool" where
  "coins_ok V \<longleftrightarrow> (\<forall>k x. V k = Some x \<longrightarrow> coin_nHeight x \<noteq> 0 \<and> \<not> IsUnspendable (scriptPubKey (out x)))"

declare out_from.simps(2) [simp del]

lemma out_from_Cons [simp]:
  "IsUnspendable (scriptPubKey x) \<Longrightarrow> out_from txid h cb cs i (x # xs) = out_from txid h cb cs (i + 1) xs"
  "\<not> IsUnspendable (scriptPubKey x) \<Longrightarrow> out_from txid h cb cs i (x # xs) =
     (out_from txid h cb cs (i + 1) xs)(\<lparr>op_hash = txid, op_n = of_nat i\<rparr> \<mapsto> mk_Coin x h cb cs)"
  by (simp_all add: out_from.simps(2) fun_eq_iff)

lemma mk_Coin_unspent: "nValue x \<noteq> -1 \<Longrightarrow> \<not> IsSpent (mk_Coin x h cb cs)"
  by (simp add: IsSpent_def mk_Coin_def CTxOut_IsNull_def)

lemma out_from_index: "k \<in> dom (out_from txid h cb cs i xs) \<Longrightarrow> \<exists>j. i \<le> j \<and> j < i + length xs \<and> k = \<lparr>op_hash = txid, op_n = of_nat j\<rparr>"
proof (induction xs arbitrary: i)
  case (Cons x xs)
  from Cons.prems have "k \<in> dom (out_from txid h cb cs (i + 1) xs) \<or> k = \<lparr>op_hash = txid, op_n = of_nat i\<rparr>"
    by (cases "IsUnspendable (scriptPubKey x)") auto
  then show ?case
  proof
    assume "k \<in> dom (out_from txid h cb cs (i + 1) xs)"
    from Cons.IH [OF this] obtain j where "i + 1 \<le> j" "j < i + 1 + length xs" "k = \<lparr>op_hash = txid, op_n = of_nat j\<rparr>" by blast
    then show ?thesis by (intro exI [of _ j]) simp
  qed (auto intro!: exI [of _ i])
qed simp

lemma out_from_fresh:
  assumes "i + length xs < 2 ^ 32"
  shows "\<lparr>op_hash = txid, op_n = of_nat i\<rparr> \<notin> dom (out_from txid h cb cs (i + 1) xs)"
proof
  assume "\<lparr>op_hash = txid, op_n = of_nat i\<rparr> \<in> dom (out_from txid h cb cs (i + 1) xs)"
  from out_from_index [OF this] obtain j where j: "i < j" "j \<le> i + length xs" "(of_nat i :: u32) = of_nat j"
    by (metis COutPoint.ext_inject Suc_eq_plus1 Suc_le_eq add_Suc less_Suc_eq_le)
  have "unat (of_nat i :: u32) = i" "unat (of_nat j :: u32) = j" using assms j(2) by (simp_all add: unsigned_of_nat take_bit_nat_eq_self)
  then show False using j(1,3) by simp
qed

lemma out_from_ok: "0 < h \<Longrightarrow> h < 2 ^ 31 \<Longrightarrow> coins_ok (out_from txid h cb cs i xs)"
proof (induction xs arbitrary: i)
  case (Cons x xs)
  then show ?case by (cases "IsUnspendable (scriptPubKey x)") (simp_all add: coins_ok_def mk_Coin_def)
qed (simp add: coins_ok_def)

lemma coins_ok_add: "coins_ok V \<Longrightarrow> coins_ok W \<Longrightarrow> coins_ok (V |` A ++ W)"
  unfolding coins_ok_def map_add_Some_iff restrict_map_def by (metis option.distinct(1))

lemma tx_effect_ok: "coins_ok V \<Longrightarrow> 0 < h \<Longrightarrow> h < 2 ^ 31 \<Longrightarrow> coins_ok (tx_effect Hash h V tx)"
  unfolding tx_effect_def new_coins_def by (intro coins_ok_add out_from_ok)

section \<open>Connecting\<close>

lemma restrict_map_UNIV: "m |` UNIV = m"
  by (simp add: restrict_map_def)

lemma spend_inputs_spec:
  assumes "cache_inv base c" "distinct (map prevout is)" "set (map prevout is) \<subseteq> dom (utxo_of base c)"
  shows "\<exists>c'. spend_inputs base c is = Inr (map (\<lambda>i. the (utxo_of base c (prevout i))) is, c') \<and> cache_inv base c' \<and>
    utxo_of base c' = utxo_of base c |` (- set (map prevout is))"
  using assms
proof (induction "is" arbitrary: c)
  case (Cons i "is")
  obtain x where x: "utxo_of base c (prevout i) = Some x" using Cons.prems(3) by auto
  obtain c1 where s: "SpendCoin base c (prevout i) = (Some x, c1)"
    using SpendCoin_spec(3) [OF Cons.prems(1) x] by (metis prod.collapse)
  have c1: "cache_inv base c1" "utxo_of base c1 = (utxo_of base c)(prevout i := None)"
    using SpendCoin_spec(1,2) [OF Cons.prems(1), of "prevout i"] s by simp_all
  have "set (map prevout is) \<subseteq> dom (utxo_of base c1)" using Cons.prems(2,3) by (simp add: c1(2) image_iff subset_iff) metis
  then obtain c' where c': "spend_inputs base c1 is = Inr (map (\<lambda>i. the (utxo_of base c1 (prevout i))) is, c')"
    "cache_inv base c'" "utxo_of base c' = utxo_of base c1 |` (- set (map prevout is))"
    using Cons.IH [OF c1(1)] Cons.prems(2) by auto
  have "map (\<lambda>i. the (utxo_of base c1 (prevout i))) is = map (\<lambda>i. the (utxo_of base c (prevout i))) is"
    using Cons.prems(2) by (auto simp: c1(2) image_iff)
  moreover have "utxo_of base c' = utxo_of base c |` (- set (map prevout (i # is)))"
    by (auto simp: c'(3) c1(2) restrict_map_def)
  ultimately show ?case using c' by (simp add: s x)
qed (simp add: restrict_map_def)

lemma AddCoins_loop_spec:
  assumes "cache_inv base c" "\<forall>x\<in>set xs. nValue x \<noteq> -1" "i + length xs \<le> 2 ^ 32"
    "dom (out_from txid h cb cs i xs) \<inter> dom (utxo_of base c) = {}"
  shows "\<exists>c'. AddCoins_loop base c txid i xs h cb cs False = Inr c' \<and> cache_inv base c' \<and>
    utxo_of base c' = utxo_of base c ++ out_from txid h cb cs i xs"
  using assms
proof (induction xs arbitrary: c i)
  case (Cons x xs)
  let ?k = "\<lparr>op_hash = txid, op_n = of_nat i\<rparr>"
  have un: "\<not> IsSpent (mk_Coin x h cb cs)" using Cons.prems(2) by (simp add: mk_Coin_unspent)
  show ?case
  proof (cases "IsUnspendable (scriptPubKey x)")
    case True
    then show ?thesis using Cons.IH [of c "i + 1"] Cons.prems un by (simp add: AddCoin_def mk_Coin_def)
  next
    case False
    have free: "utxo_of base c ?k = None" using Cons.prems(4) False by auto
    obtain c1 where c1: "AddCoin c ?k (mk_Coin x h cb cs) cb = Inr c1" "cache_inv base c1"
      "utxo_of base c1 = (utxo_of base c)(?k \<mapsto> mk_Coin x h cb cs)"
      using AddCoin_spec [OF Cons.prems(1) un, of cb ?k] free False by (auto simp: mk_Coin_def)
    have nk: "?k \<notin> dom (out_from txid h cb cs (i + 1) xs)" using Cons.prems(3) by (intro out_from_fresh) simp
    then have "dom (out_from txid h cb cs (i + 1) xs) \<inter> dom (utxo_of base c1) = {}" using Cons.prems(4) False
      by (auto simp: c1(3) disjoint_iff dom_def)
    then obtain c' where "AddCoins_loop base c1 txid (i + 1) xs h cb cs False = Inr c'" "cache_inv base c'"
      "utxo_of base c' = utxo_of base c1 ++ out_from txid h cb cs (i + 1) xs"
      using Cons.IH [OF c1(2), of "i + 1"] Cons.prems(2,3) by auto
    moreover have "utxo_of base c ++ out_from txid h cb cs i (x # xs) = utxo_of base c1 ++ out_from txid h cb cs (i + 1) xs"
      by (simp only: out_from_Cons(2) [OF False] map_add_upd map_add_upd_left [OF nk] c1(3))
    ultimately show ?thesis by (simp add: c1(1) del: out_from_Cons)
  qed
qed simp

lemma UpdateCoins_spec:
  assumes "cache_inv base c" "tx_connectable Hash h (utxo_of base c) tx"
  shows "\<exists>c'. UpdateCoins base Hash tx c h = Inr (map (\<lambda>k. the (utxo_of base c k)) (spent_outpoints tx), c') \<and> cache_inv base c' \<and>
    utxo_of base c' = tx_effect Hash h (utxo_of base c) tx"
proof -
  have t: "distinct (spent_outpoints tx)" "set (spent_outpoints tx) \<subseteq> dom (utxo_of base c)"
    "dom (new_coins Hash h tx) \<inter> dom (utxo_of base c) = {}" "\<forall>x\<in>set (vout tx). nValue x \<noteq> -1" "length (vout tx) \<le> 2 ^ 32"
    using assms(2) by (auto simp: tx_connectable_def)
  obtain c1 where c1: "(if IsCoinBase tx then Inr ([], c) else spend_inputs base c (vin tx)) =
      Inr (map (\<lambda>k. the (utxo_of base c k)) (spent_outpoints tx), c1)" "cache_inv base c1"
      "utxo_of base c1 = utxo_of base c |` (- set (spent_outpoints tx))"
    using spend_inputs_spec [OF assms(1), of "vin tx"] t(1,2) assms(1) 
    by (cases "IsCoinBase tx") (auto simp: spent_outpoints_def comp_def restrict_map_UNIV)
  have "dom (new_coins Hash h tx) \<inter> dom (utxo_of base c1) = {}" using t(3) by (auto simp: c1(3))
  then obtain c' where "AddCoins base Hash c1 tx h False = Inr c'" "cache_inv base c'"
    "utxo_of base c' = utxo_of base c1 ++ new_coins Hash h tx"
    using AddCoins_loop_spec [OF c1(2) t(4), of 0] t(5) unfolding new_coins_def AddCoins_def by (metis add_0)
  then show ?thesis using c1 by (simp add: UpdateCoins_def tx_effect_def)
qed

section \<open>Disconnecting\<close>

lemma disconnect_outputs_spec:
  assumes "cache_inv base c" "utxo_of base c = W ++ out_from txid h cb cs i xs" "dom (out_from txid h cb cs i xs) \<inter> dom W = {}"
    "i + length xs \<le> 2 ^ 32" "0 \<le> h" "h < 2 ^ 31"
  shows "\<exists>c'. disconnect_outputs base txid h cb cs i xs fClean c = (fClean, c') \<and> cache_inv base c' \<and> utxo_of base c' = W"
  using assms
proof (induction xs arbitrary: c i)
  case (Cons x xs)
  show ?case
  proof (cases "IsUnspendable (scriptPubKey x)")
    case True
    then show ?thesis using Cons.IH [of c "i + 1"] Cons.prems by simp
  next
    case False
    let ?k = "\<lparr>op_hash = txid, op_n = of_nat i\<rparr>" and ?N = "out_from txid h cb cs (i + 1) xs"
    note upd = out_from_Cons(2) [OF False, of txid h cb cs i xs]
    have nk: "?k \<notin> dom ?N" using Cons.prems(4) by (intro out_from_fresh) simp
    have W: "W ?k = None" "dom ?N \<inter> dom W = {}" using Cons.prems(3) unfolding upd by (auto simp: disjoint_iff domIff)
    have V: "utxo_of base c = (W ++ ?N)(?k \<mapsto> mk_Coin x h cb cs)" using Cons.prems(2) by (simp only: upd map_add_upd)
    then obtain c1 where c1: "SpendCoin base c ?k = (Some (mk_Coin x h cb cs), c1)"
      using SpendCoin_spec(3) [OF Cons.prems(1), of ?k] by (metis fun_upd_same prod.collapse)
    have "(W ++ ?N)(?k := None) = W ++ ?N" using nk W(1) by (auto simp: map_add_None fun_upd_idem domIff)
    then have "cache_inv base c1" "utxo_of base c1 = W ++ ?N"
      using SpendCoin_spec(1,2) [OF Cons.prems(1), of ?k] V c1 by simp_all
    then obtain c' where "disconnect_outputs base txid h cb cs (i + 1) xs fClean c1 = (fClean, c')" "cache_inv base c'" "utxo_of base c' = W"
      using Cons.IH [of c1 "i + 1"] W(2) Cons.prems(4-6) by auto
    then show ?thesis using False c1 Cons.prems(5,6) by (simp add: mk_Coin_def)
  qed
qed simp

lemma ApplyTxInUndo_spec:
  assumes "cache_inv base c" "utxo_of base c k = None" "coin_nHeight u \<noteq> 0" "\<not> IsSpent u" "\<not> IsUnspendable (scriptPubKey (out u))"
  shows "\<exists>c'. ApplyTxInUndo base u c k = Inr (DISCONNECT_OK, c') \<and> cache_inv base c' \<and> utxo_of base c' = (utxo_of base c)(k \<mapsto> u)"
proof -
  obtain c1 where c1: "HaveCoin base c k = (False, c1)" "cache_inv base c1" "utxo_of base c1 = utxo_of base c"
    using HaveCoin_spec [OF assms(1), of k] assms(2) by (metis prod.collapse)
  then show ?thesis using AddCoin_spec [OF c1(2) assms(4), of False k] assms by (auto simp: ApplyTxInUndo_def)
qed

lemma restore_inputs_spec:
  assumes "cache_inv base c" "distinct (map (prevout \<circ> fst) ps)" "\<forall>(i, u)\<in>set ps. V (prevout i) = Some u \<and> \<not> IsSpent u"
    "utxo_of base c = V |` (- set (map (prevout \<circ> fst) ps))" "coins_ok V"
  shows "\<exists>c'. restore_inputs base ps fClean c = Inr (Some fClean, c') \<and> cache_inv base c' \<and> utxo_of base c' = V"
  using assms
proof (induction ps arbitrary: c)
  case (Cons p ps)
  obtain i u where p: "p = (i, u)" by force
  have u: "V (prevout i) = Some u" "\<not> IsSpent u" "coin_nHeight u \<noteq> 0" "\<not> IsUnspendable (scriptPubKey (out u))"
    using Cons.prems(3,5) by (auto simp: p coins_ok_def)
  have "utxo_of base c (prevout i) = None" by (simp add: Cons.prems(4) p)
  from ApplyTxInUndo_spec [OF Cons.prems(1) this u(3,2,4)] obtain c1 where c1: "ApplyTxInUndo base u c (prevout i) = Inr (DISCONNECT_OK, c1)"
    "cache_inv base c1" "utxo_of base c1 = (utxo_of base c)(prevout i \<mapsto> u)" by blast
  have "utxo_of base c1 = V |` (- set (map (prevout \<circ> fst) ps))"
    using Cons.prems(2) u(1) by (auto simp: c1(3) Cons.prems(4) p restrict_map_def fun_eq_iff image_iff)
  then obtain c' where "restore_inputs base ps fClean c1 = Inr (Some fClean, c')" "cache_inv base c'" "utxo_of base c' = V"
    using Cons.IH [OF c1(2)] Cons.prems(2,3,5) by auto
  then show ?case by (simp add: p c1(1))
qed (simp add: restrict_map_UNIV)

text \<open>Undoing one transaction. At index 0 the inputs are not restored, which is right for a coinbase.\<close>

lemma disconnect_tx_spec:
  assumes inv: "cache_inv base c" "utxo_of base c = tx_effect Hash h V tx" and con: "tx_connectable Hash h V tx"
    and V: "coins_ok V" "\<forall>k x. V k = Some x \<longrightarrow> \<not> IsSpent x" and h: "0 \<le> h" "h < 2 ^ 31"
    and i: "IsCoinBase tx \<longleftrightarrow> i = 0" "i > 0 \<Longrightarrow> vtxundo ! (i - 1) = map (\<lambda>k. the (V k)) (spent_outpoints tx)"
  shows "\<exists>c'. disconnect_tx base Hash h i tx vtxundo fClean c = Inr (Some fClean, c') \<and> cache_inv base c' \<and> utxo_of base c' = V"
proof -
  let ?W = "V |` (- set (spent_outpoints tx))"
  have t: "distinct (spent_outpoints tx)" "set (spent_outpoints tx) \<subseteq> dom V"
    "dom (new_coins Hash h tx) \<inter> dom ?W = {}" "length (vout tx) \<le> 2 ^ 32" using con by (auto simp: tx_connectable_def)
  obtain c1 where c1: "disconnect_outputs base (ComputeHash Hash tx) h (IsCoinBase tx) (IsCoinStake tx) 0 (vout tx) fClean c = (fClean, c1)"
    "cache_inv base c1" "utxo_of base c1 = ?W"
    using disconnect_outputs_spec [OF inv(1), of ?W "ComputeHash Hash tx" h "IsCoinBase tx" "IsCoinStake tx" 0 "vout tx" fClean] inv(2) t(3,4) h
    by (auto simp: tx_effect_def new_coins_def)
  show ?thesis
  proof (cases "i = 0")
    case True
    then have "?W = V" using i(1) by (simp add: spent_outpoints_def restrict_map_UNIV)
    then show ?thesis using True c1 by (simp add: disconnect_tx_def)
  next
    case False
    define us where "us = vtxundo ! (i - 1)"
    define ps where "ps = rev (zip (vin tx) us)"
    have outp: "spent_outpoints tx = map prevout (vin tx)" using False i(1) by (simp add: spent_outpoints_def)
    have u: "us = map (\<lambda>j. the (V (prevout j))) (vin tx)" using i(2) False by (simp add: outp us_def)
    have f: "map fst ps = rev (vin tx)" unfolding ps_def u by (simp flip: rev_map)
    then have k: "map (prevout \<circ> fst) ps = rev (spent_outpoints tx)" by (simp add: outp rev_map flip: map_map)
    have "\<forall>(j, w)\<in>set ps. V (prevout j) = Some w \<and> \<not> IsSpent w"
      using t(2) V(2) by (fastforce simp: ps_def u outp zip_map2 zip_same_conv_map)
    moreover have "length us = length (vin tx)" by (simp add: u)
    ultimately show ?thesis using restore_inputs_spec [OF c1(2), of ps V fClean] t(1) c1 V(1) False
      by (auto simp: disconnect_tx_def k ps_def [symmetric] us_def [simplified, symmetric])
  qed
qed

section \<open>Whole blocks\<close>

fun undo_of :: "(byte list \<Rightarrow> uint256) \<Rightarrow> int \<Rightarrow> coins_view \<Rightarrow> CTransaction list \<Rightarrow> Coin list list" where
  "undo_of Hash h V [] = []"
| "undo_of Hash h V (tx # txs) = map (\<lambda>k. the (V k)) (spent_outpoints tx) # undo_of Hash h (tx_effect Hash h V tx) txs"

lemma length_undo_of [simp]: "length (undo_of Hash h V txs) = length txs"
  by (induction txs arbitrary: V) simp_all

lemma undo_of_nth:
  "i < length txs \<Longrightarrow> undo_of Hash h V txs ! i = map (\<lambda>k. the (foldl (tx_effect Hash h) V (take i txs) k)) (spent_outpoints (txs ! i))"
  by (induction txs arbitrary: V i) (auto simp: nth_Cons split: nat.split)

lemma connectable_nth:
  "connectable Hash h V txs \<Longrightarrow> i < length txs \<Longrightarrow> tx_connectable Hash h (foldl (tx_effect Hash h) V (take i txs)) (txs ! i)"
  by (induction txs arbitrary: V i) (auto simp: nth_Cons split: nat.split)

lemma connect_txs_spec:
  assumes "cache_inv base c" "connectable Hash h (utxo_of base c) txs"
  shows "\<exists>c'. connect_txs base Hash h i txs c = Inr (if i = 0 then tl (undo_of Hash h (utxo_of base c) txs) else undo_of Hash h (utxo_of base c) txs, c') \<and>
    cache_inv base c' \<and> utxo_of base c' = foldl (tx_effect Hash h) (utxo_of base c) txs"
  using assms
proof (induction txs arbitrary: c i)
  case (Cons tx txs)
  obtain c1 where c1: "UpdateCoins base Hash tx c h = Inr (map (\<lambda>k. the (utxo_of base c k)) (spent_outpoints tx), c1)"
    "cache_inv base c1" "utxo_of base c1 = tx_effect Hash h (utxo_of base c) tx"
    using UpdateCoins_spec [OF Cons.prems(1), of Hash h tx] Cons.prems(2) by auto
  then show ?case using Cons.IH [OF c1(2), of "i + 1"] Cons.prems(2) by auto
qed simp

lemma effects_ok:
  assumes "coins_ok V" "0 < h" "h < 2 ^ 31"
  shows "coins_ok (foldl (tx_effect Hash h) V txs)"
  using assms by (induction txs arbitrary: V) (simp_all add: tx_effect_ok)

lemma out_from_unspent: "\<forall>x\<in>set xs. nValue x \<noteq> -1 \<Longrightarrow> out_from txid h cb cs i xs k = Some y \<Longrightarrow> \<not> IsSpent y"
proof (induction xs arbitrary: i)
  case (Cons x xs)
  then show ?case
    by (cases "IsUnspendable (scriptPubKey x)") (auto simp: mk_Coin_unspent out_from_Cons split: if_splits)
qed simp

lemma effects_unspent:
  assumes "\<forall>k x. V k = Some x \<longrightarrow> \<not> IsSpent x" "connectable Hash h V txs"
  shows "\<forall>k x. foldl (tx_effect Hash h) V txs k = Some x \<longrightarrow> \<not> IsSpent x"
  using assms
proof (induction txs arbitrary: V)
  case (Cons tx txs)
  have "\<not> IsSpent x" if "tx_effect Hash h V tx k = Some x" for k x
    using that Cons.prems out_from_unspent [of "vout tx"]
    by (auto simp: tx_effect_def new_coins_def map_add_Some_iff restrict_map_def tx_connectable_def split: if_splits)
  then show ?case using Cons.IH [of "tx_effect Hash h V tx"] Cons.prems(2) by simp
qed simp

lemma connectable_take: "connectable Hash h V txs \<Longrightarrow> connectable Hash h V (take n txs)"
  by (induction txs arbitrary: V n) (auto simp: take_Cons split: nat.split)

lemma disconnect_txs_spec:
  assumes "cache_inv base c" "utxo_of base c = foldl (tx_effect Hash h) V (take n vtx)" "n \<le> length vtx"
    and con: "connectable Hash h V vtx" and V: "coins_ok V" "\<forall>k x. V k = Some x \<longrightarrow> \<not> IsSpent x" and h: "0 < h" "h < 2 ^ 31"
    and cb: "\<forall>i<length vtx. IsCoinBase (vtx ! i) \<longleftrightarrow> i = 0"
  shows "\<exists>c'. disconnect_txs base Hash h vtx (tl (undo_of Hash h V vtx)) n fClean c = Inr (Some fClean, c') \<and>
    cache_inv base c' \<and> utxo_of base c' = V"
  using assms(1-3)
proof (induction n arbitrary: c)
  case (Suc i)
  let ?W = "foldl (tx_effect Hash h) V (take i vtx)"
  have i: "i < length vtx" using Suc.prems(3) by simp
  have u: "tl (undo_of Hash h V vtx) ! (i - 1) = map (\<lambda>k. the (?W k)) (spent_outpoints (vtx ! i))" if "i > 0"
    using undo_of_nth [OF i, of Hash h V] that i by (cases i) (simp_all add: nth_tl)
  have "utxo_of base c = tx_effect Hash h ?W (vtx ! i)" using Suc.prems(2) i by (simp add: take_Suc_conv_app_nth)
  then obtain c1 where "disconnect_tx base Hash h i (vtx ! i) (tl (undo_of Hash h V vtx)) fClean c = Inr (Some fClean, c1)"
    "cache_inv base c1" "utxo_of base c1 = ?W"
    using disconnect_tx_spec [OF Suc.prems(1) _ connectable_nth [OF con i] effects_ok [OF V(1) h] effects_unspent [OF V(2) connectable_take [OF con]]]
      u cb i h by (metis order_less_imp_le)
  then show ?case using Suc.IH i by simp
qed simp

section \<open>Property\<close>

text \<open>\<^bold>\<open>C3\<close>: disconnecting a block is the inverse of connecting it. For a block whose first transaction is
  the coinbase, at a height that fits the 31 bits of a coin, with every transaction's inputs distinct
  and unspent when it is reached and its outputs free, the coin updates of \<^verbatim>\<open>ConnectBlock\<close> succeed with
  an undo record; and running \<^verbatim>\<open>DisconnectBlock\<close> with that record on any cache, over any backing view,
  that shows the same unspent outputs (so also after flushes and restarts in between) reports
  \<^verbatim>\<open>DISCONNECT_OK\<close>, restores exactly the unspent outputs from before the block and sets the best block to
  the previous one.\<close>

theorem disconnect_inverts_connect:
  assumes "cache_inv base c" "coins_ok (utxo_of base c)" "connectable Hash h (utxo_of base c) vtx" "0 < h" "h < 2 ^ 31"
    "vtx \<noteq> []" "\<forall>i<length vtx. IsCoinBase (vtx ! i) \<longleftrightarrow> i = 0"
  shows "\<exists>vtxundo c'. connect_txs base Hash h 0 vtx c = Inr (vtxundo, c') \<and> cache_inv base c' \<and>
    (\<forall>base2 c2. cache_inv base2 c2 \<and> utxo_of base2 c2 = utxo_of base c' \<longrightarrow>
      (\<exists>c3. DisconnectBlock base2 Hash True (Some vtxundo) True vtx h hashPrev c2 = Inr (DISCONNECT_OK, c3) \<and>
         cache_inv base2 c3 \<and> utxo_of base2 c3 = utxo_of base c \<and> hashBlock c3 = hashPrev))"
proof -
  let ?V = "utxo_of base c" and ?u = "tl (undo_of Hash h (utxo_of base c) vtx)"
  obtain c' where c': "connect_txs base Hash h 0 vtx c = Inr (?u, c')" "cache_inv base c'" "utxo_of base c' = foldl (tx_effect Hash h) ?V vtx"
    using connect_txs_spec [OF assms(1,3), of 0] by auto
  have un: "\<forall>k x. ?V k = Some x \<longrightarrow> \<not> IsSpent x" by (simp add: utxo_of_unspent)
  have len: "length ?u + 1 = length vtx" using assms(6) by (cases vtx) simp_all
  have "\<exists>c3. DisconnectBlock base2 Hash True (Some ?u) True vtx h hashPrev c2 = Inr (DISCONNECT_OK, c3) \<and>
         cache_inv base2 c3 \<and> utxo_of base2 c3 = ?V \<and> hashBlock c3 = hashPrev"
    if c2: "cache_inv base2 c2" "utxo_of base2 c2 = utxo_of base c'" for base2 c2
  proof -
    obtain c3 where "disconnect_txs base2 Hash h vtx ?u (length vtx) True c2 = Inr (Some True, c3)" "cache_inv base2 c3" "utxo_of base2 c3 = ?V"
      using disconnect_txs_spec [OF c2(1) _ le_refl assms(3,2) un assms(4,5,7)] c2(2) c'(3) by auto
    moreover have "utxo_of base2 (SetBestBlock c3 hashPrev) = utxo_of base2 c3" by (simp add: SetBestBlock_def utxo_of_def fun_eq_iff)
    moreover have "cache_inv base2 (SetBestBlock c3 hashPrev) = cache_inv base2 c3" by (simp add: SetBestBlock_def cache_inv_def)
    ultimately show ?thesis using len by (simp add: DisconnectBlock_def del: length_tl) (simp add: SetBestBlock_def)
  qed
  then show ?thesis using c' by blast
qed

definition example_coinbase :: CTransaction where
  "example_coinbase =
     \<lparr>vin = [\<lparr>prevout = COutPoint_null, scriptSig = [1, 2], nSequence = SEQUENCE_FINAL\<rparr>],
      vout = [\<lparr>nValue = 9 * COIN, scriptPubKey = [0x51]\<rparr>],
      tx_nVersion = 2, nType = 0, nLockTime = 0, vExtraPayload = []\<rparr>"

definition example_hash :: "byte list \<Rightarrow> uint256" where
  "example_hash bs = take 1 (drop 5 bs)"

definition example_view :: coins_view where
  "example_view = [\<lparr>op_hash = replicate 32 7, op_n = 1\<rparr> \<mapsto> example_coin]"

lemma example_hash_first:
  assumes "vin tx = [i]" "op_hash (prevout i) = replicate 32 b"
  shows "ComputeHash example_hash tx = [b]"
proof -
  have "op_hash (prevout i) = b # replicate 31 b" using assms(2) replicate_Suc [of 31 b] by simp
  then show ?thesis
    by (simp add: ComputeHash_def example_hash_def SerTransaction_def SerVector_def SerTxIn_def SerOutPoint_def ser_writedata32_def WriteCompactSize_def
        ser_writedata8_def assms(1))
qed

lemma example_txids:
  "ComputeHash example_hash example_spend = [7]" "ComputeHash example_hash example_coinbase = [0]"
  using example_hash_first [of example_spend "hd (vin example_spend)" 7] example_hash_first [of example_coinbase "hd (vin example_coinbase)" 0]
  by (simp_all add: example_spend_def example_coinbase_def COutPoint_null_def uint256_null_def)

lemma disjoint_hash: "(\<And>p. p \<in> A \<Longrightarrow> op_hash p = a) \<Longrightarrow> (\<And>p. p \<in> B \<Longrightarrow> op_hash p \<noteq> a) \<Longrightarrow> A \<inter> B = {}"
  by auto

lemma example_connectable: "connectable example_hash 9 example_view [example_coinbase, example_spend]"
proof -
  have cb: "spent_outpoints example_coinbase = []" "spent_outpoints example_spend = [\<lparr>op_hash = replicate 32 7, op_n = 1\<rparr>]"
    by (simp_all add: spent_outpoints_def example_coinbase_def example_spend_def IsCoinBase_def COutPoint_IsNull_def COutPoint_null_def)
  have k: "op_hash p = [0]" if "p \<in> dom (new_coins example_hash 9 example_coinbase)" for p
    using that out_from_index unfolding new_coins_def example_txids by fastforce
  have l: "op_hash p = [7]" if "p \<in> dom (new_coins example_hash 9 example_spend)" for p
    using that out_from_index unfolding new_coins_def example_txids by fastforce
  have v: "op_hash p = replicate 32 7" if "p \<in> dom example_view" for p using that by (auto simp: example_view_def split: if_splits)
  have ne: "[0] \<noteq> replicate 32 (7 :: byte)" "[7] \<noteq> replicate 32 (7 :: byte)" "[0] \<noteq> [7 :: byte]"
    by (auto dest: arg_cong [of _ _ length])
  have o1: "\<forall>x\<in>set (vout example_coinbase). nValue x \<noteq> -1" "length (vout example_coinbase) \<le> 2 ^ 32"
    by (simp_all add: example_coinbase_def COIN_def)
  have o2: "\<forall>x\<in>set (vout example_spend). nValue x \<noteq> -1" "length (vout example_spend) \<le> 2 ^ 32"
    by (simp_all add: example_spend_def COIN_def)
  have "dom (new_coins example_hash 9 example_coinbase) \<inter> dom example_view = {}"
    using ne(1) by (intro disjoint_hash [OF k]) (simp_all add: v)
  then have 1: "tx_connectable example_hash 9 example_view example_coinbase" using o1 by (simp add: tx_connectable_def cb)
  have W: "tx_effect example_hash 9 example_view example_coinbase = example_view ++ new_coins example_hash 9 example_coinbase"
    by (simp add: tx_effect_def cb restrict_map_UNIV)
  have "dom (new_coins example_hash 9 example_spend) \<inter> dom (example_view ++ new_coins example_hash 9 example_coinbase) = {}"
  proof (rule disjoint_hash [OF l])
    fix p
    assume "p \<in> dom (example_view ++ new_coins example_hash 9 example_coinbase)"
    then have "p \<in> dom example_view \<or> p \<in> dom (new_coins example_hash 9 example_coinbase)" by auto
    then show "op_hash p \<noteq> [7]" using v k ne(2,3) by (elim disjE) simp_all
  qed simp
  then have 2: "tx_connectable example_hash 9 (example_view ++ new_coins example_hash 9 example_coinbase) example_spend"
    using o2 by (simp add: tx_connectable_def cb example_view_def)
  show ?thesis unfolding connectable.simps W using 1 2 by blast
qed

theorem disconnect_inverts_connect_witness:
  "\<exists>vtxundo c'. connect_txs example_view example_hash 9 0 [example_coinbase, example_spend] \<lparr>hashBlock = [], cacheCoins = Map.empty\<rparr> = Inr (vtxundo, c') \<and>
    (\<exists>c3. DisconnectBlock example_view example_hash True (Some vtxundo) True [example_coinbase, example_spend] 9 [5] c' = Inr (DISCONNECT_OK, c3))"
proof -
  have V: "utxo_of example_view \<lparr>hashBlock = [], cacheCoins = Map.empty\<rparr> = example_view"
    by (auto simp: utxo_of_def example_view_def fun_eq_iff unspent_def example_coin_def IsSpent_def CTxOut_IsNull_def COIN_def)
  have inv: "cache_inv example_view \<lparr>hashBlock = [], cacheCoins = Map.empty\<rparr>" by (simp add: cache_inv_def)
  have ok: "coins_ok example_view" by (auto simp: coins_ok_def example_view_def example_coin_def IsUnspendable_def split: if_splits)
  have cb: "\<forall>i<length [example_coinbase, example_spend]. IsCoinBase ([example_coinbase, example_spend] ! i) \<longleftrightarrow> i = 0"
    by (simp add: less_Suc_eq example_coinbase_def example_spend_def IsCoinBase_def COutPoint_IsNull_def COutPoint_null_def)
  have "(0::int) < 9" "(9::int) < 2 ^ 31" "[example_coinbase, example_spend] \<noteq> []" by simp_all
  from disconnect_inverts_connect [OF inv, unfolded V, OF ok example_connectable this cb, of "[5]"]
  obtain vtxundo c' where c: "connect_txs example_view example_hash 9 0 [example_coinbase, example_spend] \<lparr>hashBlock = [], cacheCoins = Map.empty\<rparr> =
      Inr (vtxundo, c')" "cache_inv example_view c'"
    and d: "\<And>base2 c2. cache_inv base2 c2 \<and> utxo_of base2 c2 = utxo_of example_view c' \<Longrightarrow>
      \<exists>c3. DisconnectBlock base2 example_hash True (Some vtxundo) True [example_coinbase, example_spend] 9 [5] c2 = Inr (DISCONNECT_OK, c3) \<and>
        cache_inv base2 c3 \<and> utxo_of base2 c3 = example_view \<and> hashBlock c3 = [5]" by (elim exE conjE) presburger
  from d [OF conjI, OF c(2) refl] show ?thesis using c(1) by (elim exE conjE) (intro exI conjI)
qed

end
