(* ===== verification/Tx_Verify.thy ===== *)
theory Tx_Verify
  imports Coins_Cache
begin

text \<open>
  The checks of a transaction against the coins it spends: \<^verbatim>\<open>Consensus::CheckTxInputs\<close> of
  \<^verbatim>\<open>src/src/consensus/tx_verify.cpp\<close>, with \<^verbatim>\<open>GetAssetUnlockFee\<close> of \<^verbatim>\<open>src/src/evo/assetlocktx.cpp\<close> and the
  payload decoding of \<^verbatim>\<open>src/src/evo/specialtx.h\<close>. Whether 96 bytes decode as a BLS signature is the
  argument \<open>bls_readable\<close>. Amounts are mathematical integers: the guards keep every sum that is used
  in the money range.
\<close>

section \<open>Model\<close>

record CAssetUnlockPayload =
  au_nVersion :: u8
  au_index :: u64
  au_fee :: u32
  au_requestedHeight :: u32
  au_quorumHash :: uint256
  au_quorumSig :: "byte list"

definition UnserAssetUnlock :: "(byte list \<Rightarrow> bool) \<Rightarrow> CAssetUnlockPayload reader" where
  "UnserAssetUnlock bls_readable s =
     sum_bind (ser_readdata8 s) (\<lambda>(v, s). sum_bind (ser_readdata64 s) (\<lambda>(i, s).
     sum_bind (ser_readdata32 s) (\<lambda>(f, s). sum_bind (ser_readdata32 s) (\<lambda>(r, s).
     sum_bind (read_bytes 32 s) (\<lambda>(q, s). sum_bind (read_bytes 96 s) (\<lambda>(sig, s).
       if bls_readable sig
       then Inr (\<lparr>au_nVersion = v, au_index = i, au_fee = f, au_requestedHeight = r, au_quorumHash = q, au_quorumSig = sig\<rparr>, s)
       else Inl MalleableBls))))))"

text \<open>\<^verbatim>\<open>GetTxPayload\<close>: any exception and any byte left over give no payload.\<close>

definition GetTxPayload_bytes :: "'a reader \<Rightarrow> byte list \<Rightarrow> 'a option" where
  "GetTxPayload_bytes unser payload =
     (case unser payload of Inr (obj, rest) \<Rightarrow> if rest = [] then Some obj else None | Inl _ \<Rightarrow> None)"

definition GetTxPayload :: "u16 \<Rightarrow> 'a reader \<Rightarrow> CTransaction \<Rightarrow> 'a option" where
  "GetTxPayload SPECIALTX_TYPE unser tx =
     (if nType tx \<noteq> SPECIALTX_TYPE then None else GetTxPayload_bytes unser (vExtraPayload tx))"

definition GetAssetUnlockFee :: "(byte list \<Rightarrow> bool) \<Rightarrow> CTransaction \<Rightarrow> tx_invalid + CAmount" where
  "GetAssetUnlockFee bls_readable tx =
     (case GetTxPayload TRANSACTION_ASSET_UNLOCK (UnserAssetUnlock bls_readable) tx of
        None \<Rightarrow> Inl (TX_BAD_SPECIAL, ''bad-assetunlocktx-payload'')
      | Some assetUnlockTx \<Rightarrow>
          let txfee_aux = uint (au_fee assetUnlockTx) in
          if txfee_aux = 0 \<or> \<not> MoneyRange txfee_aux then Inl (TX_CONSENSUS, ''bad-txns-assetunlock-fee-outofrange'')
          else Inr txfee_aux)"

text \<open>The loop over the inputs; the outer sum is an assertion, the inner one a rejection.\<close>

fun check_inputs_loop ::
  "coins_view \<Rightarrow> int \<Rightarrow> CTxIn list \<Rightarrow> CAmount \<Rightarrow> CCoinsViewCache \<Rightarrow> abort + (tx_invalid + CAmount) \<times> CCoinsViewCache" where
  "check_inputs_loop base nSpendHeight [] nValueIn inputs = Inr (Inr nValueIn, inputs)"
| "check_inputs_loop base nSpendHeight (i # is) nValueIn inputs =
     (let (coin, inputs) = AccessCoin base inputs (prevout i) in
      if IsSpent coin then Inl AssertFailed
      else if (fCoinBase coin \<or> fCoinStake coin) \<and> nSpendHeight - coin_nHeight coin < COINBASE_MATURITY
      then Inr (Inl (TX_PREMATURE_SPEND, ''bad-txns-premature-spend-of-coinbase''), inputs)
      else
        let nValueIn = nValueIn + nValue (out coin) in
        if \<not> MoneyRange (nValue (out coin)) \<or> \<not> MoneyRange nValueIn
        then Inr (Inl (TX_CONSENSUS, ''bad-txns-inputvalues-outofrange''), inputs)
        else check_inputs_loop base nSpendHeight is nValueIn inputs)"

text \<open>\<^verbatim>\<open>CheckTxInputs\<close>: \<open>txfee\<close> is the caller's variable, which a coinstake leaves as it is.\<close>

definition CheckTxInputs ::
  "(byte list \<Rightarrow> bool) \<Rightarrow> coins_view \<Rightarrow> CTransaction \<Rightarrow> CCoinsViewCache \<Rightarrow> int \<Rightarrow> CAmount \<Rightarrow>
     abort + (tx_invalid + CAmount) \<times> CCoinsViewCache" where
  "CheckTxInputs bls_readable base tx inputs nSpendHeight txfee =
     (if IsSpecialTxVersion tx \<and> nType tx = TRANSACTION_ASSET_UNLOCK then Inr (GetAssetUnlockFee bls_readable tx, inputs)
      else
        let (have_inputs, inputs) = HaveInputs base inputs tx in
        if \<not> have_inputs then Inr (Inl (TX_MISSING_INPUTS, ''bad-txns-inputs-missingorspent''), inputs)
        else
          sum_bind (check_inputs_loop base nSpendHeight (vin tx) 0 inputs) (\<lambda>(r, inputs).
            case r of
              Inl e \<Rightarrow> Inr (Inl e, inputs)
            | Inr nValueIn \<Rightarrow>
                if IsCoinStake tx then Inr (Inr txfee, inputs)
                else
                  sum_bind (GetValueOut tx) (\<lambda>value_out.
                    if nValueIn < value_out then Inr (Inl (TX_CONSENSUS, ''bad-txns-in-belowout''), inputs)
                    else
                      let txfee_aux = nValueIn - value_out in
                      if \<not> MoneyRange txfee_aux then Inr (Inl (TX_CONSENSUS, ''bad-txns-fee-outofrange''), inputs)
                      else Inr (Inr txfee_aux, inputs))))"

section \<open>Lemmas\<close>

text \<open>What makes an input acceptable, and the sum of what the inputs carry.\<close>

definition input_ok :: "coins_view \<Rightarrow> int \<Rightarrow> COutPoint \<Rightarrow> bool" where
  "input_ok V nSpendHeight k \<longleftrightarrow>
     (case V k of None \<Rightarrow> False | Some coin \<Rightarrow>
        0 \<le> nValue (out coin) \<and> (fCoinBase coin \<or> fCoinStake coin \<longrightarrow> coin_nHeight coin + COINBASE_MATURITY \<le> nSpendHeight))"

definition input_value :: "coins_view \<Rightarrow> COutPoint \<Rightarrow> CAmount" where
  "input_value V k = (case V k of None \<Rightarrow> 0 | Some coin \<Rightarrow> nValue (out coin))"

lemma have_inputs_loop_spec:
  assumes "cache_inv base c"
  shows "\<exists>h c'. have_inputs_loop base c is = (h, c') \<and> (h \<longleftrightarrow> (\<forall>i\<in>set is. utxo_of base c (prevout i) \<noteq> None)) \<and>
    cache_inv base c' \<and> utxo_of base c' = utxo_of base c"
  using assms
proof (induction "is" arbitrary: c)
  case (Cons i "is")
  obtain h c1 where c1: "HaveCoin base c (prevout i) = (h, c1)" by force
  note H = HaveCoin_spec [OF Cons.prems, of "prevout i", unfolded c1 fst_conv snd_conv]
  then show ?case using Cons.IH [OF H(2)] by (auto simp: c1)
qed auto

lemma check_inputs_loop_spec:
  assumes "cache_inv base c" "\<forall>i\<in>set is. utxo_of base c (prevout i) \<noteq> None" "MoneyRange v"
  shows "\<exists>r c'. check_inputs_loop base h is v c = Inr (r, c') \<and> cache_inv base c' \<and> utxo_of base c' = utxo_of base c \<and>
    (let total = v + (\<Sum>i\<leftarrow>is. input_value (utxo_of base c) (prevout i)) in
     if (\<forall>i\<in>set is. input_ok (utxo_of base c) h (prevout i)) \<and> total \<le> MAX_MONEY then r = Inr total else \<exists>e. r = Inl e)"
  using assms
proof (induction "is" arbitrary: c v)
  case (Cons i "is")
  obtain coin c1 where c1: "AccessCoin base c (prevout i) = (coin, c1)" by force
  note A = AccessCoin_spec [OF Cons.prems(1), of "prevout i", unfolded c1 fst_conv snd_conv]
  have coin: "utxo_of base c (prevout i) = Some coin" "\<not> IsSpent coin"
    using A(1) Cons.prems(2) by (auto simp: unspent_def split: if_splits)
  define t where "t = (\<Sum>j\<leftarrow>is. input_value (utxo_of base c) (prevout j))"
  have pos: "0 \<le> t" if "\<forall>j\<in>set is. input_ok (utxo_of base c) h (prevout j)"
    using that unfolding t_def by (intro sum_list_nonneg) (fastforce simp: input_ok_def input_value_def split: option.splits)
  let ?early = "(fCoinBase coin \<or> fCoinStake coin) \<and> h - coin_nHeight coin < COINBASE_MATURITY"
  let ?range = "MoneyRange (nValue (out coin)) \<and> MoneyRange (v + nValue (out coin))"
  have ok: "input_ok (utxo_of base c) h (prevout i) \<longleftrightarrow> \<not> ?early \<and> 0 \<le> nValue (out coin)"
    by (auto simp: input_ok_def coin)
  show ?case
  proof (cases "\<not> ?early \<and> ?range")
    case True
    then show ?thesis
      using Cons.IH [OF A(2), of "v + nValue (out coin)"] Cons.prems(2) ok A(3)
      by (auto simp: c1 coin Let_def input_value_def MoneyRange_iff add.assoc)
  next
    case False
    have no: "\<not> ((\<forall>j\<in>set (i # is). input_ok (utxo_of base c) h (prevout j)) \<and> v + nValue (out coin) + t \<le> MAX_MONEY)"
      using False ok pos Cons.prems(3) by (auto simp: MoneyRange_iff)
    have "\<exists>e. check_inputs_loop base h (i # is) v c = Inr (Inl e, c1)" using False by (auto simp: c1 coin Let_def)
    then show ?thesis using no A by (auto simp: Let_def t_def input_value_def coin add.assoc)
  qed
qed (simp add: MoneyRange_iff)

section \<open>Property\<close>

text \<open>\<^bold>\<open>C6\<close>: value is conserved and only mature, unspent coins are spent. For a transaction that is neither a
  coinbase nor an asset unlock and whose outputs passed \<^verbatim>\<open>CheckTransaction\<close>, \<^verbatim>\<open>CheckTxInputs\<close> never hits its
  assertion, leaves the set of unspent outputs as it is, and accepts exactly if every input is an
  unspent output of non-negative value, a coinbase or coinstake one at least \<^verbatim>\<open>COINBASE_MATURITY\<close> blocks
  deep, the inputs total at most \<^verbatim>\<open>MAX_MONEY\<close>, and, unless it is a coinstake, they cover the outputs; the
  fee is then what the inputs carry beyond the outputs.\<close>

theorem CheckTxInputs_iff:
  assumes "cache_inv base c" "\<not> IsCoinBase tx" "\<not> (IsSpecialTxVersion tx \<and> nType tx = TRANSACTION_ASSET_UNLOCK)"
    "\<forall>x\<in>set (vout tx). 0 \<le> nValue x" "sum_list (map nValue (vout tx)) \<le> MAX_MONEY"
  shows "\<exists>r c'. CheckTxInputs bls_readable base tx c h txfee = Inr (r, c') \<and> cache_inv base c' \<and> utxo_of base c' = utxo_of base c \<and>
    (let value_in = (\<Sum>i\<leftarrow>vin tx. input_value (utxo_of base c) (prevout i)); value_out = sum_list (map nValue (vout tx)) in
     if (\<forall>i\<in>set (vin tx). input_ok (utxo_of base c) h (prevout i)) \<and> value_in \<le> MAX_MONEY \<and> (IsCoinStake tx \<or> value_out \<le> value_in)
     then r = Inr (if IsCoinStake tx then txfee else value_in - value_out)
     else \<exists>e. r = Inl e)"
proof -
  define vi where "vi = (\<Sum>i\<leftarrow>vin tx. input_value (utxo_of base c) (prevout i))"
  define vo where "vo = sum_list (map nValue (vout tx))"
  have vo: "GetValueOut tx = Inr vo" "0 \<le> vo"
    using value_out_loop_eq [of 0 "vout tx"] assms(4,5) by (auto simp: GetValueOut_def vo_def MoneyRange_iff MAX_MONEY_def COIN_def intro!: sum_list_nonneg)
  obtain hv c1 where c1: "HaveInputs base c tx = (hv, c1)" "hv \<longleftrightarrow> (\<forall>i\<in>set (vin tx). utxo_of base c (prevout i) \<noteq> None)"
    "cache_inv base c1" "utxo_of base c1 = utxo_of base c"
    using have_inputs_loop_spec [OF assms(1), of "vin tx"] assms(2) by (auto simp: HaveInputs_def)
  show ?thesis
  proof (cases hv)
    case False
    then have "\<not> (\<forall>i\<in>set (vin tx). input_ok (utxo_of base c) h (prevout i))" using c1(2) by (force simp: input_ok_def)
    then show ?thesis using False c1 assms(3) by (auto simp: CheckTxInputs_def Let_def)
  next
    case True
    then have av: "\<forall>i\<in>set (vin tx). utxo_of base c1 (prevout i) \<noteq> None" using c1(2,4) by simp
    have m0: "MoneyRange 0" by (simp add: MoneyRange_def MAX_MONEY_def COIN_def)
    obtain r c2 where c2: "check_inputs_loop base h (vin tx) 0 c1 = Inr (r, c2)" "cache_inv base c2" "utxo_of base c2 = utxo_of base c"
      "if (\<forall>i\<in>set (vin tx). input_ok (utxo_of base c) h (prevout i)) \<and> vi \<le> MAX_MONEY then r = Inr vi else \<exists>e. r = Inl e"
      using check_inputs_loop_spec [OF c1(3) av m0, of h] c1(4) by (auto simp: vi_def [symmetric] Let_def)
    show ?thesis
    proof (cases "(\<forall>i\<in>set (vin tx). input_ok (utxo_of base c) h (prevout i)) \<and> vi \<le> MAX_MONEY")
      case True
      then have "r = Inr vi" using c2(4) by simp
      then show ?thesis using True \<open>hv\<close> c1 c2 assms(3) vo
        by (auto simp: CheckTxInputs_def Let_def vi_def [symmetric] vo_def [symmetric] MoneyRange_iff)
    next
      case False
      then obtain e where "r = Inl e" using c2(4) by (auto split: if_splits)
      then show ?thesis using False \<open>hv\<close> c1 c2 assms(3) by (auto simp: CheckTxInputs_def Let_def vi_def [symmetric])
    qed
  qed
qed

theorem CheckTxInputs_iff_witness:
  "\<exists>c'. CheckTxInputs (\<lambda>_. True) [\<lparr>op_hash = replicate 32 7, op_n = 1\<rparr> \<mapsto> example_coin] example_spend
     \<lparr>hashBlock = [], cacheCoins = Map.empty\<rparr> 9 0 = Inr (Inr COIN, c')"
proof -
  let ?c = "\<lparr>hashBlock = [], cacheCoins = Map.empty\<rparr>" and ?b = "[\<lparr>op_hash = replicate 32 7, op_n = 1\<rparr> \<mapsto> example_coin]"
  have V: "utxo_of ?b ?c \<lparr>op_hash = replicate 32 7, op_n = 1\<rparr> = Some example_coin"
    by (simp add: utxo_of_def unspent_def example_coin_def IsSpent_def CTxOut_IsNull_def COIN_def)
  have "cache_inv ?b ?c" "\<not> IsCoinBase example_spend" "\<not> (IsSpecialTxVersion example_spend \<and> nType example_spend = TRANSACTION_ASSET_UNLOCK)"
    "\<forall>x\<in>set (vout example_spend). 0 \<le> nValue x" "sum_list (map nValue (vout example_spend)) \<le> MAX_MONEY" "\<not> IsCoinStake example_spend"
    by (simp_all add: cache_inv_def example_spend_def IsCoinBase_def COutPoint_IsNull_def IsSpecialTxVersion_def SPECIAL_VERSION_def
        COIN_def MAX_MONEY_def IsCoinStake_def CTxOut_IsEmpty_def)
  moreover have "\<forall>i\<in>set (vin example_spend). input_ok (utxo_of ?b ?c) 9 (prevout i)"
    by (simp add: example_spend_def input_ok_def V) (simp add: example_coin_def COIN_def)
  moreover have "(\<Sum>i\<leftarrow>vin example_spend. input_value (utxo_of ?b ?c) (prevout i)) = 5 * COIN"
    by (simp add: example_spend_def input_value_def V) (simp add: example_coin_def)
  moreover have "sum_list (map nValue (vout example_spend)) = 4 * COIN" "5 * COIN \<le> MAX_MONEY" "4 * COIN \<le> 5 * COIN" "5 * COIN - 4 * COIN = COIN"
    by (simp_all add: example_spend_def COIN_def MAX_MONEY_def)
  ultimately show ?thesis using CheckTxInputs_iff [of ?b ?c example_spend "\<lambda>_. True" 9 0] by (auto simp: Let_def)
qed

end
