(* ===== verification/Stake_Kernel.thy ===== *)
theory Stake_Kernel
  imports Tx_Verify Chain_Work
begin

text \<open>
  Proof of stake: \<^verbatim>\<open>src/src/pos/kernel.h\<close> and \<^verbatim>\<open>src/src/pos/kernel.cpp\<close>. The kernel hash is taken over
  the stake modifier, the time of the block that holds the staked output, the outpoint and the new
  timestamp; it has to stay below the target weighted by the value of the output. The double SHA-256
  \<open>Hash\<close> and the script check \<open>VerifyScript\<close> are arguments. \<^verbatim>\<open>GetPoSKernelPS\<close>, an estimate in floating point
  for display, is left out.
\<close>

section \<open>Model\<close>

definition CheckCoinStakeTimestamp :: "int \<Rightarrow> Params \<Rightarrow> bool" where
  "CheckCoinStakeTimestamp nTimeBlock params \<longleftrightarrow> of_int nTimeBlock AND posTimestampMask params = (0 :: u32)"

definition ExpectedStakeTime :: "int \<Rightarrow> u64 \<Rightarrow> u64 \<Rightarrow> abort + int" where
  "ExpectedStakeTime nTargetSpacing nNetworkWeight nWeight =
     (if nWeight = 0 \<or> nTargetSpacing \<le> 0 then Inr 0
      else
        sum_bind (arith_div (arith_mul (arith_of_u64 nNetworkWeight) (arith_of_u64 (of_int nTargetSpacing))) (arith_of_u64 nWeight)) (\<lambda>seconds.
          let max_seconds = arith_of_u64 (of_int INT64_MAX) in
          if CompareTo seconds max_seconds > 0 then Inr INT64_MAX
          else Inr (sint (GetLow64 seconds))))"

definition StakeModifierFromKernel :: "int \<Rightarrow> Params \<Rightarrow> bool" where
  "StakeModifierFromKernel height params \<longleftrightarrow> height \<ge> nPosStakeModifierV2ActivationHeight params"

definition ComputeStakeModifier :: "(byte list \<Rightarrow> uint256) \<Rightarrow> CBlockIndex option \<Rightarrow> uint256 \<Rightarrow> uint256" where
  "ComputeStakeModifier Hash pindexPrev kernelHash =
     (case pindexPrev of None \<Rightarrow> uint256_null | Some prev \<Rightarrow> Hash (kernelHash @ nStakeModifier prev))"

definition IsPosKernelV2 :: "Params \<Rightarrow> int \<Rightarrow> bool" where
  "IsPosKernelV2 params height \<longleftrightarrow> height \<ge> nPosKernelV2ActivationHeight params"

text \<open>The stream hashed by \<^verbatim>\<open>CheckStakeKernelHash\<close>.\<close>

definition kernel_stream :: "uint256 \<Rightarrow> u32 \<Rightarrow> COutPoint \<Rightarrow> u32 \<Rightarrow> byte list" where
  "kernel_stream stakeModifier nBlockFromTime outp time =
     stakeModifier @ ser_writedata32 nBlockFromTime @ op_hash outp @ ser_writedata32 (op_n outp) @ ser_writedata32 time"

text \<open>\<^verbatim>\<open>CheckStakeKernelHash\<close> returns the verdict and the two reference arguments, which an early return
  leaves as they were.\<close>

definition CheckStakeKernelHash ::
  "(byte list \<Rightarrow> uint256) \<Rightarrow> CBlockIndex \<Rightarrow> Params \<Rightarrow> u32 \<Rightarrow> u32 \<Rightarrow> CAmount \<Rightarrow> COutPoint \<Rightarrow> u32 \<Rightarrow> uint256 \<Rightarrow> uint256 \<Rightarrow>
     abort + bool \<times> uint256 \<times> uint256" where
  "CheckStakeKernelHash Hash pindexPrev params bits nBlockFromTime prevOutAmount outp time hashProofOfStake targetProofOfStake =
     (if time < nBlockFromTime then Inr (False, hashProofOfStake, targetProofOfStake)
      else
        let (bnTarget, fNegative, fOverflow) = SetCompact bits in
        if fNegative \<or> fOverflow \<or> EqualTo bnTarget 0 then Inr (False, hashProofOfStake, targetProofOfStake)
        else
          let kernel_v2 = IsPosKernelV2 params (nHeight pindexPrev + 1);
              bnWeight = arith_of_u64 (of_int prevOutAmount)
          in if kernel_v2 \<and> EqualTo bnWeight 0 then Inr (False, hashProofOfStake, targetProofOfStake)
             else
               let bnTarget = (if kernel_v2 then bnTarget else arith_mul bnTarget bnWeight);
                   targetProofOfStake = ArithToUint256 bnTarget;
                   hashProofOfStake = Hash (kernel_stream (nStakeModifier pindexPrev) nBlockFromTime outp time);
                   bnHash = UintToArith256 hashProofOfStake
               in sum_bind (if kernel_v2 then map_sum id (\<lambda>q. CompareTo q bnTarget > 0) (arith_div bnHash bnWeight)
                            else Inr (CompareTo bnHash bnTarget > 0)) (\<lambda>above.
                    Inr (\<not> above, hashProofOfStake, targetProofOfStake)))"

text \<open>\<^verbatim>\<open>CheckProofOfStake\<close>: \<open>st\<close> and \<open>v\<close> are the block index and the active chain. A rejection carries the
  reject reason; every one has the result \<^verbatim>\<open>BLOCK_CONSENSUS\<close>.\<close>

definition CheckProofOfStake ::
  "(byte list \<Rightarrow> uint256) \<Rightarrow> (CTransaction \<Rightarrow> Coin \<Rightarrow> bool) \<Rightarrow> Params \<Rightarrow> block_store \<Rightarrow> vchain \<Rightarrow> coins_view \<Rightarrow> CCoinsViewCache \<Rightarrow>
     CBlockIndex \<Rightarrow> CTransaction \<Rightarrow> int \<Rightarrow> u32 \<Rightarrow> uint256 \<Rightarrow> uint256 \<Rightarrow> abort + (string + uint256 \<times> uint256) \<times> CCoinsViewCache" where
  "CheckProofOfStake Hash VerifyScript params st v base view pindexPrev tx time bits hashProofOfStake targetProofOfStake =
     (if \<not> IsCoinStake tx \<or> length (vin tx) < 1 then Inr (Inl ''malformed-txn'', view)
      else
        let txin = vin tx ! 0;
            (r, view) = GetCoin base view (prevout txin)
        in case r of
          None \<Rightarrow> Inr (Inl ''prevout-not-found'', view)
        | Some coin \<Rightarrow>
            if IsSpent coin then Inr (Inl ''prevout-not-found'', view)
            else case chain_at v (coin_nHeight coin) of
              None \<Rightarrow> Inr (Inl ''invalid-prevout'', view)
            | Some p \<Rightarrow>
              case st p of
                None \<Rightarrow> Inl NullDeref
              | Some pindex \<Rightarrow>
                let nBlockFromTime = GetBlockTime pindex;
                    nRequiredDepth = COINBASE_MATURITY + 1;
                    nDepth = nHeight pindexPrev - coin_nHeight coin;
                    amount = nValue (out coin);
                    inputAge = time - nBlockFromTime;
                    age_capped = \<not> IsPosKernelV2 params (nHeight pindexPrev + 1)
                in if nRequiredDepth > nDepth then Inr (Inl ''bad-stake-depth'', view)
                   else if amount < fst (stakeValueRange params) \<or> amount > snd (stakeValueRange params)
                   then Inr (Inl ''bad-stake-amount'', view)
                   else if inputAge < fst (stakeAgeRange params) \<or> age_capped \<and> inputAge > snd (stakeAgeRange params)
                   then Inr (Inl ''bad-stake-age'', view)
                   else if \<not> VerifyScript tx coin then Inr (Inl ''bad-stake-signature'', view)
                   else
                     sum_bind (CheckStakeKernelHash Hash pindexPrev params bits (of_int nBlockFromTime) amount (prevout txin)
                                 (of_int time) hashProofOfStake targetProofOfStake) (\<lambda>(ok, h, t).
                       if \<not> ok then Inr (Inl ''bad-stake-kernel'', view) else Inr (Inr (h, t), view)))"

text \<open>\<^verbatim>\<open>CheckKernel\<close>, which the staker asks; it also reports the time of the block holding the coin.\<close>

definition CheckKernel ::
  "(byte list \<Rightarrow> uint256) \<Rightarrow> Params \<Rightarrow> block_store \<Rightarrow> vchain \<Rightarrow> coins_view \<Rightarrow> CCoinsViewCache \<Rightarrow> CBlockIndex \<Rightarrow> u32 \<Rightarrow> int \<Rightarrow> COutPoint \<Rightarrow>
     abort + bool \<times> int option \<times> CCoinsViewCache" where
  "CheckKernel Hash params st v base coinsTip pindexPrev bits time outp =
     (let (r, coinsTip) = GetCoin base coinsTip outp in
      case r of
        None \<Rightarrow> Inr (False, None, coinsTip)
      | Some coin \<Rightarrow>
          if IsSpent coin then Inr (False, None, coinsTip)
          else case chain_at v (coin_nHeight coin) of
            None \<Rightarrow> Inr (False, None, coinsTip)
          | Some p \<Rightarrow>
            if COINBASE_MATURITY + 1 > nHeight pindexPrev - coin_nHeight coin then Inr (False, None, coinsTip)
            else case st p of
              None \<Rightarrow> Inl NullDeref
            | Some pindex \<Rightarrow>
              let nBlockFromTime = GetBlockTime pindex in
              sum_bind (CheckStakeKernelHash Hash pindexPrev params bits (of_int nBlockFromTime) (nValue (out coin)) outp
                          (of_int time) uint256_null uint256_null) (\<lambda>(ok, h, t).
                Inr (ok, Some nBlockFromTime, coinsTip)))"

section \<open>The kernel test\<close>

text \<open>Which numeric test the kernel hash has to pass: with weight \<open>w\<close> and hash value \<open>hv\<close>.\<close>

definition kernel_wins :: "bool \<Rightarrow> nat \<Rightarrow> nat \<Rightarrow> nat \<Rightarrow> bool" where
  "kernel_wins v2 target w hv \<longleftrightarrow> (if v2 then hv < (target + 1) * w else hv \<le> target * w mod 2 ^ 256)"

lemma div_le_iff_less: "0 < w \<Longrightarrow> \<not> t < hv div w \<longleftrightarrow> hv < (t + 1) * (w :: nat)"
  by (metis Suc_eq_plus1 div_less_iff_less_mult less_Suc_eq_le not_less)

lemma CheckStakeKernelHash_val:
  "\<exists>h t. CheckStakeKernelHash Hash prev params bits from amount k time h0 t0 =
     Inr (from \<le> time \<and> target_valid bits \<and>
          kernel_wins (IsPosKernelV2 params (nHeight prev + 1)) (compact_value bits) (unat (of_int amount :: u64))
            (limbs_val (UintToArith256 (Hash (kernel_stream (nStakeModifier prev) from k time)))), h, t)"
proof -
  obtain n neg ovf where s: "SetCompact bits = (n, neg, ovf)" by (cases "SetCompact bits") auto
  note v = SetCompact_valid [OF s]
  define w where "w = arith_of_u64 (of_int amount)"
  define hs where "hs = UintToArith256 (Hash (kernel_stream (nStakeModifier prev) from k time))"
  have w: "arith_wf w" "limbs_val w = unat (of_int amount :: u64)" by (simp_all add: w_def arith_of_u64_val)
  have hs: "arith_wf hs" by (simp add: hs_def)
  show ?thesis
  proof (cases "from \<le> time \<and> target_valid bits")
    case False
    then show ?thesis using s v(1) by (auto simp: CheckStakeKernelHash_def not_less)
  next
    case True
    then have t: "\<not> time < from" "\<not> neg" "\<not> ovf" "\<not> EqualTo n 0" "limbs_val n = compact_value bits" using v by auto
    show ?thesis
    proof (cases "IsPosKernelV2 params (nHeight prev + 1)")
      case v2: True
      show ?thesis
      proof (cases "limbs_val w = 0")
        case zero: True
        then show ?thesis using True v2 s t w EqualTo_zero [OF w(1)]
          by (simp add: CheckStakeKernelHash_def w_def [symmetric] kernel_wins_def)
      next
        case False
        then obtain q where q: "arith_div hs w = Inr q" "arith_wf q" "limbs_val q = limbs_val hs div limbs_val w"
          using arith_div_val [OF hs w(1)] by blast
        have "(0 < CompareTo q n) = (\<not> limbs_val hs < (compact_value bits + 1) * unat (of_int amount :: u64))"
          using False div_le_iff_less [of "limbs_val w" "compact_value bits" "limbs_val hs"]
          by (auto simp: CompareTo_gt q v(3) t(5) simp flip: w(2))
        then show ?thesis using True v2 s t False EqualTo_zero [OF w(1)] q(1)
          by (simp add: CheckStakeKernelHash_def w_def [symmetric] hs_def [symmetric] kernel_wins_def)
      qed
    next
      case False
      have "(0 < CompareTo hs (arith_mul n w)) = (\<not> limbs_val hs \<le> compact_value bits * unat (of_int amount :: u64) mod 2 ^ 256)"
        using hs w(1) v(3) by (simp add: CompareTo_gt arith_mul_val t(5) w(2) not_le)
      then show ?thesis using True False s t
        by (simp add: CheckStakeKernelHash_def w_def [symmetric] hs_def [symmetric] kernel_wins_def)
    qed
  qed
qed

lemma amount_u64: "0 \<le> amount \<Longrightarrow> amount < 2 ^ 63 \<Longrightarrow> unat (of_int amount :: u64) = nat amount"
  by (simp add: unsigned_of_int take_bit_int_eq_self)

text \<open>Below the activation height the weighted target wraps, and a larger stake can lose where a smaller
  one wins.\<close>

lemma kernel_v1_not_monotone:
  defines "target \<equiv> compact_value 0x207fffff"
  shows "target_valid 0x207fffff \<and> kernel_wins False target 1 target \<and> \<not> kernel_wins False target 3 target"
proof -
  have t: "target = 0x7fffff * 256 ^ 29" by (simp add: target_def compact_value_def compact_size_def unat_drop_u32 unat_mask23)
  have "target_valid 0x207fffff"
    using t by (simp add: target_valid_def target_def [symmetric] bit_numeral_simps)
  then show ?thesis unfolding kernel_wins_def t by simp
qed

section \<open>Properties\<close>

text \<open>\<^bold>\<open>C4\<close>: from the activation height on, the chance to stake is proportional to the amount, exactly. The kernel
  check does not fail, and it accepts a kernel exactly if the new time is not before the time of the
  block holding the coin, the compact target is valid, and the kernel hash as a number is below
  (target + 1) times the amount as an unbounded product. There is no overflow at any amount, so a kernel
  that wins with an amount wins with every larger one.\<close>

theorem kernel_v2_exact:
  assumes "IsPosKernelV2 params (nHeight prev + 1)" "0 \<le> amount" "amount < 2 ^ 63"
  shows "\<exists>ok h t. CheckStakeKernelHash Hash prev params bits from amount k time h0 t0 = Inr (ok, h, t) \<and>
    (ok \<longleftrightarrow> from \<le> time \<and> target_valid bits \<and>
       limbs_val (UintToArith256 (Hash (kernel_stream (nStakeModifier prev) from k time))) < (compact_value bits + 1) * nat amount) \<and>
    (ok \<longrightarrow> (\<forall>amount'. amount \<le> amount' \<and> amount' < 2 ^ 63 \<longrightarrow>
       (\<exists>h' t'. CheckStakeKernelHash Hash prev params bits from amount' k time h0 t0 = Inr (True, h', t'))))"
proof -
  define hv where "hv = limbs_val (UintToArith256 (Hash (kernel_stream (nStakeModifier prev) from k time)))"
  have val: "\<exists>h t. CheckStakeKernelHash Hash prev params bits from a k time h0 t0 =
      Inr (from \<le> time \<and> target_valid bits \<and> hv < (compact_value bits + 1) * nat a, h, t)" if "0 \<le> a" "a < 2 ^ 63" for a
    using CheckStakeKernelHash_val [of Hash prev params bits "from" a k time h0 t0] assms(1) amount_u64 [OF that]
    by (simp add: kernel_wins_def hv_def)
  have mono: "hv < (compact_value bits + 1) * nat a'" if "hv < (compact_value bits + 1) * nat amount" "amount \<le> a'" for a'
    using that by (meson le_trans mult_le_mono2 nat_mono not_le)
  show ?thesis using val [OF assms(2,3)] val mono assms(2) unfolding hv_def [symmetric] by (smt (verit))
qed

theorem kernel_v2_exact_witness:
  "\<exists>h t. CheckStakeKernelHash (\<lambda>_. ArithToUint256 arith_zero) (CBlockIndex_default\<lparr>nHeight := 9\<rparr>) (main_params\<lparr>nPosKernelV2ActivationHeight := 10\<rparr>)
     0x207fffff 5 COIN COutPoint_null 6 [] [] = Inr (True, h, t)"
proof -
  have v: "target_valid 0x207fffff" using kernel_v1_not_monotone by blast
  have "limbs_val (UintToArith256 (ArithToUint256 arith_zero)) = 0" by (simp add: UintToArith256_ArithToUint256)
  then show ?thesis
    using kernel_v2_exact [of "main_params\<lparr>nPosKernelV2ActivationHeight := 10\<rparr>" "CBlockIndex_default\<lparr>nHeight := 9\<rparr>" COIN "\<lambda>_. ArithToUint256 arith_zero"
        "0x207fffff" 5 COutPoint_null 6 "[]" "[]"] v
    by (simp add: IsPosKernelV2_def COIN_def) (elim exE conjE, simp)
qed

text \<open>\<^bold>\<open>C13\<close>: the staker and the validator agree. Over the same coins, \<^verbatim>\<open>CheckProofOfStake\<close> does not fail and
  accepts a transaction exactly if it is a coinstake, its kernel coin has a value and an age in the
  permitted ranges (the age has no upper bound from the activation height on), the script check passes,
  and \<^verbatim>\<open>CheckKernel\<close>, which the staker asks before building the block, accepts the first input. Neither
  changes the set of unspent outputs.\<close>

theorem proof_of_stake_iff:
  assumes inv: "cache_inv base view" and chain: "\<forall>h p. chain_at v h = Some p \<longrightarrow> st p \<noteq> None"
  shows "\<exists>r view' ok bt tip'. CheckProofOfStake Hash VerifyScript params st v base view prev tx time bits h0 t0 = Inr (r, view') \<and>
    utxo_of base view' = utxo_of base view \<and>
    CheckKernel Hash params st v base view prev bits time (prevout (vin tx ! 0)) = Inr (ok, bt, tip') \<and>
    utxo_of base tip' = utxo_of base view \<and>
    ((\<exists>p. r = Inr p) \<longleftrightarrow> IsCoinStake tx \<and> ok \<and>
      (\<exists>coin b. utxo_of base view (prevout (vin tx ! 0)) = Some coin \<and> (\<exists>p. chain_at v (coin_nHeight coin) = Some p \<and> st p = Some b) \<and>
         fst (stakeValueRange params) \<le> nValue (out coin) \<and> nValue (out coin) \<le> snd (stakeValueRange params) \<and>
         fst (stakeAgeRange params) \<le> time - GetBlockTime b \<and>
         (IsPosKernelV2 params (nHeight prev + 1) \<or> time - GetBlockTime b \<le> snd (stakeAgeRange params)) \<and>
         VerifyScript tx coin))"
proof -
  let ?k = "prevout (vin tx ! 0)"
  obtain r0 c1 where g: "GetCoin base view ?k = (r0, c1)" by force
  note G = GetCoin_spec [OF inv, of ?k, unfolded g fst_conv snd_conv]
  have vin: "0 < length (vin tx)" if "IsCoinStake tx" using that by (simp add: IsCoinStake_def)
  show ?thesis
  proof (cases r0)
    case None
    then show ?thesis using g G by (auto simp: CheckProofOfStake_def CheckKernel_def)
  next
    case (Some coin)
    then have sp: "\<not> IsSpent coin" "utxo_of base view ?k = Some coin" using G(1) utxo_of_unspent by metis+
    show ?thesis
    proof (cases "chain_at v (coin_nHeight coin)")
      case None
      then show ?thesis using g G Some sp by (auto simp: CheckProofOfStake_def CheckKernel_def)
    next
      case p: (Some p)
      then obtain b where b: "st p = Some b" using chain by auto
      obtain ok h t where k: "CheckStakeKernelHash Hash prev params bits (of_int (GetBlockTime b)) (nValue (out coin)) ?k (of_int time) h0 t0 =
          Inr (ok, h, t)" using CheckStakeKernelHash_val by blast
      obtain h' t' where k': "CheckStakeKernelHash Hash prev params bits (of_int (GetBlockTime b)) (nValue (out coin)) ?k (of_int time)
          uint256_null uint256_null = Inr (ok, h', t')"
        using k CheckStakeKernelHash_val [of Hash prev params bits "of_int (GetBlockTime b)" "nValue (out coin)" ?k "of_int time"]
        by (metis Inr_inject Pair_inject)
      show ?thesis using g G Some sp p b k k' vin
        by (simp add: CheckProofOfStake_def CheckKernel_def Let_def not_less) auto
    qed
  qed
qed

definition example_stake :: CTransaction where
  "example_stake = example_spend\<lparr>vout := [\<lparr>nValue = 0, scriptPubKey = []\<rparr>, \<lparr>nValue = 6 * COIN, scriptPubKey = [0x51]\<rparr>]\<rparr>"

definition example_pos_params :: Params where
  "example_pos_params = main_params\<lparr>nPosKernelV2ActivationHeight := 10, stakeValueRange := (COIN, 9 * COIN), stakeAgeRange := (10, 20)\<rparr>"

lemma example_kernel:
  "\<exists>bt c'. CheckKernel (\<lambda>_. ArithToUint256 arith_zero) example_pos_params [[3] \<mapsto> CBlockIndex_default] [None, None, None, Some [3]]
     (\<lambda>_. Some example_coin) \<lparr>hashBlock = [], cacheCoins = Map.empty\<rparr> (CBlockIndex_default\<lparr>nHeight := 29\<rparr>) 0x207fffff 100 k = Inr (True, bt, c')"
proof -
  have z: "limbs_val (UintToArith256 (ArithToUint256 arith_zero)) = 0" by (simp add: UintToArith256_ArithToUint256)
  have v: "target_valid 0x207fffff" using kernel_v1_not_monotone by blast
  have k: "IsPosKernelV2 example_pos_params 30" by (simp add: IsPosKernelV2_def example_pos_params_def)
  obtain h t where "CheckStakeKernelHash (\<lambda>_. ArithToUint256 arith_zero) (CBlockIndex_default\<lparr>nHeight := 29\<rparr>) example_pos_params 0x207fffff
      (of_int (GetBlockTime CBlockIndex_default)) (nValue (out example_coin)) k (of_int 100) uint256_null uint256_null = Inr (True, h, t)"
    using CheckStakeKernelHash_val [of "\<lambda>_. ArithToUint256 arith_zero" "CBlockIndex_default\<lparr>nHeight := 29\<rparr>" example_pos_params "0x207fffff"
        "of_int (GetBlockTime CBlockIndex_default)" "nValue (out example_coin)" k "of_int 100" uint256_null uint256_null] z v k
    by (auto simp: kernel_wins_def example_coin_def COIN_def GetBlockTime_def CBlockIndex_default_def)
  moreover have "\<not> IsSpent example_coin" by (simp add: example_coin_def IsSpent_def CTxOut_IsNull_def COIN_def)
  then obtain c1 where "GetCoin (\<lambda>_. Some example_coin) \<lparr>hashBlock = [], cacheCoins = Map.empty\<rparr> k = (Some example_coin, c1)" "\<not> IsSpent example_coin"
    by (simp add: GetCoin_def FetchCoin_def Let_def)
  moreover have "chain_at [None, None, None, Some [3]] (coin_nHeight example_coin) = Some [3]" "coin_nHeight example_coin = 3"
    by (simp_all add: chain_at_def example_coin_def)
  ultimately show ?thesis by (simp add: CheckKernel_def COINBASE_MATURITY_def)
qed

theorem proof_of_stake_iff_witness:
  "\<exists>p view'. CheckProofOfStake (\<lambda>_. ArithToUint256 arith_zero) (\<lambda>_ _. True) example_pos_params [[3] \<mapsto> CBlockIndex_default] [None, None, None, Some [3]]
     (\<lambda>_. Some example_coin) \<lparr>hashBlock = [], cacheCoins = Map.empty\<rparr> (CBlockIndex_default\<lparr>nHeight := 29\<rparr>) example_stake 100 0x207fffff [] [] =
     Inr (Inr p, view')"
proof -
  let ?b = "\<lambda>_. Some example_coin" and ?c = "\<lparr>hashBlock = [], cacheCoins = Map.empty\<rparr>" and ?st = "[[3] \<mapsto> CBlockIndex_default]"
    and ?v = "[None, None, None, Some [3]]"
  have 1: "cache_inv ?b ?c" by (simp add: cache_inv_def)
  have 2: "\<forall>h p. chain_at ?v h = Some p \<longrightarrow> ?st p \<noteq> None" by (auto simp: chain_at_def nth_Cons split: if_splits nat.splits)
  have 3: "IsCoinStake example_stake"
    by (simp add: example_stake_def example_spend_def IsCoinStake_def CTxOut_IsEmpty_def COutPoint_IsNull_def)
  have 4: "utxo_of ?b ?c k = Some example_coin" for k
    by (simp add: utxo_of_def unspent_def example_coin_def IsSpent_def CTxOut_IsNull_def COIN_def)
  have 5: "chain_at ?v (coin_nHeight example_coin) = Some [3]" by (simp add: chain_at_def example_coin_def)
  have 6: "fst (stakeValueRange example_pos_params) \<le> nValue (out example_coin)" "nValue (out example_coin) \<le> snd (stakeValueRange example_pos_params)"
    "fst (stakeAgeRange example_pos_params) \<le> 100 - GetBlockTime CBlockIndex_default"
    "IsPosKernelV2 example_pos_params (nHeight (CBlockIndex_default\<lparr>nHeight := 29\<rparr>) + 1)"
    by (simp_all add: example_pos_params_def example_coin_def COIN_def GetBlockTime_def CBlockIndex_default_def IsPosKernelV2_def)
  have 7: "?st [3] = Some CBlockIndex_default" by simp
  show ?thesis
    using proof_of_stake_iff [OF 1 2, of "\<lambda>_. ArithToUint256 arith_zero" "\<lambda>_ _. True" example_pos_params "CBlockIndex_default\<lparr>nHeight := 29\<rparr>"
        example_stake 100 "0x207fffff" "[]" "[]"] example_kernel [of "prevout (vin example_stake ! 0)"] 3 4 [of "prevout (vin example_stake ! 0)"] 5 6 7
    by (metis Inr_inject Pair_inject)
qed

text \<open>\<^bold>\<open>C39\<close>: the expected time to stake is exact and saturates. \<^verbatim>\<open>ExpectedStakeTime\<close> never fails; it returns 0 when
  there is no weight or no spacing, and otherwise the network weight times the spacing divided by the own
  weight, rounded down, cut off at the largest \<^verbatim>\<open>int64_t\<close>: the product does not wrap for any arguments.\<close>

theorem ExpectedStakeTime_exact:
  assumes "spacing < 2 ^ 63"
  shows "ExpectedStakeTime spacing net w =
    Inr (if w = 0 \<or> spacing \<le> 0 then 0 else min (2 ^ 63 - 1) (uint net * spacing div uint w))"
proof (cases "w = 0 \<or> spacing \<le> 0")
  case True
  then show ?thesis by (simp add: ExpectedStakeTime_def)
next
  case False
  define a b d where "a = arith_of_u64 net" and "b = arith_of_u64 (of_int spacing)" and "d = arith_of_u64 w"
  have v: "arith_wf a" "arith_wf b" "arith_wf d" "limbs_val a = unat net" "limbs_val b = nat spacing" "limbs_val d = unat w"
    using False assms by (simp_all add: a_def b_def d_def arith_of_u64_val amount_u64)
  have "unat net * nat spacing < 2 ^ 64 * 2 ^ 64"
    using unsigned_less [of net] assms False by (intro mult_strict_mono') auto
  then have nowrap: "unat net * nat spacing mod 2 ^ 256 = unat net * nat spacing" by simp
  have "limbs_val d \<noteq> 0" using False v(6) by (simp add: unat_eq_zero)
  then obtain q where q: "arith_div (arith_mul a b) d = Inr q" "arith_wf q" "limbs_val q = unat net * nat spacing div unat w"
    using arith_div_val [of "arith_mul a b" d] v nowrap by (auto simp: arith_mul_val)
  have m: "limbs_val (arith_of_u64 (of_int INT64_MAX)) = 2 ^ 63 - 1" by (simp add: arith_of_u64_val INT64_MAX_def)
  have e: "int (unat net * nat spacing div unat w) = uint net * spacing div uint w"
    using False by (simp add: zdiv_int)
  show ?thesis
  proof (cases "2 ^ 63 - 1 < limbs_val q")
    case True
    then have "CompareTo q (arith_of_u64 (of_int INT64_MAX)) > 0" by (simp only: CompareTo_gt q(2) arith_wf_of_u64 m)
    moreover have "2 ^ 63 - 1 \<le> uint net * spacing div uint w" using True q(3) unfolding e [symmetric] by simp
    ultimately show ?thesis using False q(1)
      by (simp add: ExpectedStakeTime_def a_def b_def d_def INT64_MAX_def min_def)
  next
    case small: False
    then have "\<not> CompareTo q (arith_of_u64 (of_int INT64_MAX)) > 0" by (simp only: CompareTo_gt q(2) arith_wf_of_u64 m not_False_eq_True)
    moreover have "unat (GetLow64 q) = limbs_val q" using GetLow64_val [OF q(2)] small by simp
    then have "uint (GetLow64 q) = int (limbs_val q)" by (metis uint_nat)
    then have "sint (GetLow64 q) = int (limbs_val q)" using small by (simp add: sint_uint signed_take_bit_int_eq_self)
    moreover have "uint net * spacing div uint w \<le> 2 ^ 63 - 1" using small q(3) unfolding e [symmetric] by simp
    ultimately show ?thesis using False q e
      by (simp add: ExpectedStakeTime_def a_def b_def d_def min_def)
  qed
qed

theorem ExpectedStakeTime_exact_witness: "ExpectedStakeTime 60 (2 ^ 63) 3 = Inr (2 ^ 63 - 1)"
  using ExpectedStakeTime_exact [of 60 "2 ^ 63" 3] by simp

end
