(* ===== verification/Masternode_State.thy ===== *)
theory Masternode_State
  imports Transaction
begin

text \<open>
  The state a deterministic masternode list keeps of one masternode: \<^verbatim>\<open>src/src/evo/dmnstate.h\<close>,
  \<^verbatim>\<open>src/src/evo/dmn_types.cpp\<close>, \<^verbatim>\<open>src/src/evo/compute_descriptor.h\<close>, with its differences
  (\<^verbatim>\<open>CDeterministicMNStateDiff\<close>), and the effect on one masternode of a service commitment
  (\<^verbatim>\<open>CDeterministicMNList::ApplyServiceCommitment\<close>) and of the three provider update transactions
  (\<^verbatim>\<open>CDeterministicMNManager::RebuildListFromBlock\<close>, both in \<^verbatim>\<open>src/src/evo/deterministicmns.cpp\<close>).

  A network address is its serialized bytes, a key id its 20 bytes. An operator key is absent or a
  point together with the scheme (legacy or basic) it is encoded in; \<^verbatim>\<open>CBLSLazyWrapper::operator==\<close> compares the
  points. Bytes that are no point are not modelled. \<open>MnOther\<close> is a type number that no enumerator has.
\<close>

section \<open>Types\<close>

datatype MnType = MnRegular | MnEvo | MnCompute | MnCOUNT | MnInvalid | MnOther u16

fun MnType_value :: "MnType \<Rightarrow> u16" where
  "MnType_value MnRegular = 0"
| "MnType_value MnEvo = 1"
| "MnType_value MnCompute = 2"
| "MnType_value MnCOUNT = 3"
| "MnType_value MnInvalid = 0xffff"
| "MnType_value (MnOther n) = n"

definition IsValidMnType :: "MnType \<Rightarrow> bool" where
  "IsValidMnType t \<longleftrightarrow> MnType_value t < MnType_value MnCOUNT"

record mntype_struct =
  voting_weight :: int
  payment_weight :: int
  collat_amount :: CAmount

fun BuildMnStruct :: "Params \<Rightarrow> MnType \<Rightarrow> mntype_struct" where
  "BuildMnStruct p MnRegular = \<lparr>voting_weight = regularVoteWeight p, payment_weight = regularPaymentWeight p, collat_amount = regularMnCollateral p\<rparr>"
| "BuildMnStruct p MnEvo = \<lparr>voting_weight = evoVoteWeight p, payment_weight = evoPaymentWeight p, collat_amount = evoMnCollateral p\<rparr>"
| "BuildMnStruct p MnCompute = \<lparr>voting_weight = computeVoteWeight p, payment_weight = computePaymentWeight p, collat_amount = computeMnCollateral p\<rparr>"
| "BuildMnStruct p MnCOUNT = \<lparr>voting_weight = 0, payment_weight = 0, collat_amount = MAX_MONEY\<rparr>"
| "BuildMnStruct p MnInvalid = \<lparr>voting_weight = 0, payment_weight = 0, collat_amount = MAX_MONEY\<rparr>"

definition IsCollateralAmount :: "Params \<Rightarrow> CAmount \<Rightarrow> bool" where
  "IsCollateralAmount p amount \<longleftrightarrow>
     amount = collat_amount (BuildMnStruct p MnRegular) \<or> amount = collat_amount (BuildMnStruct p MnCompute)"

definition GetMnType :: "Params \<Rightarrow> MnType \<Rightarrow> mntype_struct" where
  "GetMnType p t =
     (case t of MnRegular \<Rightarrow> BuildMnStruct p MnRegular
      | MnEvo \<Rightarrow> BuildMnStruct p MnEvo
      | MnCompute \<Rightarrow> BuildMnStruct p MnCompute
      | _ \<Rightarrow> BuildMnStruct p MnInvalid)"

definition IsComputeTypeActive :: "int \<Rightarrow> Params \<Rightarrow> bool" where
  "IsComputeTypeActive height p \<longleftrightarrow> height \<ge> nComputeNodeActivationHeight p"

record CComputeServiceDescriptor =
  cd_nVersion :: u16
  vchOracleKey :: "byte list"
  vchBlsReserved :: "byte list"
  endpoint :: "byte list"
  certHash :: uint256
  certExpiryHeight :: int
  capabilityBits :: u32

definition ComputeDescriptor_default :: CComputeServiceDescriptor where
  "ComputeDescriptor_default =
     \<lparr>cd_nVersion = 1, vchOracleKey = [], vchBlsReserved = [], endpoint = [], certHash = uint256_null, certExpiryHeight = 0, capabilityBits = 0\<rparr>"

definition IsCertValidAt :: "CComputeServiceDescriptor \<Rightarrow> int \<Rightarrow> bool" where
  "IsCertValidAt d height \<longleftrightarrow> \<not> uint256_IsNull (certHash d) \<and> certExpiryHeight d > height"

type_synonym CKeyID = "byte list"
type_synonym CService = "byte list"

definition CKeyID_null :: CKeyID where "CKeyID_null = replicate 20 0"
definition CService_null :: CService where "CService_null = replicate 18 0"

datatype CBLSLazyPublicKey = NoKey | OpKey (op_point: "byte list") (op_legacy: bool)

fun bls_eq :: "CBLSLazyPublicKey \<Rightarrow> CBLSLazyPublicKey \<Rightarrow> bool" where
  "bls_eq NoKey NoKey = True"
| "bls_eq (OpKey p _) (OpKey q _) = (p = q)"
| "bls_eq _ _ = False"

section \<open>The state of a masternode\<close>

record CDeterministicMNState =
  nPoSeBanHeight :: int
  st_nVersion :: int
  nRegisteredHeight :: int
  nLastPaidHeight :: int
  nConsecutivePayments :: int
  nPoSePenalty :: int
  nPoSeRevivedHeight :: int
  nRevocationReason :: u16
  confirmedHash :: uint256
  confirmedHashWithProRegTxHash :: uint256
  keyIDOwner :: CKeyID
  pubKeyOperator :: CBLSLazyPublicKey
  keyIDVoting :: CKeyID
  addr :: CService
  scriptPayout :: CScript
  scriptOperatorPayout :: CScript
  platformNodeID :: "byte list"
  platformP2PPort :: u16
  platformHTTPPort :: u16
  computeDescriptor :: CComputeServiceDescriptor
  nMissedEpochs :: u32
  nLastServiceEpoch :: u32
  fRewardSuspended :: bool
  nDSLBanHeight :: int

definition LEGACY_BLS_VERSION :: int where "LEGACY_BLS_VERSION = 1"

definition MNState_default :: CDeterministicMNState where
  "MNState_default =
     \<lparr>nPoSeBanHeight = -1, st_nVersion = LEGACY_BLS_VERSION, nRegisteredHeight = -1, nLastPaidHeight = 0, nConsecutivePayments = 0,
      nPoSePenalty = 0, nPoSeRevivedHeight = -1, nRevocationReason = 0, confirmedHash = uint256_null,
      confirmedHashWithProRegTxHash = uint256_null, keyIDOwner = CKeyID_null, pubKeyOperator = NoKey, keyIDVoting = CKeyID_null,
      addr = CService_null, scriptPayout = [], scriptOperatorPayout = [], platformNodeID = replicate 20 0, platformP2PPort = 0,
      platformHTTPPort = 0, computeDescriptor = ComputeDescriptor_default, nMissedEpochs = 0, nLastServiceEpoch = 0,
      fRewardSuspended = False, nDSLBanHeight = -1\<rparr>"

definition IsBanned :: "CDeterministicMNState \<Rightarrow> bool" where
  "IsBanned st \<longleftrightarrow> nPoSeBanHeight st \<noteq> -1 \<or> nDSLBanHeight st \<noteq> -1"

definition ResetOperatorFields :: "CDeterministicMNState \<Rightarrow> CDeterministicMNState" where
  "ResetOperatorFields st =
     st\<lparr>st_nVersion := LEGACY_BLS_VERSION, pubKeyOperator := NoKey, addr := CService_null, scriptOperatorPayout := [],
        nRevocationReason := 0, platformNodeID := replicate 20 0\<rparr>"

definition BanIfNotBanned :: "CDeterministicMNState \<Rightarrow> int \<Rightarrow> CDeterministicMNState" where
  "BanIfNotBanned st height = (if \<not> IsBanned st then st\<lparr>nPoSeBanHeight := height\<rparr> else st)"

definition Revive :: "CDeterministicMNState \<Rightarrow> int \<Rightarrow> CDeterministicMNState" where
  "Revive st nRevivedHeight = st\<lparr>nPoSePenalty := 0, nPoSeBanHeight := -1, nPoSeRevivedHeight := nRevivedHeight\<rparr>"

definition UpdateConfirmedHash :: "(byte list \<Rightarrow> uint256) \<Rightarrow> CDeterministicMNState \<Rightarrow> uint256 \<Rightarrow> uint256 \<Rightarrow> CDeterministicMNState" where
  "UpdateConfirmedHash sha256 st protx confirmed =
     st\<lparr>confirmedHash := confirmed, confirmedHashWithProRegTxHash := sha256 (protx @ confirmed)\<rparr>"

section \<open>Differences of states\<close>

text \<open>A line of the macro \<^verbatim>\<open>DMN_STATE_DIFF_ALL_FIELDS\<close>: the flag of the field, whether the field of two states
  differs, and the assignment of the field.\<close>

type_synonym diff_line = "u32 \<times> (CDeterministicMNState \<Rightarrow> CDeterministicMNState \<Rightarrow> bool) \<times> (CDeterministicMNState \<Rightarrow> CDeterministicMNState \<Rightarrow> CDeterministicMNState)"

definition diff_line_of ::
  "u32 \<Rightarrow> (CDeterministicMNState \<Rightarrow> 'a) \<Rightarrow> (('a \<Rightarrow> 'a) \<Rightarrow> CDeterministicMNState \<Rightarrow> CDeterministicMNState) \<Rightarrow> diff_line" where
  "diff_line_of flag f f_update = (flag, \<lambda>a b. f a \<noteq> f b, \<lambda>target src. f_update (\<lambda>_. f src) target)"

definition Field_pubKeyOperator :: u32 where "Field_pubKeyOperator = 0x200"
definition Field_nVersion :: u32 where "Field_nVersion = 0x40000"

definition diff_line_pubKeyOperator :: diff_line where
  "diff_line_pubKeyOperator =
     (Field_pubKeyOperator, \<lambda>a b. \<not> bls_eq (pubKeyOperator a) (pubKeyOperator b), \<lambda>target src. target\<lparr>pubKeyOperator := pubKeyOperator src\<rparr>)"

definition DMN_STATE_DIFF_ALL_FIELDS :: "diff_line list" where
  "DMN_STATE_DIFF_ALL_FIELDS =
     [diff_line_of 0x1 nRegisteredHeight nRegisteredHeight_update,
      diff_line_of 0x2 nLastPaidHeight nLastPaidHeight_update,
      diff_line_of 0x4 nPoSePenalty nPoSePenalty_update,
      diff_line_of 0x8 nPoSeRevivedHeight nPoSeRevivedHeight_update,
      diff_line_of 0x10 nPoSeBanHeight nPoSeBanHeight_update,
      diff_line_of 0x20 nRevocationReason nRevocationReason_update,
      diff_line_of 0x40 confirmedHash confirmedHash_update,
      diff_line_of 0x80 confirmedHashWithProRegTxHash confirmedHashWithProRegTxHash_update,
      diff_line_of 0x100 keyIDOwner keyIDOwner_update,
      diff_line_pubKeyOperator,
      diff_line_of 0x400 keyIDVoting keyIDVoting_update,
      diff_line_of 0x800 addr addr_update,
      diff_line_of 0x1000 scriptPayout scriptPayout_update,
      diff_line_of 0x2000 scriptOperatorPayout scriptOperatorPayout_update,
      diff_line_of 0x4000 nConsecutivePayments nConsecutivePayments_update,
      diff_line_of 0x8000 platformNodeID platformNodeID_update,
      diff_line_of 0x10000 platformP2PPort platformP2PPort_update,
      diff_line_of 0x20000 platformHTTPPort platformHTTPPort_update,
      diff_line_of Field_nVersion st_nVersion st_nVersion_update,
      diff_line_of 0x80000 computeDescriptor computeDescriptor_update,
      diff_line_of 0x100000 nMissedEpochs nMissedEpochs_update,
      diff_line_of 0x200000 nLastServiceEpoch nLastServiceEpoch_update,
      diff_line_of 0x400000 fRewardSuspended fRewardSuspended_update,
      diff_line_of 0x800000 nDSLBanHeight nDSLBanHeight_update]"

record CDeterministicMNStateDiff =
  diff_fields :: u32
  diff_state :: CDeterministicMNState

definition diff_step :: "CDeterministicMNState \<Rightarrow> CDeterministicMNState \<Rightarrow> CDeterministicMNStateDiff \<Rightarrow> diff_line \<Rightarrow> CDeterministicMNStateDiff" where
  "diff_step a b d line =
     (case line of (flag, differs, assign) \<Rightarrow>
        if differs a b then \<lparr>diff_fields = diff_fields d OR flag, diff_state = assign (diff_state d) b\<rparr> else d)"

text \<open>The constructor from two states. \<open>key_hash\<close> is \<^verbatim>\<open>GetHash\<close> of an operator key, a hash of its encoding.\<close>

definition CDeterministicMNStateDiff_of ::
  "(CBLSLazyPublicKey \<Rightarrow> uint256) \<Rightarrow> CDeterministicMNState \<Rightarrow> CDeterministicMNState \<Rightarrow> CDeterministicMNStateDiff" where
  "CDeterministicMNStateDiff_of key_hash a b =
     (let d = foldl (diff_step a b) \<lparr>diff_fields = 0, diff_state = MNState_default\<rparr> DMN_STATE_DIFF_ALL_FIELDS;
          d = (if diff_fields d AND Field_pubKeyOperator = 0 \<and> key_hash (pubKeyOperator a) \<noteq> key_hash (pubKeyOperator b)
               then \<lparr>diff_fields = diff_fields d OR Field_pubKeyOperator, diff_state = (diff_state d)\<lparr>pubKeyOperator := pubKeyOperator b\<rparr>\<rparr>
               else d)
      in if diff_fields d AND Field_pubKeyOperator \<noteq> 0
         then \<lparr>diff_fields = diff_fields d OR Field_nVersion, diff_state = (diff_state d)\<lparr>st_nVersion := st_nVersion b\<rparr>\<rparr>
         else d)"

definition apply_step :: "CDeterministicMNStateDiff \<Rightarrow> CDeterministicMNState \<Rightarrow> diff_line \<Rightarrow> CDeterministicMNState" where
  "apply_step d target line =
     (case line of (flag, differs, assign) \<Rightarrow> if diff_fields d AND flag \<noteq> 0 then assign target (diff_state d) else target)"

definition ApplyToState :: "CDeterministicMNStateDiff \<Rightarrow> CDeterministicMNState \<Rightarrow> CDeterministicMNState" where
  "ApplyToState d target = foldl (apply_step d) target DMN_STATE_DIFF_ALL_FIELDS"

subsection \<open>Differences restore the state\<close>

lemma bls_eq_iff: "bls_eq x y \<longleftrightarrow> (x = NoKey \<longleftrightarrow> y = NoKey) \<and> (x \<noteq> NoKey \<longrightarrow> op_point x = op_point y)"
  by (cases "(x, y)" rule: bls_eq.cases) auto

lemma bls_eq_refl [simp]: "bls_eq x x"
  by (simp add: bls_eq_iff)

text \<open>One line of the macro leaves every other field alone and sets its own; stated per field so that the simplifier works
  from the outside in.\<close>

lemma diff_other:
  "(\<And>s. get (f_update (\<lambda>_. f b) s) = get s) \<Longrightarrow> get (diff_state (diff_step a b d (diff_line_of m f f_update))) = get (diff_state d)"
  by (simp add: diff_step_def diff_line_of_def)

lemma diff_other_key:
  "(\<And>s. get (s\<lparr>pubKeyOperator := pubKeyOperator b\<rparr>) = get s) \<Longrightarrow>
   get (diff_state (diff_step a b d diff_line_pubKeyOperator)) = get (diff_state d)"
  by (simp add: diff_step_def diff_line_pubKeyOperator_def)

lemma diff_same:
  "(\<And>s. get (get_update (\<lambda>_. get b) s) = get b) \<Longrightarrow> get a \<noteq> get b \<Longrightarrow>
   get (diff_state (diff_step a b d (diff_line_of m get get_update))) = get b"
  by (simp add: diff_step_def diff_line_of_def)

lemma diff_same_key:
  "\<not> bls_eq (pubKeyOperator a) (pubKeyOperator b) \<Longrightarrow>
   pubKeyOperator (diff_state (diff_step a b d diff_line_pubKeyOperator)) = pubKeyOperator b"
  by (simp add: diff_step_def diff_line_pubKeyOperator_def)

lemma apply_other:
  "(\<And>s. get (f_update (\<lambda>_. f (diff_state d)) s) = get s) \<Longrightarrow> get (apply_step d t (diff_line_of m f f_update)) = get t"
  by (simp add: apply_step_def diff_line_of_def)

lemma apply_other_key:
  "(\<And>s. get (s\<lparr>pubKeyOperator := pubKeyOperator (diff_state d)\<rparr>) = get s) \<Longrightarrow> get (apply_step d t diff_line_pubKeyOperator) = get t"
  by (simp add: apply_step_def diff_line_pubKeyOperator_def)

lemma apply_same:
  "(\<And>s. get (get_update (\<lambda>_. get (diff_state d)) s) = get (diff_state d)) \<Longrightarrow>
   get (apply_step d t (diff_line_of m get get_update)) = (if diff_fields d AND m \<noteq> 0 then get (diff_state d) else get t)"
  by (simp add: apply_step_def diff_line_of_def)

lemma apply_same_key:
  "pubKeyOperator (apply_step d t diff_line_pubKeyOperator) =
     (if diff_fields d AND Field_pubKeyOperator \<noteq> 0 then pubKeyOperator (diff_state d) else pubKeyOperator t)"
  by (simp add: apply_step_def diff_line_pubKeyOperator_def)

lemmas diff_other_fields =
  diff_other [where get = nRegisteredHeight] diff_other [where get = nLastPaidHeight] diff_other [where get = nPoSePenalty]
  diff_other [where get = nPoSeRevivedHeight] diff_other [where get = nPoSeBanHeight] diff_other [where get = nRevocationReason]
  diff_other [where get = confirmedHash] diff_other [where get = confirmedHashWithProRegTxHash] diff_other [where get = keyIDOwner]
  diff_other [where get = pubKeyOperator] diff_other [where get = keyIDVoting] diff_other [where get = addr]
  diff_other [where get = scriptPayout] diff_other [where get = scriptOperatorPayout] diff_other [where get = nConsecutivePayments]
  diff_other [where get = platformNodeID] diff_other [where get = platformP2PPort] diff_other [where get = platformHTTPPort]
  diff_other [where get = st_nVersion] diff_other [where get = computeDescriptor] diff_other [where get = nMissedEpochs]
  diff_other [where get = nLastServiceEpoch] diff_other [where get = fRewardSuspended] diff_other [where get = nDSLBanHeight]
  diff_other_key [where get = nRegisteredHeight] diff_other_key [where get = nLastPaidHeight] diff_other_key [where get = nPoSePenalty]
  diff_other_key [where get = nPoSeRevivedHeight] diff_other_key [where get = nPoSeBanHeight] diff_other_key [where get = nRevocationReason]
  diff_other_key [where get = confirmedHash] diff_other_key [where get = confirmedHashWithProRegTxHash]
  diff_other_key [where get = keyIDOwner] diff_other_key [where get = pubKeyOperator] diff_other_key [where get = keyIDVoting]
  diff_other_key [where get = addr] diff_other_key [where get = scriptPayout] diff_other_key [where get = scriptOperatorPayout]
  diff_other_key [where get = nConsecutivePayments] diff_other_key [where get = platformNodeID] diff_other_key [where get = platformP2PPort]
  diff_other_key [where get = platformHTTPPort] diff_other_key [where get = st_nVersion] diff_other_key [where get = computeDescriptor]
  diff_other_key [where get = nMissedEpochs] diff_other_key [where get = nLastServiceEpoch] diff_other_key [where get = fRewardSuspended]
  diff_other_key [where get = nDSLBanHeight]

lemmas diff_same_fields =
  diff_same [where get = nRegisteredHeight] diff_same [where get = nLastPaidHeight] diff_same [where get = nPoSePenalty]
  diff_same [where get = nPoSeRevivedHeight] diff_same [where get = nPoSeBanHeight] diff_same [where get = nRevocationReason]
  diff_same [where get = confirmedHash] diff_same [where get = confirmedHashWithProRegTxHash] diff_same [where get = keyIDOwner]
  diff_same [where get = pubKeyOperator] diff_same [where get = keyIDVoting] diff_same [where get = addr]
  diff_same [where get = scriptPayout] diff_same [where get = scriptOperatorPayout] diff_same [where get = nConsecutivePayments]
  diff_same [where get = platformNodeID] diff_same [where get = platformP2PPort] diff_same [where get = platformHTTPPort]
  diff_same [where get = st_nVersion] diff_same [where get = computeDescriptor] diff_same [where get = nMissedEpochs]
  diff_same [where get = nLastServiceEpoch] diff_same [where get = fRewardSuspended] diff_same [where get = nDSLBanHeight] diff_same_key

lemmas apply_fields =
  apply_other [where get = nRegisteredHeight] apply_other [where get = nLastPaidHeight] apply_other [where get = nPoSePenalty]
  apply_other [where get = nPoSeRevivedHeight] apply_other [where get = nPoSeBanHeight] apply_other [where get = nRevocationReason]
  apply_other [where get = confirmedHash] apply_other [where get = confirmedHashWithProRegTxHash] apply_other [where get = keyIDOwner]
  apply_other [where get = pubKeyOperator] apply_other [where get = keyIDVoting] apply_other [where get = addr]
  apply_other [where get = scriptPayout] apply_other [where get = scriptOperatorPayout] apply_other [where get = nConsecutivePayments]
  apply_other [where get = platformNodeID] apply_other [where get = platformP2PPort] apply_other [where get = platformHTTPPort]
  apply_other [where get = st_nVersion] apply_other [where get = computeDescriptor] apply_other [where get = nMissedEpochs]
  apply_other [where get = nLastServiceEpoch] apply_other [where get = fRewardSuspended] apply_other [where get = nDSLBanHeight]
  apply_other_key [where get = nRegisteredHeight] apply_other_key [where get = nLastPaidHeight] apply_other_key [where get = nPoSePenalty]
  apply_other_key [where get = nPoSeRevivedHeight] apply_other_key [where get = nPoSeBanHeight]
  apply_other_key [where get = nRevocationReason] apply_other_key [where get = confirmedHash]
  apply_other_key [where get = confirmedHashWithProRegTxHash] apply_other_key [where get = keyIDOwner]
  apply_other_key [where get = pubKeyOperator] apply_other_key [where get = keyIDVoting] apply_other_key [where get = addr]
  apply_other_key [where get = scriptPayout] apply_other_key [where get = scriptOperatorPayout]
  apply_other_key [where get = nConsecutivePayments] apply_other_key [where get = platformNodeID]
  apply_other_key [where get = platformP2PPort] apply_other_key [where get = platformHTTPPort] apply_other_key [where get = st_nVersion]
  apply_other_key [where get = computeDescriptor] apply_other_key [where get = nMissedEpochs]
  apply_other_key [where get = nLastServiceEpoch] apply_other_key [where get = fRewardSuspended] apply_other_key [where get = nDSLBanHeight]
  apply_same [where get = nRegisteredHeight] apply_same [where get = nLastPaidHeight] apply_same [where get = nPoSePenalty]
  apply_same [where get = nPoSeRevivedHeight] apply_same [where get = nPoSeBanHeight] apply_same [where get = nRevocationReason]
  apply_same [where get = confirmedHash] apply_same [where get = confirmedHashWithProRegTxHash] apply_same [where get = keyIDOwner]
  apply_same [where get = pubKeyOperator] apply_same [where get = keyIDVoting] apply_same [where get = addr]
  apply_same [where get = scriptPayout] apply_same [where get = scriptOperatorPayout] apply_same [where get = nConsecutivePayments]
  apply_same [where get = platformNodeID] apply_same [where get = platformP2PPort] apply_same [where get = platformHTTPPort]
  apply_same [where get = st_nVersion] apply_same [where get = computeDescriptor] apply_same [where get = nMissedEpochs]
  apply_same [where get = nLastServiceEpoch] apply_same [where get = fRewardSuspended] apply_same [where get = nDSLBanHeight] apply_same_key

text \<open>The flags: one bit per field.\<close>

lemma diff_fields_step: "diff_fields (diff_step a b d (m, differs, assign)) = diff_fields d OR (if differs a b then m else 0)"
  by (simp add: diff_step_def)

lemma flag_zero:
  "(if c then x else 0) AND m = 0 \<longleftrightarrow> x AND m = (0 :: u32) \<or> \<not> c"
  "(x OR y) AND m = 0 \<longleftrightarrow> x AND m = 0 \<and> y AND m = (0 :: u32)"
  by (simp, simp add: bit.conj_disj_distrib2 or_eq_0_iff)

lemma diff_line_fields:
  "diff_fields (diff_step a b d (diff_line_of m f f_update)) = diff_fields d OR (if f a \<noteq> f b then m else 0)"
  "diff_fields (diff_step a b d diff_line_pubKeyOperator) =
     diff_fields d OR (if \<not> bls_eq (pubKeyOperator a) (pubKeyOperator b) then Field_pubKeyOperator else 0)"
  by (simp_all add: diff_step_def diff_line_of_def diff_line_pubKeyOperator_def)

definition macro_diff :: "CDeterministicMNState \<Rightarrow> CDeterministicMNState \<Rightarrow> CDeterministicMNStateDiff" where
  "macro_diff a b = foldl (diff_step a b) \<lparr>diff_fields = 0, diff_state = MNState_default\<rparr> DMN_STATE_DIFF_ALL_FIELDS"

lemma macro_diff_flags:
  "list_all (\<lambda>(m, differs, assign). diff_fields (macro_diff a b) AND m = 0 \<longleftrightarrow> \<not> differs a b) DMN_STATE_DIFF_ALL_FIELDS"
  unfolding macro_diff_def DMN_STATE_DIFF_ALL_FIELDS_def
  by (simp add: diff_line_fields flag_zero split del: if_split)
    (simp add: diff_line_of_def diff_line_pubKeyOperator_def Field_pubKeyOperator_def Field_nVersion_def)

lemma diff_line_case:
  "(case diff_line_of m f f_update of (m, differs, assign) \<Rightarrow> P m differs assign) =
     P m (\<lambda>a b. f a \<noteq> f b) (\<lambda>target src. f_update (\<lambda>_. f src) target)"
  "(case diff_line_pubKeyOperator of (m, differs, assign) \<Rightarrow> P m differs assign) =
     P Field_pubKeyOperator (\<lambda>a b. \<not> bls_eq (pubKeyOperator a) (pubKeyOperator b)) (\<lambda>target src. target\<lparr>pubKeyOperator := pubKeyOperator src\<rparr>)"
  by (simp_all add: diff_line_of_def diff_line_pubKeyOperator_def)

lemma macro_diff_state:
  "list_all (\<lambda>(m, differs, assign). differs a b \<longrightarrow> (\<forall>t. assign t (diff_state (macro_diff a b)) = assign t b)) DMN_STATE_DIFF_ALL_FIELDS"
  unfolding macro_diff_def DMN_STATE_DIFF_ALL_FIELDS_def list.pred_inject diff_line_case foldl.simps
  by (simp add: diff_other_fields diff_same_fields)

text \<open>The whole difference: the macro plus the flags for a key that changed in point or encoding.\<close>

definition key_changed :: "(CBLSLazyPublicKey \<Rightarrow> uint256) \<Rightarrow> CDeterministicMNState \<Rightarrow> CDeterministicMNState \<Rightarrow> bool" where
  "key_changed key_hash a b \<longleftrightarrow>
     \<not> bls_eq (pubKeyOperator a) (pubKeyOperator b) \<or> key_hash (pubKeyOperator a) \<noteq> key_hash (pubKeyOperator b)"

lemma key_line:
  "diff_fields (macro_diff a b) AND Field_pubKeyOperator = 0 \<longleftrightarrow> bls_eq (pubKeyOperator a) (pubKeyOperator b)"
  "\<not> bls_eq (pubKeyOperator a) (pubKeyOperator b) \<Longrightarrow> pubKeyOperator (diff_state (macro_diff a b)) = pubKeyOperator b"
proof -
  have l: "diff_line_pubKeyOperator \<in> set DMN_STATE_DIFF_ALL_FIELDS" by (simp add: DMN_STATE_DIFF_ALL_FIELDS_def)
  show "diff_fields (macro_diff a b) AND Field_pubKeyOperator = 0 \<longleftrightarrow> bls_eq (pubKeyOperator a) (pubKeyOperator b)"
    using bspec [OF macro_diff_flags [of a b, unfolded list_all_iff] l] unfolding diff_line_case by simp
  assume "\<not> bls_eq (pubKeyOperator a) (pubKeyOperator b)"
  then have "MNState_default\<lparr>pubKeyOperator := pubKeyOperator (diff_state (macro_diff a b))\<rparr> = MNState_default\<lparr>pubKeyOperator := pubKeyOperator b\<rparr>"
    using bspec [OF macro_diff_state [of a b, unfolded list_all_iff] l] unfolding diff_line_case by blast
  from arg_cong [OF this, of pubKeyOperator] show "pubKeyOperator (diff_state (macro_diff a b)) = pubKeyOperator b" by simp
qed

lemma diff_unchanged: "\<not> key_changed key_hash a b \<Longrightarrow> CDeterministicMNStateDiff_of key_hash a b = macro_diff a b"
  by (simp add: CDeterministicMNStateDiff_of_def key_changed_def Let_def macro_diff_def [symmetric] key_line(1))

lemma diff_changed:
  assumes "key_changed key_hash a b"
  shows "diff_fields (CDeterministicMNStateDiff_of key_hash a b) AND m = 0 \<longleftrightarrow>
      diff_fields (macro_diff a b) AND m = 0 \<and> (\<not> bls_eq (pubKeyOperator a) (pubKeyOperator b) \<or> Field_pubKeyOperator AND m = 0) \<and> Field_nVersion AND m = 0"
    "diff_state (CDeterministicMNStateDiff_of key_hash a b) =
      (diff_state (macro_diff a b))\<lparr>pubKeyOperator := pubKeyOperator b, st_nVersion := st_nVersion b\<rparr>"
proof -
  define M where "M = macro_diff a b"
  have o: "(x OR Field_pubKeyOperator) AND Field_pubKeyOperator \<noteq> 0" for x by (simp add: flag_zero Field_pubKeyOperator_def)
  have D: "CDeterministicMNStateDiff_of key_hash a b =
      (let d = (if bls_eq (pubKeyOperator a) (pubKeyOperator b)
         then \<lparr>diff_fields = diff_fields M OR Field_pubKeyOperator, diff_state = (diff_state M)\<lparr>pubKeyOperator := pubKeyOperator b\<rparr>\<rparr> else M)
       in \<lparr>diff_fields = diff_fields d OR Field_nVersion, diff_state = (diff_state d)\<lparr>st_nVersion := st_nVersion b\<rparr>\<rparr>)"
    using assms o key_line(1) [of a b] by (auto simp: CDeterministicMNStateDiff_of_def key_changed_def Let_def macro_diff_def [symmetric] M_def)
  show "diff_fields (CDeterministicMNStateDiff_of key_hash a b) AND m = 0 \<longleftrightarrow>
      diff_fields (macro_diff a b) AND m = 0 \<and> (\<not> bls_eq (pubKeyOperator a) (pubKeyOperator b) \<or> Field_pubKeyOperator AND m = 0) \<and> Field_nVersion AND m = 0"
    by (auto simp: D Let_def flag_zero M_def)
  have "(diff_state M)\<lparr>pubKeyOperator := pubKeyOperator b\<rparr> = diff_state M" if "\<not> bls_eq (pubKeyOperator a) (pubKeyOperator b)"
    using key_line(2) [OF that] by (simp add: M_def [symmetric])
  then show "diff_state (CDeterministicMNStateDiff_of key_hash a b) =
      (diff_state (macro_diff a b))\<lparr>pubKeyOperator := pubKeyOperator b, st_nVersion := st_nVersion b\<rparr>"
    by (simp add: D Let_def M_def [symmetric])
qed

lemma diff_assigns:
  "list_all (\<lambda>(m, differs, assign). diff_fields (CDeterministicMNStateDiff_of key_hash a b) AND m \<noteq> 0 \<longrightarrow>
     (\<forall>t. assign t (diff_state (CDeterministicMNStateDiff_of key_hash a b)) = assign t b)) DMN_STATE_DIFF_ALL_FIELDS"
proof (cases "key_changed key_hash a b")
  case False
  then show ?thesis
    using macro_diff_flags [of a b] macro_diff_state [of a b] by (fastforce simp: diff_unchanged list_all_iff)
next
  case True
  show ?thesis
    using macro_diff_flags [of a b] macro_diff_state [of a b]
    unfolding diff_changed [OF True] DMN_STATE_DIFF_ALL_FIELDS_def list.pred_inject diff_line_case
    by (simp add: Field_pubKeyOperator_def Field_nVersion_def)
qed

lemma ApplyToState_target:
  "ApplyToState (CDeterministicMNStateDiff_of key_hash a b) a =
   ApplyToState \<lparr>diff_fields = diff_fields (CDeterministicMNStateDiff_of key_hash a b), diff_state = b\<rparr> a"
  unfolding ApplyToState_def
proof (rule foldl_cong)
  fix t line
  assume "line \<in> set DMN_STATE_DIFF_ALL_FIELDS"
  then show "apply_step (CDeterministicMNStateDiff_of key_hash a b) t line =
      apply_step \<lparr>diff_fields = diff_fields (CDeterministicMNStateDiff_of key_hash a b), diff_state = b\<rparr> t line"
    using diff_assigns [of key_hash a b] by (auto simp: list_all_iff apply_step_def)
qed simp_all

text \<open>A field whose flag is not set is equal in both states.\<close>

lemma diff_flags_sound:
  assumes "inj key_hash"
  shows "list_all (\<lambda>(m, differs, assign). diff_fields (CDeterministicMNStateDiff_of key_hash a b) AND m = 0 \<longrightarrow> \<not> differs a b) DMN_STATE_DIFF_ALL_FIELDS"
    "diff_fields (CDeterministicMNStateDiff_of key_hash a b) AND Field_pubKeyOperator = 0 \<Longrightarrow> pubKeyOperator a = pubKeyOperator b"
proof -
  show "list_all (\<lambda>(m, differs, assign). diff_fields (CDeterministicMNStateDiff_of key_hash a b) AND m = 0 \<longrightarrow> \<not> differs a b) DMN_STATE_DIFF_ALL_FIELDS"
    using macro_diff_flags [of a b] diff_changed(1) [of key_hash a b] diff_unchanged [of key_hash a b]
    by (cases "key_changed key_hash a b") (auto simp: list_all_iff)
  assume z: "diff_fields (CDeterministicMNStateDiff_of key_hash a b) AND Field_pubKeyOperator = 0"
  have "\<not> key_changed key_hash a b"
    using z diff_changed(1) [of key_hash a b Field_pubKeyOperator] key_line(1) [of a b] by (auto simp: Field_pubKeyOperator_def)
  then show "pubKeyOperator a = pubKeyOperator b" using assms by (auto simp: key_changed_def dest: injD)
qed

lemma state_diff_restores:
  assumes "inj key_hash"
  shows "ApplyToState (CDeterministicMNStateDiff_of key_hash a b) a = b"
  using diff_flags_sound [OF assms, of a b]
  unfolding ApplyToState_target unfolding ApplyToState_def DMN_STATE_DIFF_ALL_FIELDS_def list.pred_inject diff_line_case foldl.simps
  by (intro CDeterministicMNState.equality) (simp_all add: apply_fields)

lemma state_diff_empty:
  assumes "inj key_hash"
  shows "diff_fields (CDeterministicMNStateDiff_of key_hash a b) = 0 \<longleftrightarrow> a = b"
proof
  assume z: "diff_fields (CDeterministicMNStateDiff_of key_hash a b) = 0"
  have "foldl (apply_step (CDeterministicMNStateDiff_of key_hash a b)) t ls = t" for t ls
    by (induction ls arbitrary: t) (auto simp: apply_step_def z)
  then show "a = b" using state_diff_restores [OF assms, of a b] by (simp add: ApplyToState_def)
next
  assume "a = b"
  have "foldl (diff_step a a) d DMN_STATE_DIFF_ALL_FIELDS = d" for d
    by (simp add: DMN_STATE_DIFF_ALL_FIELDS_def diff_step_def diff_line_case)
  then show "diff_fields (CDeterministicMNStateDiff_of key_hash a b) = 0"
    using \<open>a = b\<close> by (simp add: diff_unchanged key_changed_def macro_diff_def)
qed

section \<open>What happens to a masternode\<close>

text \<open>\<^verbatim>\<open>CPoSeServiceCommitment\<close>, the signed outcome of an epoch: \<^verbatim>\<open>src/src/evo/pose_service.h\<close>.\<close>

record CPoSeServiceCommitment =
  sc_nVersion :: u16
  sc_nEpoch :: u32
  sc_epochBlockHash :: uint256
  sc_llmqType :: LLMQType
  sc_quorumHash :: uint256
  sc_missed :: "bool list"
  sc_observed :: "bool list"
  sc_quorumSig :: "byte list"

definition LEGACY_VERSION :: u16 where "LEGACY_VERSION = 1"
definition OBSERVED_VERSION :: u16 where "OBSERVED_VERSION = 2"

definition CountMissed :: "CPoSeServiceCommitment \<Rightarrow> int" where
  "CountMissed c = int (length (filter id (sc_missed c)))"

definition IsObserved :: "CPoSeServiceCommitment \<Rightarrow> nat \<Rightarrow> bool" where
  "IsObserved c i \<longleftrightarrow> sc_nVersion c < OBSERVED_VERSION \<or> (i < length (sc_observed c) \<and> sc_observed c ! i)"

definition CountUnobserved :: "CPoSeServiceCommitment \<Rightarrow> int" where
  "CountUnobserved c = (if sc_nVersion c < OBSERVED_VERSION then 0 else int (length (filter Not (sc_observed c))))"

text \<open>The body of the loop of \<^verbatim>\<open>ApplyServiceCommitment\<close>: the new state of the masternode at index \<open>i\<close>.\<close>

definition service_state ::
  "CPoSeServiceCommitment \<Rightarrow> nat \<Rightarrow> bool \<Rightarrow> bool \<Rightarrow> int \<Rightarrow> Params \<Rightarrow> CDeterministicMNState \<Rightarrow> CDeterministicMNState" where
  "service_state c i massOutage enforce height params st =
     (let newState = st\<lparr>nLastServiceEpoch := sc_nEpoch c\<rparr> in
      if massOutage then newState
      else if \<not> IsObserved c i then newState
      else if \<not> sc_missed c ! i then
        let newState = newState\<lparr>nMissedEpochs := 0\<rparr> in
        if enforce then
          let newState = newState\<lparr>fRewardSuspended := False\<rparr> in
          if nDSLBanHeight newState \<noteq> -1 then newState\<lparr>nDSLBanHeight := -1\<rparr> else newState
        else newState
      else
        let newState = newState\<lparr>nMissedEpochs := nMissedEpochs newState + 1\<rparr> in
        if enforce then
          let newState = (if sint (nMissedEpochs newState) \<ge> nDSLSuspendEpochs params then newState\<lparr>fRewardSuspended := True\<rparr> else newState) in
          if sint (nMissedEpochs newState) \<ge> nDSLBanEpochs params \<and> nDSLBanHeight newState = -1
          then newState\<lparr>nDSLBanHeight := height\<rparr> else newState
        else newState)"

text \<open>The three provider update transactions of \<^verbatim>\<open>RebuildListFromBlock\<close>, on the state of the masternode they name.\<close>

record CProUpServTx =
  us_nVersion :: u16
  us_nType :: MnType
  us_proTxHash :: uint256
  us_addr :: CService
  us_scriptOperatorPayout :: CScript
  us_computeDescriptor :: CComputeServiceDescriptor
  us_inputsHash :: uint256
  us_sig :: "byte list"

record CProUpRegTx =
  ur_nVersion :: u16
  ur_proTxHash :: uint256
  ur_nMode :: u16
  ur_pubKeyOperator :: CBLSLazyPublicKey
  ur_keyIDVoting :: CKeyID
  ur_scriptPayout :: CScript
  ur_inputsHash :: uint256
  ur_vchSig :: "byte list"

record CProUpRevTx =
  uv_nVersion :: u16
  uv_proTxHash :: uint256
  uv_nReason :: u16
  uv_inputsHash :: uint256
  uv_sig :: "byte list"

definition up_serv_state :: "CProUpServTx \<Rightarrow> int \<Rightarrow> CDeterministicMNState \<Rightarrow> CDeterministicMNState" where
  "up_serv_state proTx height st =
     (let newState = st\<lparr>addr := us_addr proTx, scriptOperatorPayout := us_scriptOperatorPayout proTx\<rparr>;
          newState = (if us_nType proTx = MnCompute then newState\<lparr>computeDescriptor := us_computeDescriptor proTx\<rparr> else newState)
      in if IsBanned newState \<and> \<not> bls_eq (pubKeyOperator newState) NoKey \<and> keyIDVoting newState \<noteq> CKeyID_null \<and> keyIDOwner newState \<noteq> CKeyID_null
         then Revive newState height else newState)"

definition up_reg_state :: "CProUpRegTx \<Rightarrow> int \<Rightarrow> CDeterministicMNState \<Rightarrow> CDeterministicMNState" where
  "up_reg_state proTx height st =
     (let newState = (if \<not> bls_eq (pubKeyOperator st) (ur_pubKeyOperator proTx)
                      then (BanIfNotBanned (ResetOperatorFields st) height)\<lparr>st_nVersion := int (unat (ur_nVersion proTx)), pubKeyOperator := ur_pubKeyOperator proTx\<rparr>
                      else st)
      in newState\<lparr>keyIDVoting := ur_keyIDVoting proTx, scriptPayout := ur_scriptPayout proTx\<rparr>)"

definition up_rev_state :: "CProUpRevTx \<Rightarrow> int \<Rightarrow> CDeterministicMNState \<Rightarrow> CDeterministicMNState" where
  "up_rev_state proTx height st = (BanIfNotBanned (ResetOperatorFields st) height)\<lparr>nRevocationReason := uv_nReason proTx\<rparr>"

section \<open>Properties\<close>

text \<open>\<^bold>\<open>C18\<close>: differences of masternode states are exact. When the hash of an operator key tells encodings apart,
  applying the difference between two states to the first gives the second, in every field, the encoding
  of the operator key included; and the difference is empty exactly if the states are equal.\<close>

theorem state_diff_round_trip:
  assumes "inj key_hash"
  shows "ApplyToState (CDeterministicMNStateDiff_of key_hash a b) a = b \<and>
    (diff_fields (CDeterministicMNStateDiff_of key_hash a b) = 0 \<longleftrightarrow> a = b)"
  using state_diff_restores [OF assms] state_diff_empty [OF assms] by blast

definition example_key_hash :: "CBLSLazyPublicKey \<Rightarrow> uint256" where
  "example_key_hash k = (case k of NoKey \<Rightarrow> [] | OpKey p l \<Rightarrow> (if l then 1 else 0) # p)"

lemma inj_example_key_hash: "inj example_key_hash"
  by (rule injI) (auto simp: example_key_hash_def split: CBLSLazyPublicKey.splits if_splits)

theorem state_diff_round_trip_witness:
  "ApplyToState (CDeterministicMNStateDiff_of example_key_hash (MNState_default\<lparr>pubKeyOperator := OpKey [1] True\<rparr>)
      (MNState_default\<lparr>pubKeyOperator := OpKey [1] False, nPoSePenalty := 7\<rparr>)) (MNState_default\<lparr>pubKeyOperator := OpKey [1] True\<rparr>) =
    MNState_default\<lparr>pubKeyOperator := OpKey [1] False, nPoSePenalty := 7\<rparr>"
  using state_diff_round_trip [OF inj_example_key_hash] by blast

text \<open>\<^bold>\<open>C17\<close>: a service ban swallows the ban of a key change. \<^verbatim>\<open>BanIfNotBanned\<close> asks for either kind of ban, so a masternode that
  is service-banned and then changes or revokes its operator key is not put into the PoSe-banned state; the next
  commitment that enforces, reaches a verdict and finds it online lifts the service ban, and the masternode counts as
  valid with no service address (and after a revocation with no operator key). From a state that
  is not service-banned the same two steps leave it banned.\<close>

theorem service_ban_swallows_key_ban:
  assumes new: "\<not> bls_eq (pubKeyOperator st) (ur_pubKeyOperator proTx)" and ban: "nPoSeBanHeight st = -1" and h: "0 \<le> h1"
    and online: "IsObserved c i" "\<not> sc_missed c ! i"
  shows "let changed = service_state c i False True h2 params (up_reg_state proTx h1 st);
      revoked = service_state c i False True h2 params (up_rev_state rv h1 st)
    in addr changed = CService_null \<and> pubKeyOperator changed = ur_pubKeyOperator proTx \<and> pubKeyOperator revoked = NoKey \<and>
      (if nDSLBanHeight st \<noteq> -1 then \<not> IsBanned changed \<and> \<not> IsBanned revoked else IsBanned changed \<and> IsBanned revoked)"
  using assms by (auto simp: service_state_def up_reg_state_def up_rev_state_def BanIfNotBanned_def
      ResetOperatorFields_def IsBanned_def Let_def)

definition example_commitment :: CPoSeServiceCommitment where
  "example_commitment = \<lparr>sc_nVersion = 2, sc_nEpoch = 3, sc_epochBlockHash = [], sc_llmqType = LLMQ_400_60, sc_quorumHash = [],
     sc_missed = [False], sc_observed = [True], sc_quorumSig = []\<rparr>"

definition example_reg :: CProUpRegTx where
  "example_reg = \<lparr>ur_nVersion = 2, ur_proTxHash = [], ur_nMode = 0, ur_pubKeyOperator = OpKey [2] False, ur_keyIDVoting = [], ur_scriptPayout = [],
     ur_inputsHash = [], ur_vchSig = []\<rparr>"

theorem service_ban_swallows_key_ban_witness:
  "\<not> IsBanned (service_state example_commitment 0 False True 240 main_params
      (up_reg_state example_reg 230 (MNState_default\<lparr>pubKeyOperator := OpKey [1] False, nDSLBanHeight := 200\<rparr>)))"
proof -
  have "IsObserved example_commitment 0" "\<not> sc_missed example_commitment ! 0" "(0 :: int) \<le> 230"
    by (simp_all add: IsObserved_def example_commitment_def)
  then show ?thesis
    using service_ban_swallows_key_ban [of "MNState_default\<lparr>pubKeyOperator := OpKey [1] False, nDSLBanHeight := 200\<rparr>" example_reg 230
        example_commitment 0 240 main_params]
    by (simp add: Let_def example_reg_def MNState_default_def)
qed

end
