(* ===== verification/Masternode_List.thy ===== *)
theory Masternode_List
  imports Masternode_State "HOL-Library.AList"
begin

text \<open>
  The deterministic masternode list of one block: \<^verbatim>\<open>CDeterministicMNList\<close> of
  \<^verbatim>\<open>src/src/evo/deterministicmns.h\<close> and \<^verbatim>\<open>src/src/evo/deterministicmns.cpp\<close>. It keeps the masternodes by the hash
  of their registration, an index by internal id, and an index of the properties no two masternodes
  may share (collateral, address, owner key, operator key) by their hash.

  \<open>mnMap\<close> is an association list: its order stands for the iteration order of the persistent hash map, and theorems
  that claim a result for every node quantify over that order. The other two maps are only
  looked up, so they are functions. A throw is \<^term>\<open>Inl Thrown\<close>; the roll-back of the property map before a throw
  is what returning no list models. \<^verbatim>\<open>SerializeHash\<close> is the argument \<open>H\<close>, a function of the property; the lemmas
  assume that it does not collide.
\<close>

section \<open>Model\<close>

subsection \<open>Deployments\<close>

definition DeploymentActiveAfter :: "CBlockIndex option \<Rightarrow> Params \<Rightarrow> BuriedDeployment \<Rightarrow> bool" where
  "DeploymentActiveAfter pindexPrev p dep \<longleftrightarrow>
     (case pindexPrev of None \<Rightarrow> 0 | Some b \<Rightarrow> nHeight b + 1) \<ge> DeploymentHeight p dep"

definition DeploymentActiveAt :: "CBlockIndex \<Rightarrow> Params \<Rightarrow> BuriedDeployment \<Rightarrow> bool" where
  "DeploymentActiveAt b p dep \<longleftrightarrow> nHeight b \<ge> DeploymentHeight p dep"

subsection \<open>The list\<close>

record CDeterministicMN =
  internalId :: u64
  proTxHash :: uint256
  collateralOutpoint :: COutPoint
  nOperatorReward :: u16
  dmn_nType :: MnType
  pdmnState :: CDeterministicMNState

definition GetInternalId :: "CDeterministicMN \<Rightarrow> abort + u64" where
  "GetInternalId dmn = (if internalId dmn = - 1 then Inl AssertFailed else Inr (internalId dmn))"

type_synonym MnUniquePropertyMap = "uint256 \<rightharpoonup> uint256 \<times> u32"

record CDeterministicMNList =
  list_blockHash :: uint256
  list_nHeight :: int
  nTotalRegisteredCount :: u32
  mnMap :: "(uint256 \<times> CDeterministicMN) list"
  mnInternalIdMap :: "u64 \<rightharpoonup> uint256"
  mnUniquePropertyMap :: MnUniquePropertyMap

definition CDeterministicMNList_default :: CDeterministicMNList where
  "CDeterministicMNList_default =
     \<lparr>list_blockHash = uint256_null, list_nHeight = -1, nTotalRegisteredCount = 0, mnMap = [], mnInternalIdMap = Map.empty,
      mnUniquePropertyMap = Map.empty\<rparr>"

subsection \<open>Lookups\<close>

definition GetMN :: "CDeterministicMNList \<Rightarrow> uint256 \<Rightarrow> CDeterministicMN option" where
  "GetMN L h = map_of (mnMap L) h"

definition HasMN :: "CDeterministicMNList \<Rightarrow> uint256 \<Rightarrow> bool" where
  "HasMN L h \<longleftrightarrow> GetMN L h \<noteq> None"

definition IsMNPoSeBanned :: "CDeterministicMN \<Rightarrow> bool" where
  "IsMNPoSeBanned dmn \<longleftrightarrow> IsBanned (pdmnState dmn)"

definition IsMNValid :: "CDeterministicMN \<Rightarrow> bool" where
  "IsMNValid dmn \<longleftrightarrow> \<not> IsMNPoSeBanned dmn"

definition IsMNValid_hash :: "CDeterministicMNList \<Rightarrow> uint256 \<Rightarrow> bool" where
  "IsMNValid_hash L h = (case GetMN L h of None \<Rightarrow> False | Some dmn \<Rightarrow> IsMNValid dmn)"

definition GetValidMN :: "CDeterministicMNList \<Rightarrow> uint256 \<Rightarrow> CDeterministicMN option" where
  "GetValidMN L h = (case GetMN L h of None \<Rightarrow> None | Some dmn \<Rightarrow> if \<not> IsMNValid dmn then None else Some dmn)"

text \<open>The point a lazily decoded key holds; no point for the default key. \<open>pubKey\<close> is a decoded key, none if it is invalid.\<close>

definition lazy_Get :: "CBLSLazyPublicKey \<Rightarrow> byte list option" where
  "lazy_Get k = (case k of NoKey \<Rightarrow> None | OpKey p _ \<Rightarrow> Some p)"

definition GetMNByOperatorKey :: "CDeterministicMNList \<Rightarrow> byte list option \<Rightarrow> CDeterministicMN option" where
  "GetMNByOperatorKey L pubKey = find (\<lambda>dmn. lazy_Get (pubKeyOperator (pdmnState dmn)) = pubKey) (map snd (mnMap L))"

definition GetMNByInternalId :: "CDeterministicMNList \<Rightarrow> u64 \<Rightarrow> CDeterministicMN option" where
  "GetMNByInternalId L id' = (case mnInternalIdMap L id' of None \<Rightarrow> None | Some h \<Rightarrow> GetMN L h)"

text \<open>The masternodes \<^verbatim>\<open>ForEachMN\<close> visits, in the order it visits them.\<close>

definition ForEachMN :: "CDeterministicMNList \<Rightarrow> bool \<Rightarrow> CDeterministicMN list" where
  "ForEachMN L onlyValid = filter (\<lambda>dmn. \<not> onlyValid \<or> IsMNValid dmn) (map snd (mnMap L))"

definition GetAllMNsCount :: "CDeterministicMNList \<Rightarrow> nat" where
  "GetAllMNsCount L = length (mnMap L)"

definition GetValidMNsCount :: "CDeterministicMNList \<Rightarrow> nat" where
  "GetValidMNsCount L = length (filter IsMNValid (map snd (mnMap L)))"

subsection \<open>Unique properties\<close>

text \<open>The instances of the templates: an outpoint, an address, a key id, an operator key.\<close>

datatype uprop = OutPointProp COutPoint | ServiceProp CService | KeyIDProp CKeyID | OperatorKeyProp CBLSLazyPublicKey

fun is_nullValue :: "uprop \<Rightarrow> bool" where
  "is_nullValue (OutPointProp v) = (v = COutPoint_null)"
| "is_nullValue (ServiceProp v) = (v = CService_null)"
| "is_nullValue (KeyIDProp v) = (v = CKeyID_null)"
| "is_nullValue (OperatorKeyProp v) = bls_eq v NoKey"

definition AddUniqueProperty ::
  "(uprop \<Rightarrow> uint256) \<Rightarrow> CDeterministicMN \<Rightarrow> uprop \<Rightarrow> MnUniquePropertyMap \<Rightarrow> MnUniquePropertyMap option" where
  "AddUniqueProperty H dmn v m =
     (if is_nullValue v then None
      else case m (H v) of
        Some (h, n) \<Rightarrow> if h \<noteq> proTxHash dmn then None else Some (m(H v \<mapsto> (proTxHash dmn, n + 1)))
      | None \<Rightarrow> Some (m(H v \<mapsto> (proTxHash dmn, 1))))"

definition DeleteUniqueProperty ::
  "(uprop \<Rightarrow> uint256) \<Rightarrow> CDeterministicMN \<Rightarrow> uprop \<Rightarrow> MnUniquePropertyMap \<Rightarrow> MnUniquePropertyMap option" where
  "DeleteUniqueProperty H dmn oldValue m =
     (if is_nullValue oldValue then None
      else case m (H oldValue) of
        None \<Rightarrow> None
      | Some (h, n) \<Rightarrow>
          if h \<noteq> proTxHash dmn then None
          else if n = 1 then Some (m(H oldValue := None))
          else Some (m(H oldValue \<mapsto> (proTxHash dmn, n - 1))))"

definition same_property :: "(uprop \<Rightarrow> uint256) \<Rightarrow> uprop \<Rightarrow> uprop \<Rightarrow> bool" where
  "same_property H oldValue newValue =
     (case oldValue of OperatorKeyProp _ \<Rightarrow> H oldValue = H newValue | _ \<Rightarrow> oldValue = newValue)"

definition UpdateUniqueProperty ::
  "(uprop \<Rightarrow> uint256) \<Rightarrow> CDeterministicMN \<Rightarrow> uprop \<Rightarrow> uprop \<Rightarrow> MnUniquePropertyMap \<Rightarrow> MnUniquePropertyMap option" where
  "UpdateUniqueProperty H dmn oldValue newValue m =
     (if same_property H oldValue newValue then Some m
      else case (if \<not> is_nullValue oldValue then DeleteUniqueProperty H dmn oldValue m else Some m) of
        None \<Rightarrow> None
      | Some m \<Rightarrow> if \<not> is_nullValue newValue then AddUniqueProperty H dmn newValue m else Some m)"

definition HasUniqueProperty :: "(uprop \<Rightarrow> uint256) \<Rightarrow> CDeterministicMNList \<Rightarrow> uprop \<Rightarrow> bool" where
  "HasUniqueProperty H L v \<longleftrightarrow> mnUniquePropertyMap L (H v) \<noteq> None"

definition GetUniquePropertyMN :: "(uprop \<Rightarrow> uint256) \<Rightarrow> CDeterministicMNList \<Rightarrow> uprop \<Rightarrow> CDeterministicMN option" where
  "GetUniquePropertyMN H L v = (case mnUniquePropertyMap L (H v) of None \<Rightarrow> None | Some (h, n) \<Rightarrow> GetMN L h)"

definition GetMNByCollateral :: "(uprop \<Rightarrow> uint256) \<Rightarrow> CDeterministicMNList \<Rightarrow> COutPoint \<Rightarrow> CDeterministicMN option" where
  "GetMNByCollateral H L collateral = GetUniquePropertyMN H L (OutPointProp collateral)"

definition GetValidMNByCollateral :: "(uprop \<Rightarrow> uint256) \<Rightarrow> CDeterministicMNList \<Rightarrow> COutPoint \<Rightarrow> CDeterministicMN option" where
  "GetValidMNByCollateral H L collateral =
     (case GetMNByCollateral H L collateral of None \<Rightarrow> None | Some dmn \<Rightarrow> if \<not> IsMNValid dmn then None else Some dmn)"

definition GetMNByService :: "(uprop \<Rightarrow> uint256) \<Rightarrow> CDeterministicMNList \<Rightarrow> CService \<Rightarrow> CDeterministicMN option" where
  "GetMNByService H L service = GetUniquePropertyMN H L (ServiceProp service)"

text \<open>\<open>pubkey\<close> is a decoded key; wrapping an invalid one gives a key that serializes like the default one.\<close>

definition lazy_Set :: "byte list option \<Rightarrow> bool \<Rightarrow> CBLSLazyPublicKey" where
  "lazy_Set pubkey legacy = (case pubkey of None \<Rightarrow> NoKey | Some p \<Rightarrow> OpKey p legacy)"

definition HasOperatorKeyUnderAnyScheme :: "(uprop \<Rightarrow> uint256) \<Rightarrow> CDeterministicMNList \<Rightarrow> byte list option \<Rightarrow> uint256 \<Rightarrow> bool" where
  "HasOperatorKeyUnderAnyScheme H L pubkey self \<longleftrightarrow>
     list_ex (\<lambda>legacy_scheme.
       let wrapped = OperatorKeyProp (lazy_Set pubkey legacy_scheme) in
       HasUniqueProperty H L wrapped \<and>
       (case GetUniquePropertyMN H L wrapped of None \<Rightarrow> False | Some holder \<Rightarrow> proTxHash holder \<noteq> self)) [True, False]"

subsection \<open>Adding, updating and removing\<close>

definition throw_unless :: "'a option \<Rightarrow> abort + 'a" where
  "throw_unless r = (case r of None \<Rightarrow> Inl Thrown | Some x \<Rightarrow> Inr x)"

definition AddMN :: "(uprop \<Rightarrow> uint256) \<Rightarrow> CDeterministicMN \<Rightarrow> bool \<Rightarrow> CDeterministicMNList \<Rightarrow> abort + CDeterministicMNList" where
  "AddMN H dmn fBumpTotalCount L =
     (if map_of (mnMap L) (proTxHash dmn) \<noteq> None then Inl Thrown
      else sum_bind (GetInternalId dmn) (\<lambda>id'.
      if mnInternalIdMap L id' \<noteq> None then Inl Thrown
      else
        let st = pdmnState dmn in
        sum_bind (throw_unless (AddUniqueProperty H dmn (OutPointProp (collateralOutpoint dmn)) (mnUniquePropertyMap L))) (\<lambda>m.
        sum_bind (if addr st \<noteq> CService_null then throw_unless (AddUniqueProperty H dmn (ServiceProp (addr st)) m) else Inr m) (\<lambda>m.
        sum_bind (throw_unless (AddUniqueProperty H dmn (KeyIDProp (keyIDOwner st)) m)) (\<lambda>m.
        sum_bind (if \<not> bls_eq (pubKeyOperator st) NoKey then throw_unless (AddUniqueProperty H dmn (OperatorKeyProp (pubKeyOperator st)) m) else Inr m) (\<lambda>m.
          Inr (L\<lparr>mnUniquePropertyMap := m, mnMap := AList.update (proTxHash dmn) dmn (mnMap L),
                 mnInternalIdMap := (mnInternalIdMap L)(id' \<mapsto> proTxHash dmn),
                 nTotalRegisteredCount :=
                   (if fBumpTotalCount then ucast (max (id' + 1) (ucast (nTotalRegisteredCount L))) else nTotalRegisteredCount L)\<rparr>)))))))"

definition UpdateMN_dmn ::
  "(uprop \<Rightarrow> uint256) \<Rightarrow> CDeterministicMN \<Rightarrow> CDeterministicMNState \<Rightarrow> CDeterministicMNList \<Rightarrow> abort + CDeterministicMNList" where
  "UpdateMN_dmn H oldDmn newState L =
     (let oldState = pdmnState oldDmn in
      sum_bind (throw_unless (UpdateUniqueProperty H oldDmn (ServiceProp (addr oldState)) (ServiceProp (addr newState)) (mnUniquePropertyMap L))) (\<lambda>m.
      sum_bind (throw_unless (UpdateUniqueProperty H oldDmn (KeyIDProp (keyIDOwner oldState)) (KeyIDProp (keyIDOwner newState)) m)) (\<lambda>m.
      sum_bind (throw_unless (UpdateUniqueProperty H oldDmn (OperatorKeyProp (pubKeyOperator oldState)) (OperatorKeyProp (pubKeyOperator newState)) m)) (\<lambda>m.
        Inr (L\<lparr>mnUniquePropertyMap := m, mnMap := AList.update (proTxHash oldDmn) (oldDmn\<lparr>pdmnState := newState\<rparr>) (mnMap L)\<rparr>)))))"

definition UpdateMN :: "(uprop \<Rightarrow> uint256) \<Rightarrow> uint256 \<Rightarrow> CDeterministicMNState \<Rightarrow> CDeterministicMNList \<Rightarrow> abort + CDeterministicMNList" where
  "UpdateMN H h newState L =
     (case map_of (mnMap L) h of None \<Rightarrow> Inl Thrown | Some oldDmn \<Rightarrow> UpdateMN_dmn H oldDmn newState L)"

definition UpdateMN_diff ::
  "(uprop \<Rightarrow> uint256) \<Rightarrow> CDeterministicMN \<Rightarrow> CDeterministicMNStateDiff \<Rightarrow> CDeterministicMNList \<Rightarrow> abort + CDeterministicMNList" where
  "UpdateMN_diff H oldDmn stateDiff L = UpdateMN_dmn H oldDmn (ApplyToState stateDiff (pdmnState oldDmn)) L"

definition RemoveMN :: "(uprop \<Rightarrow> uint256) \<Rightarrow> uint256 \<Rightarrow> CDeterministicMNList \<Rightarrow> abort + CDeterministicMNList" where
  "RemoveMN H h L =
     (case GetMN L h of
        None \<Rightarrow> Inl Thrown
      | Some dmn \<Rightarrow>
          let st = pdmnState dmn in
          sum_bind (throw_unless (DeleteUniqueProperty H dmn (OutPointProp (collateralOutpoint dmn)) (mnUniquePropertyMap L))) (\<lambda>m.
          sum_bind (if addr st \<noteq> CService_null then throw_unless (DeleteUniqueProperty H dmn (ServiceProp (addr st)) m) else Inr m) (\<lambda>m.
          sum_bind (throw_unless (DeleteUniqueProperty H dmn (KeyIDProp (keyIDOwner st)) m)) (\<lambda>m.
          sum_bind (if \<not> bls_eq (pubKeyOperator st) NoKey then throw_unless (DeleteUniqueProperty H dmn (OperatorKeyProp (pubKeyOperator st)) m) else Inr m) (\<lambda>m.
          sum_bind (GetInternalId dmn) (\<lambda>id'.
            Inr (L\<lparr>mnUniquePropertyMap := m, mnMap := AList.delete h (mnMap L), mnInternalIdMap := (mnInternalIdMap L)(id' := None)\<rparr>)))))))"

section \<open>The registry a list represents\<close>

text \<open>The specification: a finite map from registration hashes to masternodes in which every masternode sits under its own
  hash and no two share an internal id or a property.\<close>

definition mn_slots :: "CDeterministicMN \<Rightarrow> uprop list" where
  "mn_slots d = [OutPointProp (collateralOutpoint d), ServiceProp (addr (pdmnState d)), KeyIDProp (keyIDOwner (pdmnState d)),
     OperatorKeyProp (pubKeyOperator (pdmnState d))]"

definition mn_props :: "CDeterministicMN \<Rightarrow> uprop set" where
  "mn_props d = {v \<in> set (mn_slots d). \<not> is_nullValue v}"

definition mn_ok :: "CDeterministicMN \<Rightarrow> bool" where
  "mn_ok d \<longleftrightarrow> internalId d \<noteq> - 1 \<and> collateralOutpoint d \<noteq> COutPoint_null \<and> keyIDOwner (pdmnState d) \<noteq> CKeyID_null"

definition registry_ok :: "(uint256 \<rightharpoonup> CDeterministicMN) \<Rightarrow> bool" where
  "registry_ok R \<longleftrightarrow> (\<forall>h d. R h = Some d \<longrightarrow> proTxHash d = h \<and> mn_ok d) \<and>
     (\<forall>h d h' d'. R h = Some d \<longrightarrow> R h' = Some d' \<longrightarrow> h \<noteq> h' \<longrightarrow> internalId d \<noteq> internalId d' \<and> mn_props d \<inter> mn_props d' = {})"

text \<open>Who claims what, and the property map that records a set of claims.\<close>

type_synonym claims = "(uint256 \<times> uprop) set"

definition claims_of :: "(uint256 \<rightharpoonup> CDeterministicMN) \<Rightarrow> claims" where
  "claims_of R = {(h, v). \<exists>d. R h = Some d \<and> v \<in> mn_props d}"

definition records_claims :: "(uprop \<Rightarrow> uint256) \<Rightarrow> claims \<Rightarrow> MnUniquePropertyMap \<Rightarrow> bool" where
  "records_claims H S m \<longleftrightarrow> (\<forall>k h n. m k = Some (h, n) \<longleftrightarrow> n = 1 \<and> (\<exists>v. (h, v) \<in> S \<and> H v = k))"

definition mnl_inv :: "(uprop \<Rightarrow> uint256) \<Rightarrow> CDeterministicMNList \<Rightarrow> bool" where
  "mnl_inv H L \<longleftrightarrow> distinct (map fst (mnMap L)) \<and> registry_ok (GetMN L) \<and>
     (\<forall>i h. mnInternalIdMap L i = Some h \<longleftrightarrow> (\<exists>d. GetMN L h = Some d \<and> internalId d = i)) \<and>
     records_claims H (claims_of (GetMN L)) (mnUniquePropertyMap L)"

subsection \<open>Claims\<close>

abbreviation slot :: "uprop \<Rightarrow> uprop set" where
  "slot v \<equiv> (if is_nullValue v then {} else {v})"

lemma mn_props_slots:
  "mn_props d = slot (OutPointProp (collateralOutpoint d)) \<union> slot (ServiceProp (addr (pdmnState d))) \<union>
     slot (KeyIDProp (keyIDOwner (pdmnState d))) \<union> slot (OperatorKeyProp (pubKeyOperator (pdmnState d)))"
  by (auto simp: mn_props_def mn_slots_def)

lemma recorded_iff: "records_claims H S m \<Longrightarrow> m k = Some (h, n) \<longleftrightarrow> n = 1 \<and> (\<exists>v. (h, v) \<in> S \<and> H v = k)"
  unfolding records_claims_def by blast

lemma not_recorded_iff: "records_claims H S m \<Longrightarrow> m k = None \<longleftrightarrow> (\<forall>h v. (h, v) \<in> S \<longrightarrow> H v \<noteq> k)"
  using recorded_iff [of H S m k] by (metis not_Some_eq old.prod.exhaust)

lemma recorded_prop:
  "inj H \<Longrightarrow> records_claims H S m \<Longrightarrow> m (H v) = Some (h, n) \<longleftrightarrow> n = 1 \<and> (h, v) \<in> S"
  by (auto simp: recorded_iff dest: injD)

lemma not_recorded_prop: "inj H \<Longrightarrow> records_claims H S m \<Longrightarrow> m (H v) = None \<longleftrightarrow> (\<forall>h. (h, v) \<notin> S)"
  by (auto simp: not_recorded_iff dest: injD)

lemma claims_unique: "records_claims H S m \<Longrightarrow> (h, v) \<in> S \<Longrightarrow> (h', v) \<in> S \<Longrightarrow> h = h'"
  using recorded_iff [of H S m "H v" h 1] recorded_iff [of H S m "H v" h' 1] by auto

lemma records_insert:
  assumes "inj H" "records_claims H S m" "\<forall>h'. (h', v) \<notin> S"
  shows "records_claims H (insert (h, v) S) (m(H v \<mapsto> (h, 1)))"
  using assms(3) unfolding records_claims_def by (auto simp: recorded_iff [OF assms(2)] inj_eq [OF assms(1)])

lemma records_remove:
  assumes "inj H" "records_claims H S m" "(h, v) \<in> S"
  shows "records_claims H (S - {(h, v)}) (m(H v := None))"
  using claims_unique [OF assms(2)] assms(3)
  unfolding records_claims_def by (auto simp: recorded_iff [OF assms(2)] inj_eq [OF assms(1)])

lemma AddUniqueProperty_spec:
  assumes "inj H" "records_claims H S m" "(proTxHash d, v) \<notin> S"
  shows "case AddUniqueProperty H d v m of
      None \<Rightarrow> is_nullValue v \<or> (\<exists>h. (h, v) \<in> S)
    | Some m' \<Rightarrow> \<not> is_nullValue v \<and> (\<forall>h. (h, v) \<notin> S) \<and> records_claims H (insert (proTxHash d, v) S) m'"
proof (cases "m (H v)")
  case None
  then show ?thesis
    using records_insert [OF assms(1,2), of v "proTxHash d"] not_recorded_prop [OF assms(1,2), of v]
    by (simp add: AddUniqueProperty_def)
next
  case (Some e)
  then have "(fst e, v) \<in> S" using recorded_prop [OF assms(1,2), of v "fst e" "snd e"] by simp
  with assms(3) Some show ?thesis by (auto simp: AddUniqueProperty_def split: prod.splits)
qed

lemma DeleteUniqueProperty_spec:
  assumes "inj H" "records_claims H S m" "(proTxHash d, v) \<in> S" "\<not> is_nullValue v"
  shows "\<exists>m'. DeleteUniqueProperty H d v m = Some m' \<and> records_claims H (S - {(proTxHash d, v)}) m'"
  using records_remove [OF assms(1-3)] recorded_prop [OF assms(1,2), of v "proTxHash d" 1] assms(3,4)
  by (simp add: DeleteUniqueProperty_def)

lemma same_property_iff: "inj H \<Longrightarrow> same_property H v w \<longleftrightarrow> v = w"
  by (auto simp: same_property_def inj_eq split: uprop.splits)

lemma UpdateUniqueProperty_spec:
  assumes H: "inj H" and S: "records_claims H S m" and old: "{proTxHash d} \<times> slot v \<subseteq> S"
    and new: "v \<noteq> w \<longrightarrow> (proTxHash d, w) \<notin> S"
  shows "case UpdateUniqueProperty H d v w m of
      None \<Rightarrow> \<not> is_nullValue w \<and> (\<exists>h. h \<noteq> proTxHash d \<and> (h, w) \<in> S)
    | Some m' \<Rightarrow> (\<not> is_nullValue w \<longrightarrow> (\<forall>h. h \<noteq> proTxHash d \<longrightarrow> (h, w) \<notin> S)) \<and>
        records_claims H (S - {proTxHash d} \<times> slot v \<union> {proTxHash d} \<times> slot w) m'"
proof (cases "v = w")
  case True
  have "S - {proTxHash d} \<times> slot v \<union> {proTxHash d} \<times> slot w = S" using True old by blast
  moreover have "\<not> is_nullValue w \<longrightarrow> (\<forall>h. h \<noteq> proTxHash d \<longrightarrow> (h, w) \<notin> S)"
    using claims_unique [OF S, of "proTxHash d" w] old True by auto
  ultimately show ?thesis using True S by (simp add: UpdateUniqueProperty_def same_property_iff [OF H])
next
  case False
  define S1 where "S1 = S - {proTxHash d} \<times> slot v"
  obtain m1 where m1: "(if \<not> is_nullValue v then DeleteUniqueProperty H d v m else Some m) = Some m1" "records_claims H S1 m1"
    using DeleteUniqueProperty_spec [OF H S, of d v] old S by (cases "is_nullValue v") (auto simp: S1_def)
  have S1w: "(h, w) \<in> S1 \<longleftrightarrow> (h, w) \<in> S" for h using False by (auto simp: S1_def)
  show ?thesis
  proof (cases "is_nullValue w")
    case True
    then show ?thesis using m1 False by (simp add: UpdateUniqueProperty_def same_property_iff [OF H] S1_def)
  next
    case nn: False
    have nin: "(proTxHash d, w) \<notin> S1" using new False S1w by blast
    have other: "(\<exists>h. (h, w) \<in> S) \<longleftrightarrow> (\<exists>h. h \<noteq> proTxHash d \<and> (h, w) \<in> S)" using new False by metis
    have step: "UpdateUniqueProperty H d v w m = AddUniqueProperty H d w m1"
      using m1(1) nn False by (simp add: UpdateUniqueProperty_def same_property_iff [OF H])
    have eq: "insert (proTxHash d, w) S1 = S - {proTxHash d} \<times> slot v \<union> {proTxHash d} \<times> slot w" using nn by (auto simp: S1_def)
    show ?thesis using AddUniqueProperty_spec [OF H m1(2) nin] nn unfolding step eq S1w other
      by (cases "AddUniqueProperty H d w m1") (simp_all split del: if_split)
  qed
qed

subsection \<open>The three operations\<close>

lemma throw_unless_simps [simp]: "throw_unless None = Inl Thrown" "throw_unless (Some x) = Inr x"
  by (simp_all add: throw_unless_def)

lemma GetMN_updated: "mnMap L' = AList.update h d (mnMap L) \<Longrightarrow> GetMN L' = (GetMN L)(h \<mapsto> d)"
  by (simp add: GetMN_def fun_eq_iff update_conv)

lemma GetMN_deleted: "mnMap L' = AList.delete h (mnMap L) \<Longrightarrow> GetMN L' = (GetMN L)(h := None)"
  by (simp add: GetMN_def fun_eq_iff delete_conv)

lemma GetMN_other_fields [simp]:
  "GetMN (L\<lparr>mnUniquePropertyMap := m\<rparr>) = GetMN L" "GetMN (L\<lparr>mnInternalIdMap := i\<rparr>) = GetMN L"
  "GetMN (L\<lparr>nTotalRegisteredCount := n\<rparr>) = GetMN L" "GetMN (L\<lparr>list_blockHash := b\<rparr>) = GetMN L" "GetMN (L\<lparr>list_nHeight := t\<rparr>) = GetMN L"
  by (simp_all add: GetMN_def fun_eq_iff)

lemma mnl_invD:
  assumes "mnl_inv H L"
  shows "distinct (map fst (mnMap L))" "registry_ok (GetMN L)"
    "mnInternalIdMap L i = Some h \<longleftrightarrow> (\<exists>d. GetMN L h = Some d \<and> internalId d = i)"
    "records_claims H (claims_of (GetMN L)) (mnUniquePropertyMap L)"
  using assms unfolding mnl_inv_def by blast+

lemma registryD:
  assumes "registry_ok R" "R h = Some d"
  shows "proTxHash d = h" "mn_ok d"
  using assms unfolding registry_ok_def by blast+

lemma registry_disjoint:
  "registry_ok R \<Longrightarrow> R h = Some d \<Longrightarrow> R h' = Some d' \<Longrightarrow> v \<in> mn_props d \<Longrightarrow> v \<in> mn_props d' \<Longrightarrow> h = h'"
  unfolding registry_ok_def by blast

lemma registry_id: "registry_ok R \<Longrightarrow> R h = Some d \<Longrightarrow> R h' = Some d' \<Longrightarrow> internalId d = internalId d' \<Longrightarrow> h = h'"
  unfolding registry_ok_def by blast

lemma claims_of_update: "claims_of (R(h \<mapsto> d)) = claims_of R - {h} \<times> UNIV \<union> {h} \<times> mn_props d"
  by (auto simp: claims_of_def split: if_splits)

lemma claims_of_remove: "claims_of (R(h := None)) = claims_of R - {h} \<times> UNIV"
  by (auto simp: claims_of_def split: if_splits)

lemma registry_ok_update:
  assumes "registry_ok R"
  shows "registry_ok (R(proTxHash d \<mapsto> d)) \<longleftrightarrow> mn_ok d \<and>
    (\<forall>h d'. h \<noteq> proTxHash d \<longrightarrow> R h = Some d' \<longrightarrow> internalId d \<noteq> internalId d' \<and> mn_props d \<inter> mn_props d' = {})" (is "?l \<longleftrightarrow> ?r")
proof
  assume l: ?l
  have "internalId d \<noteq> internalId d' \<and> mn_props d \<inter> mn_props d' = {}" if "h \<noteq> proTxHash d" "R h = Some d'" for h d'
    using that l [unfolded registry_ok_def, THEN conjunct2, rule_format, of "proTxHash d" d h d'] by simp
  moreover have "mn_ok d" using l [unfolded registry_ok_def, THEN conjunct1, rule_format, of "proTxHash d" d] by simp
  ultimately show ?r by blast
next
  assume r: ?r
  have "internalId e \<noteq> internalId e' \<and> mn_props e \<inter> mn_props e' = {}"
    if "(R(proTxHash d \<mapsto> d)) h = Some e" "(R(proTxHash d \<mapsto> d)) h' = Some e'" "h \<noteq> h'" for h e h' e'
  proof (cases "h = proTxHash d \<or> h' = proTxHash d")
    case True
    then show ?thesis using that r by (metis Int_commute fun_upd_apply option.inject)
  next
    case False
    then show ?thesis using that assms [unfolded registry_ok_def, THEN conjunct2, rule_format, of h e h' e'] by simp
  qed
  moreover have "proTxHash e = h \<and> mn_ok e" if "(R(proTxHash d \<mapsto> d)) h = Some e" for h e
    using that r registryD [OF assms, of h e] by (simp split: if_splits)
  ultimately show ?l unfolding registry_ok_def by blast
qed

lemma registry_ok_remove: "registry_ok R \<Longrightarrow> registry_ok (R(h := None))"
  unfolding registry_ok_def by (simp split: if_splits)

text \<open>The sequences of \<^verbatim>\<open>AddUniqueProperty\<close> and \<^verbatim>\<open>DeleteUniqueProperty\<close> calls, as loops over the properties.\<close>

fun add_props :: "(uprop \<Rightarrow> uint256) \<Rightarrow> CDeterministicMN \<Rightarrow> uprop list \<Rightarrow> MnUniquePropertyMap \<Rightarrow> abort + MnUniquePropertyMap" where
  "add_props H d [] m = Inr m"
| "add_props H d (v # vs) m =
     (if is_nullValue v then add_props H d vs m else sum_bind (throw_unless (AddUniqueProperty H d v m)) (add_props H d vs))"

fun delete_props :: "(uprop \<Rightarrow> uint256) \<Rightarrow> CDeterministicMN \<Rightarrow> uprop list \<Rightarrow> MnUniquePropertyMap \<Rightarrow> abort + MnUniquePropertyMap" where
  "delete_props H d [] m = Inr m"
| "delete_props H d (v # vs) m =
     (if is_nullValue v then delete_props H d vs m else sum_bind (throw_unless (DeleteUniqueProperty H d v m)) (delete_props H d vs))"

lemma add_props_spec:
  assumes "inj H" "records_claims H S m" "\<forall>v\<in>set vs. (proTxHash d, v) \<notin> S" "distinct vs"
  shows "case add_props H d vs m of
      Inl e \<Rightarrow> \<exists>v\<in>set vs. \<not> is_nullValue v \<and> (\<exists>h. (h, v) \<in> S)
    | Inr m' \<Rightarrow> (\<forall>v\<in>set vs. \<not> is_nullValue v \<longrightarrow> (\<forall>h. (h, v) \<notin> S)) \<and>
        records_claims H (S \<union> {proTxHash d} \<times> {v \<in> set vs. \<not> is_nullValue v}) m'"
  using assms(2-)
proof (induction vs arbitrary: S m)
  case (Cons v vs)
  show ?case
  proof (cases "is_nullValue v")
    case True
    moreover have "{w \<in> set (v # vs). \<not> is_nullValue w} = {w \<in> set vs. \<not> is_nullValue w}" using True by auto
    ultimately show ?thesis using Cons.IH [OF Cons.prems(1)] Cons.prems(2,3) by (simp split: sum.splits)
  next
    case False
    have v: "(proTxHash d, v) \<notin> S" using Cons.prems(2) by simp
    show ?thesis
    proof (cases "AddUniqueProperty H d v m")
      case None
      then show ?thesis using AddUniqueProperty_spec [OF assms(1) Cons.prems(1) v] False by auto
    next
      case (Some m')
      note a = AddUniqueProperty_spec [OF assms(1) Cons.prems(1) v, unfolded Some option.case]
      have new: "\<forall>w\<in>set vs. (proTxHash d, w) \<notin> insert (proTxHash d, v) S" using Cons.prems(2,3) by auto
      have eq: "insert (proTxHash d, v) S \<union> {proTxHash d} \<times> {w \<in> set vs. \<not> is_nullValue w} =
          S \<union> {proTxHash d} \<times> {w \<in> set (v # vs). \<not> is_nullValue w}" using False by auto
      have ne: "w \<noteq> v" if "w \<in> set vs" for w using that Cons.prems(3) by auto
      show ?thesis using Cons.IH [OF _ new, of m'] a Cons.prems(3) False ne Some unfolding eq by (auto split: sum.splits)
    qed
  qed
qed simp

lemma delete_props_spec:
  assumes "inj H" "records_claims H S m" "\<forall>v\<in>set vs. \<not> is_nullValue v \<longrightarrow> (proTxHash d, v) \<in> S" "distinct vs"
  shows "\<exists>m'. delete_props H d vs m = Inr m' \<and> records_claims H (S - {proTxHash d} \<times> {v \<in> set vs. \<not> is_nullValue v}) m'"
  using assms(2-)
proof (induction vs arbitrary: S m)
  case (Cons v vs)
  show ?case
  proof (cases "is_nullValue v")
    case True
    moreover have "{w \<in> set (v # vs). \<not> is_nullValue w} = {w \<in> set vs. \<not> is_nullValue w}" using True by auto
    ultimately show ?thesis using Cons.IH [OF Cons.prems(1)] Cons.prems(2,3) by simp
  next
    case False
    obtain m' where m': "DeleteUniqueProperty H d v m = Some m'" "records_claims H (S - {(proTxHash d, v)}) m'"
      using DeleteUniqueProperty_spec [OF assms(1) Cons.prems(1), of d v] Cons.prems(2) False by auto
    have eq: "S - {(proTxHash d, v)} - {proTxHash d} \<times> {w \<in> set vs. \<not> is_nullValue w} =
        S - {proTxHash d} \<times> {w \<in> set (v # vs). \<not> is_nullValue w}" using False by auto
    have rest: "\<forall>w\<in>set vs. \<not> is_nullValue w \<longrightarrow> (proTxHash d, w) \<in> S - {(proTxHash d, v)}"
      using Cons.prems(2,3) by auto
    show ?thesis using Cons.IH [OF m'(2) rest] Cons.prems(3) False m'(1) unfolding eq by auto
  qed
qed simp

lemma distinct_slots: "distinct (mn_slots d)"
  by (simp add: mn_slots_def)

lemma is_nullValue_simps [simp]: "bls_eq k NoKey \<longleftrightarrow> k = NoKey"
  by (cases k) auto

lemma AddMN_eq:
  "AddMN H d b L =
     (if HasMN L (proTxHash d) then Inl Thrown
      else if internalId d = - 1 then Inl AssertFailed
      else if mnInternalIdMap L (internalId d) \<noteq> None \<or> collateralOutpoint d = COutPoint_null then Inl Thrown
      else if keyIDOwner (pdmnState d) = CKeyID_null then Inl Thrown
      else sum_bind (add_props H d (mn_slots d) (mnUniquePropertyMap L)) (\<lambda>m.
        Inr (L\<lparr>mnUniquePropertyMap := m, mnMap := AList.update (proTxHash d) d (mnMap L),
               mnInternalIdMap := (mnInternalIdMap L)(internalId d \<mapsto> proTxHash d),
               nTotalRegisteredCount := (if b then ucast (max (internalId d + 1) (ucast (nTotalRegisteredCount L))) else nTotalRegisteredCount L)\<rparr>)))"
proof -
  have null: "AddUniqueProperty H d (KeyIDProp CKeyID_null) m = None" "AddUniqueProperty H d (OutPointProp COutPoint_null) m = None" for m
    by (simp_all add: AddUniqueProperty_def)
  show ?thesis
    by (simp add: AddMN_def HasMN_def GetMN_def GetInternalId_def mn_slots_def Let_def null sum_bind_def throw_unless_def
        split: option.split sum.split)
qed

text \<open>Registering: it returns exactly if the extended map is a registry, and then represents it.\<close>

lemma AddMN_spec:
  assumes H: "inj H" and inv: "mnl_inv H L"
  shows "case AddMN H d b L of
      Inl e \<Rightarrow> HasMN L (proTxHash d) \<or> \<not> registry_ok ((GetMN L)(proTxHash d \<mapsto> d))
    | Inr L' \<Rightarrow> \<not> HasMN L (proTxHash d) \<and> GetMN L' = (GetMN L)(proTxHash d \<mapsto> d) \<and> mnl_inv H L'"
proof (cases "HasMN L (proTxHash d) \<or> \<not> mn_ok d \<or> mnInternalIdMap L (internalId d) \<noteq> None")
  case True
  have "\<not> registry_ok ((GetMN L)(proTxHash d \<mapsto> d))" if new: "\<not> HasMN L (proTxHash d)" "mn_ok d"
  proof -
    obtain h d' where "GetMN L h = Some d'" "internalId d' = internalId d" using True new mnl_invD(3) [OF inv] by blast
    moreover from this new have "h \<noteq> proTxHash d" by (auto simp: HasMN_def)
    ultimately show ?thesis using registry_ok_update [OF mnl_invD(2) [OF inv], of d] by auto
  qed
  moreover have "\<not> registry_ok ((GetMN L)(proTxHash d \<mapsto> d))" if "\<not> mn_ok d"
    using registry_ok_update [OF mnl_invD(2) [OF inv], of d] that by blast
  ultimately show ?thesis using True by (auto simp: AddMN_eq mn_ok_def)
next
  case False
  note R = mnl_invD(2) [OF inv] and S = mnl_invD(4) [OF inv]
  let ?S = "claims_of (GetMN L)"
  have free: "GetMN L (proTxHash d) = None" using False by (simp add: HasMN_def)
  then have own: "\<forall>v\<in>set (mn_slots d). (proTxHash d, v) \<notin> ?S" by (simp add: claims_of_def)
  have ids: "internalId d \<noteq> internalId d'" if "GetMN L h = Some d'" for h d'
    using that mnl_invD(3) [OF inv, of "internalId d" h] False by auto
  have reg: "registry_ok ((GetMN L)(proTxHash d \<mapsto> d)) \<longleftrightarrow> (\<forall>v\<in>set (mn_slots d). \<not> is_nullValue v \<longrightarrow> (\<forall>h. (h, v) \<notin> ?S))"
  proof -
    have "(\<forall>v\<in>set (mn_slots d). \<not> is_nullValue v \<longrightarrow> (\<forall>h. (h, v) \<notin> ?S)) \<longleftrightarrow>
        (\<forall>h d'. GetMN L h = Some d' \<longrightarrow> mn_props d \<inter> mn_props d' = {})"
      by (auto simp: claims_of_def mn_props_def disjoint_iff)
    moreover have "h \<noteq> proTxHash d" if "GetMN L h = Some d'" for h d' using that free by auto
    ultimately show ?thesis using registry_ok_update [OF R, of d] False ids by blast
  qed
  have claims: "?S \<union> {proTxHash d} \<times> {v \<in> set (mn_slots d). \<not> is_nullValue v} = claims_of ((GetMN L)(proTxHash d \<mapsto> d))"
    using free by (auto simp: claims_of_update mn_props_def claims_of_def split: if_splits)
  show ?thesis
  proof (cases "add_props H d (mn_slots d) (mnUniquePropertyMap L)")
    case (Inl e)
    then show ?thesis using add_props_spec [OF H S own distinct_slots] reg False by (auto simp: AddMN_eq mn_ok_def)
  next
    case (Inr m)
    note m = add_props_spec [OF H S own distinct_slots, unfolded Inr sum.case claims]
    obtain L' where L': "AddMN H d b L = Inr L'" "mnUniquePropertyMap L' = m"
      "mnInternalIdMap L' = (mnInternalIdMap L)(internalId d \<mapsto> proTxHash d)" "mnMap L' = AList.update (proTxHash d) d (mnMap L)"
      using False Inr by (simp add: AddMN_eq mn_ok_def)
    note G = GetMN_updated [OF L'(4)]
    have "((mnInternalIdMap L)(internalId d \<mapsto> proTxHash d)) i = Some h \<longleftrightarrow>
        (\<exists>e. ((GetMN L)(proTxHash d \<mapsto> d)) h = Some e \<and> internalId e = i)" for i h
      using mnl_invD(3) [OF inv, of i h] free ids False by auto
    then have "mnl_inv H L'" unfolding mnl_inv_def L' G
      using reg m mnl_invD(1) [OF inv] by (simp add: distinct_update)
    then show ?thesis using L' G False by simp
  qed
qed

text \<open>Removing: it returns exactly if the masternode is there.\<close>

lemma RemoveMN_eq:
  "RemoveMN H h L =
     (case GetMN L h of
        None \<Rightarrow> Inl Thrown
      | Some d \<Rightarrow>
          if collateralOutpoint d = COutPoint_null \<or> keyIDOwner (pdmnState d) = CKeyID_null
          then Inl Thrown
          else sum_bind (delete_props H d (mn_slots d) (mnUniquePropertyMap L)) (\<lambda>m.
            sum_bind (GetInternalId d) (\<lambda>i.
              Inr (L\<lparr>mnUniquePropertyMap := m, mnMap := AList.delete h (mnMap L), mnInternalIdMap := (mnInternalIdMap L)(i := None)\<rparr>))))"
proof -
  have null: "DeleteUniqueProperty H d (KeyIDProp CKeyID_null) m = None" "DeleteUniqueProperty H d (OutPointProp COutPoint_null) m = None" for d m
    by (simp_all add: DeleteUniqueProperty_def)
  show ?thesis
    by (simp add: RemoveMN_def mn_slots_def Let_def null sum_bind_def throw_unless_def split: option.split sum.split)
qed

lemma RemoveMN_spec:
  assumes H: "inj H" and inv: "mnl_inv H L" and h: "GetMN L h = Some d"
  shows "\<exists>L'. RemoveMN H h L = Inr L' \<and> GetMN L' = (GetMN L)(h := None) \<and> mnl_inv H L'"
proof -
  note R = mnl_invD(2) [OF inv] and S = mnl_invD(4) [OF inv]
  have d: "proTxHash d = h" "mn_ok d" using registryD [OF R h] by auto
  have own: "\<forall>v\<in>set (mn_slots d). \<not> is_nullValue v \<longrightarrow> (proTxHash d, v) \<in> claims_of (GetMN L)"
    using h d by (simp add: claims_of_def mn_props_def)
  have claims: "claims_of (GetMN L) - {proTxHash d} \<times> {v \<in> set (mn_slots d). \<not> is_nullValue v} = claims_of ((GetMN L)(h := None))"
    using h d by (auto simp: claims_of_remove mn_props_def claims_of_def split: if_splits)
  obtain m where m: "delete_props H d (mn_slots d) (mnUniquePropertyMap L) = Inr m" "records_claims H (claims_of ((GetMN L)(h := None))) m"
    using delete_props_spec [OF H S own distinct_slots] unfolding claims by blast
  obtain L' where L': "RemoveMN H h L = Inr L'" "mnUniquePropertyMap L' = m"
    "mnInternalIdMap L' = (mnInternalIdMap L)(internalId d := None)" "mnMap L' = AList.delete h (mnMap L)"
    using m d h by (simp add: RemoveMN_eq mn_ok_def GetInternalId_def)
  note G = GetMN_deleted [OF L'(4)]
  have ids: "((mnInternalIdMap L)(internalId d := None)) i = Some g \<longleftrightarrow> (\<exists>e. ((GetMN L)(h := None)) g = Some e \<and> internalId e = i)" for i g
  proof -
    have "g \<noteq> h \<longleftrightarrow> i \<noteq> internalId d" if "GetMN L g = Some e" "internalId e = i" for e
      using registry_id [OF R that(1) h] that h by auto
    moreover have "((mnInternalIdMap L)(internalId d := None)) i = Some g \<longleftrightarrow> i \<noteq> internalId d \<and> (\<exists>e. GetMN L g = Some e \<and> internalId e = i)"
      using mnl_invD(3) [OF inv, of i g] by simp
    ultimately show ?thesis by auto
  qed
  have "mnl_inv H L'" unfolding mnl_inv_def L' G
    by (intro conjI allI ids registry_ok_remove [OF R] m(2) distinct_delete [OF mnl_invD(1) [OF inv]])
  then show ?thesis using L' G by blast
qed

text \<open>Updating: with an owner key in the new state it returns exactly if the changed map is a registry.\<close>

lemma update_registry_iff:
  assumes R: "registry_ok R" and h: "R h = Some d" and owner: "keyIDOwner st \<noteq> CKeyID_null"
  shows "registry_ok (R(h \<mapsto> d\<lparr>pdmnState := st\<rparr>)) \<longleftrightarrow>
    (\<forall>v\<in>{ServiceProp (addr st), KeyIDProp (keyIDOwner st), OperatorKeyProp (pubKeyOperator st)}.
       \<not> is_nullValue v \<longrightarrow> (\<forall>g. g \<noteq> h \<longrightarrow> (g, v) \<notin> claims_of R))"
proof -
  let ?d = "d\<lparr>pdmnState := st\<rparr>"
  have d: "proTxHash d = h" "mn_ok d" using registryD [OF R h] by auto
  have ok: "mn_ok ?d" using d(2) owner by (simp add: mn_ok_def)
  have other: "internalId ?d \<noteq> internalId e \<and> OutPointProp (collateralOutpoint d) \<notin> mn_props e" if "g \<noteq> h" "R g = Some e" for g e
  proof -
    have "internalId d \<noteq> internalId e" using registry_id [OF R h that(2)] that(1) by blast
    moreover have "OutPointProp (collateralOutpoint d) \<in> mn_props d" using d(2) by (simp add: mn_props_def mn_slots_def mn_ok_def)
    then have "OutPointProp (collateralOutpoint d) \<notin> mn_props e" using registry_disjoint [OF R h that(2)] that(1) by blast
    ultimately show ?thesis by simp
  qed
  have props: "v \<in> mn_props ?d \<longleftrightarrow> \<not> is_nullValue v \<and> (v = OutPointProp (collateralOutpoint d) \<or>
      v \<in> {ServiceProp (addr st), KeyIDProp (keyIDOwner st), OperatorKeyProp (pubKeyOperator st)})" for v
    by (auto simp: mn_props_def mn_slots_def)
  have "registry_ok (R(h \<mapsto> ?d)) \<longleftrightarrow> (\<forall>g e. g \<noteq> h \<longrightarrow> R g = Some e \<longrightarrow> mn_props ?d \<inter> mn_props e = {})"
    using registry_ok_update [OF R, of ?d] d ok other by simp
  also have "\<dots> \<longleftrightarrow> (\<forall>g e v. g \<noteq> h \<longrightarrow> R g = Some e \<longrightarrow>
      v \<in> {ServiceProp (addr st), KeyIDProp (keyIDOwner st), OperatorKeyProp (pubKeyOperator st)} \<longrightarrow> \<not> is_nullValue v \<longrightarrow> v \<notin> mn_props e)"
    unfolding disjoint_iff props using other by blast
  also have "\<dots> \<longleftrightarrow> (\<forall>v\<in>{ServiceProp (addr st), KeyIDProp (keyIDOwner st), OperatorKeyProp (pubKeyOperator st)}.
      \<not> is_nullValue v \<longrightarrow> (\<forall>g. g \<noteq> h \<longrightarrow> (g, v) \<notin> claims_of R))"
    unfolding claims_of_def by blast
  finally show ?thesis .
qed

lemma update_claims:
  fixes st :: CDeterministicMNState
  assumes R: "registry_ok R" and h: "R h = Some d"
  defines "old \<equiv> pdmnState d" and "S \<equiv> claims_of R"
  defines "S1 \<equiv> S - {h} \<times> slot (ServiceProp (addr old)) \<union> {h} \<times> slot (ServiceProp (addr st))"
  defines "S2 \<equiv> S1 - {h} \<times> slot (KeyIDProp (keyIDOwner old)) \<union> {h} \<times> slot (KeyIDProp (keyIDOwner st))"
  shows "S2 - {h} \<times> slot (OperatorKeyProp (pubKeyOperator old)) \<union> {h} \<times> slot (OperatorKeyProp (pubKeyOperator st)) =
      claims_of (R(h \<mapsto> d\<lparr>pdmnState := st\<rparr>))"
    "{h} \<times> slot (ServiceProp (addr old)) \<subseteq> S" "ServiceProp (addr old) \<noteq> ServiceProp (addr st) \<longrightarrow> (h, ServiceProp (addr st)) \<notin> S"
    "{h} \<times> slot (KeyIDProp (keyIDOwner old)) \<subseteq> S1" "KeyIDProp (keyIDOwner old) \<noteq> KeyIDProp (keyIDOwner st) \<longrightarrow> (h, KeyIDProp (keyIDOwner st)) \<notin> S1"
    "{h} \<times> slot (OperatorKeyProp (pubKeyOperator old)) \<subseteq> S2"
    "OperatorKeyProp (pubKeyOperator old) \<noteq> OperatorKeyProp (pubKeyOperator st) \<longrightarrow> (h, OperatorKeyProp (pubKeyOperator st)) \<notin> S2"
    "g \<noteq> h \<Longrightarrow> (g, v) \<in> S1 \<longleftrightarrow> (g, v) \<in> S" "g \<noteq> h \<Longrightarrow> (g, v) \<in> S2 \<longleftrightarrow> (g, v) \<in> S"
proof -
  have own: "(h, v) \<in> S \<longleftrightarrow> v \<in> mn_props d" for v using h by (simp add: S_def claims_of_def)
  have p: "v \<in> mn_props d \<longleftrightarrow> \<not> is_nullValue v \<and> (v = OutPointProp (collateralOutpoint d) \<or> v = ServiceProp (addr old) \<or>
      v = KeyIDProp (keyIDOwner old) \<or> v = OperatorKeyProp (pubKeyOperator old))" for v
    by (auto simp: mn_props_def mn_slots_def old_def)
  have p': "v \<in> mn_props (d\<lparr>pdmnState := st\<rparr>) \<longleftrightarrow> \<not> is_nullValue v \<and> (v = OutPointProp (collateralOutpoint d) \<or> v = ServiceProp (addr st) \<or>
      v = KeyIDProp (keyIDOwner st) \<or> v = OperatorKeyProp (pubKeyOperator st))" for v
    by (auto simp: mn_props_def mn_slots_def)
  show "{h} \<times> slot (ServiceProp (addr old)) \<subseteq> S" "ServiceProp (addr old) \<noteq> ServiceProp (addr st) \<longrightarrow> (h, ServiceProp (addr st)) \<notin> S"
    "{h} \<times> slot (KeyIDProp (keyIDOwner old)) \<subseteq> S1" "KeyIDProp (keyIDOwner old) \<noteq> KeyIDProp (keyIDOwner st) \<longrightarrow> (h, KeyIDProp (keyIDOwner st)) \<notin> S1"
    "{h} \<times> slot (OperatorKeyProp (pubKeyOperator old)) \<subseteq> S2"
    "OperatorKeyProp (pubKeyOperator old) \<noteq> OperatorKeyProp (pubKeyOperator st) \<longrightarrow> (h, OperatorKeyProp (pubKeyOperator st)) \<notin> S2"
    by (auto simp: S1_def S2_def own p split: if_splits)
  show "g \<noteq> h \<Longrightarrow> (g, v) \<in> S1 \<longleftrightarrow> (g, v) \<in> S" "g \<noteq> h \<Longrightarrow> (g, v) \<in> S2 \<longleftrightarrow> (g, v) \<in> S"
    by (auto simp: S1_def S2_def)
  have "(x, v) \<in> S2 - {h} \<times> slot (OperatorKeyProp (pubKeyOperator old)) \<union> {h} \<times> slot (OperatorKeyProp (pubKeyOperator st)) \<longleftrightarrow>
      (x, v) \<in> S - {h} \<times> UNIV \<union> {h} \<times> mn_props (d\<lparr>pdmnState := st\<rparr>)" for x v
    by (cases "x = h") (auto simp: S1_def S2_def own p p' split: if_splits)
  then show "S2 - {h} \<times> slot (OperatorKeyProp (pubKeyOperator old)) \<union> {h} \<times> slot (OperatorKeyProp (pubKeyOperator st)) =
      claims_of (R(h \<mapsto> d\<lparr>pdmnState := st\<rparr>))"
    unfolding claims_of_update S_def by (intro set_eqI) (metis surj_pair)
qed

lemma UpdateMN_dmn_spec:
  assumes H: "inj H" and inv: "mnl_inv H L" and h: "GetMN L h = Some d" and owner: "keyIDOwner st \<noteq> CKeyID_null"
  shows "case UpdateMN_dmn H d st L of
      Inl e \<Rightarrow> \<not> registry_ok ((GetMN L)(h \<mapsto> d\<lparr>pdmnState := st\<rparr>))
    | Inr L' \<Rightarrow> GetMN L' = (GetMN L)(h \<mapsto> d\<lparr>pdmnState := st\<rparr>) \<and> mnl_inv H L'"
proof -
  note R = mnl_invD(2) [OF inv] and S = mnl_invD(4) [OF inv]
  have d: "proTxHash d = h" using registryD [OF R h] by auto
  note cl = update_claims [OF R h] and reg = update_registry_iff [OF R h owner]
  note u1 = UpdateUniqueProperty_spec [OF H S, where d = d and w = "ServiceProp (addr st)", unfolded d, OF cl(2,3)]
  show ?thesis
  proof (cases "UpdateUniqueProperty H d (ServiceProp (addr (pdmnState d))) (ServiceProp (addr st)) (mnUniquePropertyMap L)")
    case None
    then show ?thesis using u1 reg by (auto simp: UpdateMN_dmn_def)
  next
    case m1: (Some m1)
    note u1 = u1 [unfolded m1 option.case]
    note u2 = UpdateUniqueProperty_spec [OF H u1 [THEN conjunct2], where d = d and w = "KeyIDProp (keyIDOwner st)", unfolded d, OF cl(4,5)]
    show ?thesis
    proof (cases "UpdateUniqueProperty H d (KeyIDProp (keyIDOwner (pdmnState d))) (KeyIDProp (keyIDOwner st)) m1")
      case None
      then show ?thesis using u2 reg m1 cl(8) by (auto simp: UpdateMN_dmn_def)
    next
      case m2: (Some m2)
      note u2 = u2 [unfolded m2 option.case]
      note u3 = UpdateUniqueProperty_spec [OF H u2 [THEN conjunct2], where d = d and w = "OperatorKeyProp (pubKeyOperator st)", unfolded d, OF cl(6,7)]
      show ?thesis
      proof (cases "UpdateUniqueProperty H d (OperatorKeyProp (pubKeyOperator (pdmnState d))) (OperatorKeyProp (pubKeyOperator st)) m2")
        case None
        then show ?thesis using u3 reg m1 m2 cl(9) by (auto simp: UpdateMN_dmn_def)
      next
        case m3: (Some m3)
        note u3 = u3 [unfolded m3 option.case cl(1)]
        obtain L' where L': "UpdateMN_dmn H d st L = Inr L'" "mnUniquePropertyMap L' = m3" "mnInternalIdMap L' = mnInternalIdMap L"
          "mnMap L' = AList.update h (d\<lparr>pdmnState := st\<rparr>) (mnMap L)"
          using m1 m2 m3 d by (simp add: UpdateMN_dmn_def Let_def)
        note G = GetMN_updated [OF L'(4)]
        have "registry_ok ((GetMN L)(h \<mapsto> d\<lparr>pdmnState := st\<rparr>))"
          unfolding reg using u1 [THEN conjunct1] u2 [THEN conjunct1] u3 [THEN conjunct1] cl(8,9) by auto
        moreover have "mnInternalIdMap L i = Some g \<longleftrightarrow> (\<exists>e. ((GetMN L)(h \<mapsto> d\<lparr>pdmnState := st\<rparr>)) g = Some e \<and> internalId e = i)" for i g
          using mnl_invD(3) [OF inv, of i g] h by auto
        ultimately have "mnl_inv H L'" unfolding mnl_inv_def L' G
          using u3 by (intro conjI allI distinct_update mnl_invD(1) [OF inv]) blast+
        then show ?thesis using L' G by simp
      qed
    qed
  qed
qed

lemma UpdateMN_spec:
  assumes "inj H" and "mnl_inv H L" and "GetMN L h = Some d" and "keyIDOwner st \<noteq> CKeyID_null"
  shows "case UpdateMN H h st L of
      Inl e \<Rightarrow> \<not> registry_ok ((GetMN L)(h \<mapsto> d\<lparr>pdmnState := st\<rparr>))
    | Inr L' \<Rightarrow> GetMN L' = (GetMN L)(h \<mapsto> d\<lparr>pdmnState := st\<rparr>) \<and> mnl_inv H L'"
  using UpdateMN_dmn_spec [OF assms] assms(3) by (simp add: UpdateMN_def GetMN_def)

subsection \<open>The interface\<close>

definition keeps_props :: "CDeterministicMNState \<Rightarrow> CDeterministicMNState \<Rightarrow> bool" where
  "keeps_props st st' \<longleftrightarrow> addr st' = addr st \<and> keyIDOwner st' = keyIDOwner st \<and> pubKeyOperator st' = pubKeyOperator st"

lemma registry_ok_keeps:
  assumes "registry_ok R" "R h = Some d" "keeps_props (pdmnState d) st"
  shows "registry_ok (R(h \<mapsto> d\<lparr>pdmnState := st\<rparr>))"
proof -
  have h: "proTxHash d = h" "mn_ok d" using registryD [OF assms(1,2)] .
  have same: "mn_props (d\<lparr>pdmnState := st\<rparr>) = mn_props d" "mn_ok (d\<lparr>pdmnState := st\<rparr>)"
    using assms(3) h(2) by (auto simp: keeps_props_def mn_props_def mn_slots_def mn_ok_def)
  have "internalId d \<noteq> internalId d' \<and> mn_props d \<inter> mn_props d' = {}" if "g \<noteq> h" "R g = Some d'" for g d'
    using registry_id [OF assms(1,2) that(2)] registry_disjoint [OF assms(1,2) that(2)] that(1) by blast
  then show ?thesis using registry_ok_update [OF assms(1), of "d\<lparr>pdmnState := st\<rparr>"] same h by simp
qed

text \<open>The map after a loop has given the masternode of each element a new state.\<close>

definition updated_at ::
  "('x \<Rightarrow> uint256) \<Rightarrow> ('x \<Rightarrow> CDeterministicMNState \<Rightarrow> CDeterministicMNState) \<Rightarrow> 'x list \<Rightarrow> (uint256 \<rightharpoonup> CDeterministicMN) \<Rightarrow> uint256 \<rightharpoonup> CDeterministicMN" where
  "updated_at key F xs R h =
     (case R h of None \<Rightarrow> None
      | Some d \<Rightarrow> (case find (\<lambda>x. key x = h) xs of None \<Rightarrow> Some d | Some x \<Rightarrow> Some (d\<lparr>pdmnState := F x (pdmnState d)\<rparr>)))"

lemma updated_at_Nil [simp]: "updated_at key F [] R = R"
  by (simp add: updated_at_def fun_eq_iff split: option.splits)

lemma updated_at_Cons:
  assumes "\<forall>y\<in>set xs. key y \<noteq> key x"
  shows "updated_at key F (x # xs) R =
    updated_at key F xs (case R (key x) of None \<Rightarrow> R | Some d \<Rightarrow> R(key x \<mapsto> d\<lparr>pdmnState := F x (pdmnState d)\<rparr>))"
proof -
  have "find (\<lambda>y. key y = key x) xs = None" using assms by (auto simp: find_None_iff)
  then show ?thesis by (auto simp: updated_at_def fun_eq_iff split: option.splits)
qed

lemma updated_at_other: "h \<notin> key ` set xs \<Longrightarrow> updated_at key F xs R h = R h"
proof -
  assume "h \<notin> key ` set xs"
  then have "find (\<lambda>x. key x = h) xs = None" by (auto simp: find_None_iff)
  then show ?thesis by (simp add: updated_at_def split: option.splits)
qed

lemma updated_at_found:
  assumes "x \<in> set xs" "distinct (map key xs)"
  shows "updated_at key F xs R (key x) = map_option (\<lambda>d. d\<lparr>pdmnState := F x (pdmnState d)\<rparr>) (R (key x))"
proof -
  have "find (\<lambda>y. key y = key x) xs = Some x"
  proof (cases "find (\<lambda>y. key y = key x) xs")
    case None
    then show ?thesis using assms(1) by (auto simp: find_None_iff)
  next
    case (Some y)
    then have "y \<in> set xs" "key y = key x" by (auto simp: find_Some_iff)
    then show ?thesis using Some assms by (metis distinct_map inj_onD)
  qed
  then show ?thesis by (simp add: updated_at_def split: option.splits)
qed

text \<open>What the code that works on lists relies on. \<open>ok\<close> is the invariant, \<open>get\<close> the registry a list represents.\<close>

locale masternode_registry =
  fixes ok :: "'l \<Rightarrow> bool"
    and get :: "'l \<Rightarrow> uint256 \<rightharpoonup> CDeterministicMN"
    and add :: "CDeterministicMN \<Rightarrow> bool \<Rightarrow> 'l \<Rightarrow> abort + 'l"
    and update :: "uint256 \<Rightarrow> CDeterministicMNState \<Rightarrow> 'l \<Rightarrow> abort + 'l"
    and remove :: "uint256 \<Rightarrow> 'l \<Rightarrow> abort + 'l"
  assumes ok_registry: "ok L \<Longrightarrow> registry_ok (get L)"
    and add_law: "ok L \<Longrightarrow>
      (case add d b L of Inl e \<Rightarrow> get L (proTxHash d) \<noteq> None \<or> \<not> registry_ok ((get L)(proTxHash d \<mapsto> d))
       | Inr L' \<Rightarrow> get L (proTxHash d) = None \<and> get L' = (get L)(proTxHash d \<mapsto> d) \<and> ok L')"
    and update_law: "ok L \<Longrightarrow> get L h = Some d \<Longrightarrow> keyIDOwner st \<noteq> CKeyID_null \<Longrightarrow>
      (case update h st L of Inl e \<Rightarrow> \<not> registry_ok ((get L)(h \<mapsto> d\<lparr>pdmnState := st\<rparr>))
       | Inr L' \<Rightarrow> get L' = (get L)(h \<mapsto> d\<lparr>pdmnState := st\<rparr>) \<and> ok L')"
    and update_missing: "get L h = None \<Longrightarrow> update h st L = Inl Thrown"
    and remove_law: "ok L \<Longrightarrow> get L h = Some d \<Longrightarrow> \<exists>L'. remove h L = Inr L' \<and> get L' = (get L)(h := None) \<and> ok L'"
    and remove_missing: "get L h = None \<Longrightarrow> remove h L = Inl Thrown"
begin

lemma owner_set: "ok L \<Longrightarrow> get L h = Some d \<Longrightarrow> keyIDOwner (pdmnState d) \<noteq> CKeyID_null"
  using ok_registry registryD(2) unfolding mn_ok_def by blast

lemma add_returns:
  assumes "ok L" "get L (proTxHash d) = None" "registry_ok ((get L)(proTxHash d \<mapsto> d))"
  shows "\<exists>L'. add d b L = Inr L' \<and> get L' = (get L)(proTxHash d \<mapsto> d) \<and> ok L'"
  using add_law [OF assms(1), of d b] assms(2,3) by (simp split: sum.splits)

lemma update_returns:
  assumes "ok L" "get L h = Some d" "keyIDOwner st \<noteq> CKeyID_null" "registry_ok ((get L)(h \<mapsto> d\<lparr>pdmnState := st\<rparr>))"
  shows "\<exists>L'. update h st L = Inr L' \<and> get L' = (get L)(h \<mapsto> d\<lparr>pdmnState := st\<rparr>) \<and> ok L'"
  using update_law [OF assms(1-3)] assms(4) by (simp split: sum.splits)

lemma update_keeps:
  assumes "ok L" "get L h = Some d" "keeps_props (pdmnState d) st"
  shows "\<exists>L'. update h st L = Inr L' \<and> get L' = (get L)(h \<mapsto> d\<lparr>pdmnState := st\<rparr>) \<and> ok L'"
  using update_returns [OF assms(1,2) _ registry_ok_keeps [OF ok_registry [OF assms(1)] assms(2,3)]] owner_set [OF assms(1,2)] assms(3)
  by (simp add: keeps_props_def)

lemma update_loop:
  assumes "ok L" "distinct (map key xs)" "\<forall>x\<in>set xs. get L (key x) = get L0 (key x)"
    and keeps: "\<And>x d. x \<in> set xs \<Longrightarrow> get L0 (key x) = Some d \<Longrightarrow> keeps_props (pdmnState d) (F x (pdmnState d))"
    and step: "\<And>x d L. x \<in> set xs \<Longrightarrow> ok L \<Longrightarrow> get L (key x) = Some d \<Longrightarrow> get L0 (key x) = Some d \<Longrightarrow> f x L = update (key x) (F x (pdmnState d)) L"
    and skip: "\<And>x L. x \<in> set xs \<Longrightarrow> ok L \<Longrightarrow> get L (key x) = None \<Longrightarrow> get L0 (key x) = None \<Longrightarrow> f x L = Inr L"
  shows "\<exists>L'. sum_fold f xs L = Inr L' \<and> get L' = updated_at key F xs (get L) \<and> ok L'"
  using assms(1-3) keeps step skip
proof (induction xs arbitrary: L)
  case (Cons x xs)
  have new: "\<forall>y\<in>set xs. key y \<noteq> key x" using Cons.prems(2) by (metis distinct.simps(2) imageI list.map(2) list.set_map)
  show ?case
  proof (cases "get L (key x)")
    case None
    then have f: "f x L = Inr L" using Cons.prems(1,3) Cons.prems(6) by simp
    have "\<exists>L'. sum_fold f xs L = Inr L' \<and> get L' = updated_at key F xs (get L) \<and> ok L'"
      by (rule Cons.IH) (use Cons.prems in auto)
    then show ?thesis using None f by (simp add: updated_at_Cons [OF new])
  next
    case (Some d)
    have d0: "get L0 (key x) = Some d" using Cons.prems(3) Some by simp
    obtain L1 where L1: "f x L = Inr L1" "get L1 = (get L)(key x \<mapsto> d\<lparr>pdmnState := F x (pdmnState d)\<rparr>)" "ok L1"
      using update_keeps [OF Cons.prems(1) Some Cons.prems(4) [OF _ d0]] Cons.prems(5) [OF _ Cons.prems(1) Some d0] by auto
    have "\<exists>L'. sum_fold f xs L1 = Inr L' \<and> get L' = updated_at key F xs (get L1) \<and> ok L'"
      by (rule Cons.IH) (use Cons.prems L1 new in auto)
    then show ?thesis using Some L1 by (simp add: updated_at_Cons [OF new])
  qed
qed simp

end

interpretation mnl: masternode_registry "\<lambda>L. inj H \<and> mnl_inv H L" GetMN "AddMN H" "UpdateMN H" "RemoveMN H" for H
proof
  fix L :: CDeterministicMNList and d h b and st :: CDeterministicMNState
  assume ok: "inj H \<and> mnl_inv H L"
  show "registry_ok (GetMN L)" using mnl_invD(2) ok by blast
  show "case AddMN H d b L of Inl e \<Rightarrow> GetMN L (proTxHash d) \<noteq> None \<or> \<not> registry_ok ((GetMN L)(proTxHash d \<mapsto> d))
     | Inr L' \<Rightarrow> GetMN L (proTxHash d) = None \<and> GetMN L' = (GetMN L)(proTxHash d \<mapsto> d) \<and> inj H \<and> mnl_inv H L'"
    using AddMN_spec [of H L d b] ok by (simp add: HasMN_def split: sum.splits)
  assume d: "GetMN L h = Some d"
  show "\<exists>L'. RemoveMN H h L = Inr L' \<and> GetMN L' = (GetMN L)(h := None) \<and> inj H \<and> mnl_inv H L'"
    using RemoveMN_spec [OF _ _ d] ok by blast
  assume "keyIDOwner st \<noteq> CKeyID_null"
  then show "case UpdateMN H h st L of Inl e \<Rightarrow> \<not> registry_ok ((GetMN L)(h \<mapsto> d\<lparr>pdmnState := st\<rparr>))
     | Inr L' \<Rightarrow> GetMN L' = (GetMN L)(h \<mapsto> d\<lparr>pdmnState := st\<rparr>) \<and> inj H \<and> mnl_inv H L'"
    using UpdateMN_spec [OF _ _ d, of H st] ok by (simp split: sum.splits)
qed (simp_all add: UpdateMN_def RemoveMN_def GetMN_def)

lemma unique_lookup:
  assumes "inj H" "mnl_inv H L"
  shows "GetUniquePropertyMN H L v = Some d \<longleftrightarrow> GetMN L (proTxHash d) = Some d \<and> v \<in> mn_props d" (is "?l \<longleftrightarrow> ?r")
proof
  note R = mnl_invD(2) [OF assms(2)] and rec = recorded_prop [OF assms(1) mnl_invD(4) [OF assms(2)], of v]
  {
    assume ?l
    then obtain h n where hn: "mnUniquePropertyMap L (H v) = Some (h, n)" "GetMN L h = Some d"
      by (auto simp: GetUniquePropertyMN_def split: option.splits)
    then show ?r using rec [of h n] registryD(1) [OF R hn(2)] by (simp add: claims_of_def)
  next
    assume ?r
    then show ?l using rec [of "proTxHash d" 1] by (simp add: GetUniquePropertyMN_def claims_of_def)
  }
qed

lemma has_unique_iff:
  assumes "inj H" "mnl_inv H L"
  shows "HasUniqueProperty H L v \<longleftrightarrow> (\<exists>d. GetUniquePropertyMN H L v = Some d)"
proof
  assume "HasUniqueProperty H L v"
  then obtain h n where hn: "mnUniquePropertyMap L (H v) = Some (h, n)" by (auto simp: HasUniqueProperty_def)
  then show "\<exists>d. GetUniquePropertyMN H L v = Some d"
    using recorded_prop [OF assms(1) mnl_invD(4) [OF assms(2)], of v h n] by (auto simp: GetUniquePropertyMN_def claims_of_def)
qed (auto simp: HasUniqueProperty_def GetUniquePropertyMN_def split: option.splits)

lemma internal_lookup:
  assumes "mnl_inv H L"
  shows "GetMNByInternalId L i = Some d \<longleftrightarrow> GetMN L (proTxHash d) = Some d \<and> internalId d = i" (is "?l \<longleftrightarrow> ?r")
proof
  assume ?l
  then obtain h where h: "mnInternalIdMap L i = Some h" "GetMN L h = Some d"
    by (auto simp: GetMNByInternalId_def split: option.splits)
  then show ?r using mnl_invD(3) [OF assms, of i h] registryD(1) [OF mnl_invD(2) [OF assms] h(2)] by auto
next
  assume ?r
  then show ?l using mnl_invD(3) [OF assms, of i "proTxHash d"] by (simp add: GetMNByInternalId_def)
qed

subsection \<open>The visited masternodes\<close>

lemma set_ForEachMN: "set (ForEachMN L v) = {d \<in> snd ` set (mnMap L). v \<longrightarrow> IsMNValid d}"
  by (auto simp: ForEachMN_def)

lemma mnl_inv_hashes:
  assumes "mnl_inv H L"
  shows "map proTxHash (map snd (mnMap L)) = map fst (mnMap L)"
proof -
  have "proTxHash (snd e) = fst e" if "e \<in> set (mnMap L)" for e
    using that registryD(1) [OF mnl_invD(2) [OF assms], of "fst e" "snd e"] mnl_invD(1) [OF assms] by (simp add: GetMN_def)
  then show ?thesis by simp
qed

lemma mnl_inv_distinct: "mnl_inv H L \<Longrightarrow> distinct (map proTxHash (map snd (mnMap L)))"
  by (simp only: mnl_inv_hashes mnl_invD(1))

lemma mnl_inv_values:
  assumes "mnl_inv H L"
  shows "inj_on proTxHash (snd ` set (mnMap L))" "distinct (map snd (mnMap L))"
  using mnl_inv_distinct [OF assms] distinct_map [of proTxHash "map snd (mnMap L)"] by simp_all

lemma distinct_ForEachMN: "mnl_inv H L \<Longrightarrow> distinct (ForEachMN L v)"
  using mnl_inv_values(2) by (auto simp: ForEachMN_def)

lemma distinct_ForEachMN_hashes: "mnl_inv H L \<Longrightarrow> distinct (map proTxHash (ForEachMN L v))"
  unfolding ForEachMN_def by (rule distinct_map_filter) (rule mnl_inv_distinct)

lemma member_iff:
  assumes "mnl_inv H L"
  shows "d \<in> snd ` set (mnMap L) \<longleftrightarrow> GetMN L (proTxHash d) = Some d"
proof
  assume "d \<in> snd ` set (mnMap L)"
  then obtain h where "(h, d) \<in> set (mnMap L)" by auto
  then have h: "GetMN L h = Some d" using mnl_invD(1) [OF assms] by (simp add: GetMN_def)
  then show "GetMN L (proTxHash d) = Some d" using registryD(1) [OF mnl_invD(2) [OF assms] h] by simp
next
  assume "GetMN L (proTxHash d) = Some d"
  then have "(proTxHash d, d) \<in> set (mnMap L)" by (simp add: GetMN_def map_of_SomeD)
  then show "d \<in> snd ` set (mnMap L)" by force
qed

lemma ForEachMN_found: "mnl_inv H L \<Longrightarrow> d \<in> set (ForEachMN L v) \<Longrightarrow> GetMN L (proTxHash d) = Some d"
  by (simp add: set_ForEachMN member_iff)

lemma count_card:
  assumes "mnl_inv H L"
  shows "GetAllMNsCount L = card (dom (GetMN L))"
proof -
  have "dom (GetMN L) = set (map fst (mnMap L))" by (simp add: GetMN_def dom_map_of_conv_image_fst [symmetric] dom_def)
  then show ?thesis using distinct_card [OF mnl_invD(1) [OF assms]] by (simp add: GetAllMNsCount_def)
qed

section \<open>Property\<close>

text \<open>\<^bold>\<open>C2\<close>: the masternode list implements a registry. For a hash that does not collide and a list that satisfies
  the invariant, adding a masternode returns exactly if its hash is new and the extended map still has no two masternodes with a common internal
  id, collateral, address, owner key or operator key; updating a state that keeps an owner key returns exactly if the masternode is
  there and the changed map has no such pair; removing returns exactly if it is there. What they return represents the
  changed map and satisfies the invariant, so it is reached from no throw half way. The lookups by property and by internal id find
  exactly the masternode that holds the value.\<close>

theorem list_refines_registry:
  assumes "inj H" "mnl_inv H L"
  shows "((\<exists>L'. AddMN H d b L = Inr L') \<longleftrightarrow> GetMN L (proTxHash d) = None \<and> registry_ok ((GetMN L)(proTxHash d \<mapsto> d))) \<and>
    (\<forall>L'. AddMN H d b L = Inr L' \<longrightarrow> GetMN L' = (GetMN L)(proTxHash d \<mapsto> d) \<and> mnl_inv H L') \<and>
    (keyIDOwner st \<noteq> CKeyID_null \<longrightarrow>
      ((\<exists>L'. UpdateMN H h st L = Inr L') \<longleftrightarrow> (\<exists>e. GetMN L h = Some e \<and> registry_ok ((GetMN L)(h \<mapsto> e\<lparr>pdmnState := st\<rparr>)))) \<and>
      (\<forall>L'. UpdateMN H h st L = Inr L' \<longrightarrow> (\<exists>e. GetMN L h = Some e \<and> GetMN L' = (GetMN L)(h \<mapsto> e\<lparr>pdmnState := st\<rparr>)) \<and> mnl_inv H L')) \<and>
    ((\<exists>L'. RemoveMN H h L = Inr L') \<longleftrightarrow> HasMN L h) \<and>
    (\<forall>L'. RemoveMN H h L = Inr L' \<longrightarrow> GetMN L' = (GetMN L)(h := None) \<and> mnl_inv H L') \<and>
    (GetUniquePropertyMN H L v = Some e \<longleftrightarrow> GetMN L (proTxHash e) = Some e \<and> v \<in> mn_props e) \<and>
    (GetMNByInternalId L i = Some e \<longleftrightarrow> GetMN L (proTxHash e) = Some e \<and> internalId e = i)"
proof -
  have ok: "inj H \<and> mnl_inv H L" using assms by blast
  have "((\<exists>L'. AddMN H d b L = Inr L') \<longleftrightarrow> GetMN L (proTxHash d) = None \<and> registry_ok ((GetMN L)(proTxHash d \<mapsto> d))) \<and>
    (\<forall>L'. AddMN H d b L = Inr L' \<longrightarrow> GetMN L' = (GetMN L)(proTxHash d \<mapsto> d) \<and> mnl_inv H L')"
  proof (cases "AddMN H d b L")
    case (Inl e)
    then show ?thesis using mnl.add_law [OF ok, of d b] by simp
  next
    case (Inr L')
    then show ?thesis using mnl.add_law [OF ok, of d b] mnl_invD(2) [of H L'] by simp
  qed
  moreover have "((\<exists>L'. UpdateMN H h st L = Inr L') \<longleftrightarrow> (\<exists>e. GetMN L h = Some e \<and> registry_ok ((GetMN L)(h \<mapsto> e\<lparr>pdmnState := st\<rparr>)))) \<and>
      (\<forall>L'. UpdateMN H h st L = Inr L' \<longrightarrow> (\<exists>e. GetMN L h = Some e \<and> GetMN L' = (GetMN L)(h \<mapsto> e\<lparr>pdmnState := st\<rparr>)) \<and> mnl_inv H L')"
    if st: "keyIDOwner st \<noteq> CKeyID_null"
  proof (cases "GetMN L h")
    case None
    then show ?thesis using mnl.update_missing [OF None] by simp
  next
    case (Some e)
    have reg: "registry_ok ((GetMN L)(h \<mapsto> e\<lparr>pdmnState := st\<rparr>))" if "mnl_inv H L'" "GetMN L' = (GetMN L)(h \<mapsto> e\<lparr>pdmnState := st\<rparr>)" for L'
      using mnl_invD(2) [OF that(1)] that(2) by simp
    show ?thesis using mnl.update_law [OF ok Some st] Some reg by (simp split: sum.splits) blast
  qed
  moreover have "((\<exists>L'. RemoveMN H h L = Inr L') \<longleftrightarrow> HasMN L h) \<and> (\<forall>L'. RemoveMN H h L = Inr L' \<longrightarrow> GetMN L' = (GetMN L)(h := None) \<and> mnl_inv H L')"
    using mnl.remove_law [OF ok, of h] mnl.remove_missing [of L h] by (cases "GetMN L h") (auto simp: HasMN_def)
  ultimately show ?thesis using unique_lookup [OF assms, of v e] internal_lookup [OF assms(2), of i e] by blast
qed

subsection \<open>Examples\<close>

fun example_prop_hash :: "uprop \<Rightarrow> uint256" where
  "example_prop_hash (OutPointProp v) = 0 # le_bytes 4 (unat (op_n v)) @ op_hash v"
| "example_prop_hash (ServiceProp v) = 1 # v"
| "example_prop_hash (KeyIDProp v) = 2 # v"
| "example_prop_hash (OperatorKeyProp v) = 3 # example_key_hash v"

lemma le_bytes_u32_inject: "le_bytes 4 (unat (x :: u32)) = le_bytes 4 (unat y) \<longleftrightarrow> x = y"
proof -
  have "le_value (le_bytes 4 (unat z)) = unat z" for z :: u32
    using unat_u32_less [of z] by (simp add: le_value_le_bytes)
  then show ?thesis by (metis unsigned_word_eqI)
qed

lemma inj_example_prop_hash: "inj example_prop_hash"
proof (rule injI)
  fix v w assume "example_prop_hash v = example_prop_hash w"
  then show "v = w"
    by (cases v; cases w) (auto simp: le_bytes_u32_inject COutPoint.equality inj_eq [OF inj_example_key_hash])
qed

lemma mnl_inv_default: "mnl_inv H CDeterministicMNList_default"
  by (simp add: mnl_inv_def CDeterministicMNList_default_def GetMN_def registry_ok_def records_claims_def claims_of_def)

definition example_mn :: "nat \<Rightarrow> CDeterministicMN" where
  "example_mn i = \<lparr>internalId = of_nat i, proTxHash = [of_nat i], collateralOutpoint = \<lparr>op_hash = [of_nat i], op_n = 0\<rparr>, nOperatorReward = 0,
     dmn_nType = MnRegular, pdmnState = MNState_default\<lparr>addr := [of_nat i], keyIDOwner := [of_nat i], pubKeyOperator := OpKey [of_nat i] False,
       confirmedHash := [1], nRegisteredHeight := 5\<rparr>\<rparr>"

lemma example_nonnull [simp]: "\<lparr>op_hash = [b], op_n = 0\<rparr> \<noteq> COutPoint_null" "[b] \<noteq> CKeyID_null" "[b] \<noteq> CService_null"
  by (simp_all add: COutPoint_null_def uint256_null_def CKeyID_null_def CService_null_def numeral_eq_Suc)

theorem list_refines_registry_witness:
  "\<exists>L'. AddMN example_prop_hash (example_mn 1) True CDeterministicMNList_default = Inr L' \<and> mnl_inv example_prop_hash L' \<and>
     GetMN L' [1] = Some (example_mn 1)"
proof -
  have "mn_ok (example_mn 1)" by (simp add: mn_ok_def example_mn_def)
  then have "registry_ok ((GetMN CDeterministicMNList_default)(proTxHash (example_mn 1) \<mapsto> example_mn 1))"
    by (simp add: registry_ok_def GetMN_def CDeterministicMNList_default_def)
  moreover have "proTxHash (example_mn 1) = [1]" "GetMN CDeterministicMNList_default [1] = None"
    by (simp_all add: example_mn_def GetMN_def CDeterministicMNList_default_def)
  ultimately show ?thesis
    using list_refines_registry [OF inj_example_prop_hash mnl_inv_default, of "example_mn 1" True] by (metis fun_upd_same)
qed

lemma AddMN_fields:
  "AddMN H d b L = Inr L' \<Longrightarrow> mnMap L' = AList.update (proTxHash d) d (mnMap L) \<and> list_nHeight L' = list_nHeight L \<and> list_blockHash L' = list_blockHash L"
  by (auto simp: AddMN_eq sum_bind_ok split: if_splits)

lemma UpdateMN_dmn_fields:
  assumes "UpdateMN_dmn H d st L = Inr L'"
  shows "mnMap L' = AList.update (proTxHash d) (d\<lparr>pdmnState := st\<rparr>) (mnMap L)" "list_nHeight L' = list_nHeight L" "list_blockHash L' = list_blockHash L"
    "nTotalRegisteredCount L' = nTotalRegisteredCount L"
  using assms by (auto simp: UpdateMN_dmn_def Let_def sum_bind_ok)

lemma RemoveMN_fields:
  assumes "RemoveMN H h L = Inr L'"
  shows "mnMap L' = AList.delete h (mnMap L)" "list_nHeight L' = list_nHeight L" "list_blockHash L' = list_blockHash L"
    "nTotalRegisteredCount L' = nTotalRegisteredCount L"
  using assms by (auto simp: RemoveMN_eq sum_bind_ok split: option.splits if_splits)

lemma example_mn_simps [simp]:
  "proTxHash (example_mn i) = [of_nat i]" "internalId (example_mn i) = of_nat i"
  "mn_props (example_mn i) = {OutPointProp \<lparr>op_hash = [of_nat i], op_n = 0\<rparr>, ServiceProp [of_nat i], KeyIDProp [of_nat i], OperatorKeyProp (OpKey [of_nat i] False)}"
  by (auto simp: example_mn_def mn_props_slots)

lemma example_mn_ok [simp]: "i < 256 \<Longrightarrow> mn_ok (example_mn i)"
proof -
  assume i: "i < 256"
  have "(of_nat i :: u64) \<noteq> - 1"
  proof
    assume "(of_nat i :: u64) = - 1"
    then have "unat (of_nat i :: u64) = unat (- 1 :: u64)" by simp
    then show False using i by (simp add: unat_of_nat unsigned_minus_1_eq_mask mask_eq_exp_minus_1)
  qed
  then show ?thesis by (simp add: mn_ok_def example_mn_def)
qed

lemma example_single: "i < 256 \<Longrightarrow> registry_ok [[of_nat i] \<mapsto> example_mn i]"
  by (simp add: registry_ok_def)

lemma example_registry:
  assumes "i \<noteq> j" "i < 256" "j < 256"
  shows "registry_ok [[of_nat i] \<mapsto> example_mn i, [of_nat j] \<mapsto> example_mn j]"
proof -
  have ne: "(of_nat i :: byte) \<noteq> of_nat j" "(of_nat i :: u64) \<noteq> of_nat j"
    using assms by (simp_all add: word_of_nat_eq_iff take_bit_nat_eq_self)
  from registry_ok_update [OF example_single [OF assms(2)], of "example_mn j"] show ?thesis using ne assms by auto
qed

text \<open>The two orders in which a list can hold two masternodes.\<close>

lemma example_pair:
  assumes "i \<noteq> j" "i < 256" "j < 256"
  shows "\<exists>L. mnl_inv example_prop_hash L \<and> mnMap L = [([of_nat i], example_mn i), ([of_nat j], example_mn j)] \<and> list_nHeight L = -1 \<and>
    GetMN L = [[of_nat i] \<mapsto> example_mn i, [of_nat j] \<mapsto> example_mn j]"
proof -
  have ne: "(of_nat i :: byte) \<noteq> of_nat j" using assms by (simp add: word_of_nat_eq_iff take_bit_nat_eq_self)
  have d: "GetMN CDeterministicMNList_default = Map.empty" by (simp add: CDeterministicMNList_default_def GetMN_def fun_eq_iff)
  obtain L1 where L1: "AddMN example_prop_hash (example_mn i) True CDeterministicMNList_default = Inr L1"
      "GetMN L1 = [[of_nat i] \<mapsto> example_mn i]" "mnl_inv example_prop_hash L1"
    using mnl.add_returns [of example_prop_hash CDeterministicMNList_default "example_mn i" True] inj_example_prop_hash mnl_inv_default d
      example_single [OF assms(2)] by auto
  obtain L2 where L2: "AddMN example_prop_hash (example_mn j) True L1 = Inr L2"
      "GetMN L2 = [[of_nat i] \<mapsto> example_mn i, [of_nat j] \<mapsto> example_mn j]" "mnl_inv example_prop_hash L2"
    using mnl.add_returns [of example_prop_hash L1 "example_mn j" True] inj_example_prop_hash L1(2,3) example_registry [OF assms] ne by auto
  show ?thesis using AddMN_fields [OF L1(1)] AddMN_fields [OF L2(1)] L2 ne by (auto simp: CDeterministicMNList_default_def)
qed

end
