(* ===== verification/Masternode_Payment.thy ===== *)
theory Masternode_Payment
  imports Masternode_List Compact_Target "HOL-Library.Product_Lexorder" "HOL-Library.Multiset"
begin

text \<open>
  Who is paid and who serves: the payment weights, \<^verbatim>\<open>GetMNPayee\<close>, \<^verbatim>\<open>GetProjectedMNPayees\<close>, \<^verbatim>\<open>CalculateScores\<close> and
  \<^verbatim>\<open>CalculateQuorum\<close> of \<^verbatim>\<open>src/src/evo/deterministicmns.cpp\<close> and \<^verbatim>\<open>src/src/evo/deterministicmns.h\<close>. The SHA256 of the quorum
  scores is the argument \<open>sha256\<close>. The weighted counts and the penalties are mathematical integers: they
  are bounded by a small multiple of the number of masternodes.
\<close>

section \<open>Model\<close>

subsection \<open>Payments\<close>

definition GetValidVoteWeightedMNsCount :: "Params \<Rightarrow> CDeterministicMNList \<Rightarrow> int" where
  "GetValidVoteWeightedMNsCount p L =
     foldl (\<lambda>res dmn. if \<not> IsMNValid dmn then res else res + voting_weight (GetMnType p (dmn_nType dmn))) 0 (map snd (mnMap L))"

definition GetEffectivePaymentWeight :: "Params \<Rightarrow> CDeterministicMNList \<Rightarrow> CDeterministicMN \<Rightarrow> int" where
  "GetEffectivePaymentWeight p L dmn =
     (if fRewardSuspended (pdmnState dmn) then 0
      else
        let weight = payment_weight (GetMnType p (dmn_nType dmn)) in
        if weight > 1 \<and> dmn_nType dmn = MnCompute \<and> \<not> IsCertValidAt (computeDescriptor (pdmnState dmn)) (list_nHeight L) then 1
        else weight)"

definition GetValidPaymentWeightedMNsCount :: "Params \<Rightarrow> CDeterministicMNList \<Rightarrow> int" where
  "GetValidPaymentWeightedMNsCount p L =
     foldl (\<lambda>res dmn. if \<not> IsMNValid dmn then res else res + GetEffectivePaymentWeight p L dmn) 0 (map snd (mnMap L))"

definition CompareByLastPaid_GetHeight :: "CDeterministicMN \<Rightarrow> int" where
  "CompareByLastPaid_GetHeight dmn =
     (let st = pdmnState dmn; height = nLastPaidHeight st in
      if nPoSeRevivedHeight st \<noteq> -1 \<and> nPoSeRevivedHeight st > height then nPoSeRevivedHeight st
      else if height = 0 then nRegisteredHeight st
      else height)"

definition CompareByLastPaid :: "CDeterministicMN \<Rightarrow> CDeterministicMN \<Rightarrow> bool" where
  "CompareByLastPaid a b =
     (let ah = CompareByLastPaid_GetHeight a; bh = CompareByLastPaid_GetHeight b in
      if ah = bh then proTxHash a < proTxHash b else ah < bh)"

text \<open>The payee whose run of payments is not over, and the whole selection.\<close>

definition run_payee :: "Params \<Rightarrow> CDeterministicMNList \<Rightarrow> CDeterministicMN option" where
  "run_payee p L =
     foldl (\<lambda>best dmn.
       if nLastPaidHeight (pdmnState dmn) = list_nHeight L then
         let weight = GetEffectivePaymentWeight p L dmn in
         if weight > 1 \<and> nConsecutivePayments (pdmnState dmn) < weight then Some dmn else best
       else best) None (ForEachMN L True)"

definition oldest_payee :: "CDeterministicMN option \<Rightarrow> CDeterministicMN list \<Rightarrow> CDeterministicMN option" where
  "oldest_payee = foldl (\<lambda>best dmn.
     if fRewardSuspended (pdmnState dmn) then best
     else case best of None \<Rightarrow> Some dmn | Some b \<Rightarrow> if CompareByLastPaid dmn b then Some dmn else best)"

definition GetMNPayee :: "Params \<Rightarrow> CDeterministicMNList \<Rightarrow> CBlockIndex \<Rightarrow> CDeterministicMN option" where
  "GetMNPayee p L pindexPrev =
     (if mnMap L = [] then None
      else
        let isMNRewardReallocation = DeploymentActiveAfter (Some pindexPrev) p DEPLOYMENT_MN_RR;
            best = (if \<not> isMNRewardReallocation then run_payee p L else None) in
        if best \<noteq> None then best else oldest_payee best (ForEachMN L True))"

text \<open>\<^verbatim>\<open>GetProjectedMNPayees\<close>: \<^verbatim>\<open>std::sort\<close> by a total order is the sort by its key; \<^verbatim>\<open>resize\<close> cuts or appends
  null pointers.\<close>

definition last_paid_key :: "CDeterministicMN \<Rightarrow> int \<times> uint256" where
  "last_paid_key dmn = (CompareByLastPaid_GetHeight dmn, proTxHash dmn)"

definition remaining_payments :: "Params \<Rightarrow> CDeterministicMNList \<Rightarrow> CDeterministicMN list \<times> int \<times> CDeterministicMN option" where
  "remaining_payments p L =
     foldl (\<lambda>(result, remaining, skipped) dmn.
       if nLastPaidHeight (pdmnState dmn) = list_nHeight L then
         let weight = GetEffectivePaymentWeight p L dmn in
         if weight > 1 \<and> nConsecutivePayments (pdmnState dmn) < weight then
           let remaining = weight - nConsecutivePayments (pdmnState dmn) in
           (result @ replicate (nat remaining) dmn, remaining, Some dmn)
         else (result, remaining, skipped)
       else (result, remaining, skipped)) ([], 0, None) (ForEachMN L True)"

definition GetProjectedMNPayees :: "Params \<Rightarrow> CDeterministicMNList \<Rightarrow> CBlockIndex \<Rightarrow> int \<Rightarrow> CDeterministicMN option list" where
  "GetProjectedMNPayees p L pindexPrev nCount =
     (if nCount < 0 then []
      else
        let isMNRewardReallocation = DeploymentActiveAfter (Some pindexPrev) p DEPLOYMENT_MN_RR;
            weighted_count = (if isMNRewardReallocation then int (GetValidMNsCount L) else GetValidPaymentWeightedMNsCount p L);
            nCount = min nCount weighted_count;
            (result, remaining, skipped) = (if \<not> isMNRewardReallocation then remaining_payments p L else ([], 0, None));
            result = result @ concat (map (\<lambda>dmn.
              if skipped = Some dmn then []
              else replicate (nat (if isMNRewardReallocation then 1 else GetEffectivePaymentWeight p L dmn)) dmn) (ForEachMN L True));
            result = result @ (case skipped of None \<Rightarrow> [] | Some dmn \<Rightarrow> replicate (nat (nConsecutivePayments (pdmnState dmn))) dmn);
            result = take (nat remaining) result @ sort_key last_paid_key (drop (nat remaining) result)
        in take (nat nCount) (map Some result) @ replicate (nat nCount - length result) None)"

subsection \<open>Quorums\<close>

definition CalculateScores :: "(byte list \<Rightarrow> uint256) \<Rightarrow> CDeterministicMNList \<Rightarrow> uint256 \<Rightarrow> (arith_uint256 \<times> CDeterministicMN) list" where
  "CalculateScores sha256 L modifier =
     concat (map (\<lambda>dmn.
       if uint256_IsNull (confirmedHash (pdmnState dmn)) then []
       else [(UintToArith256 (sha256 (confirmedHashWithProRegTxHash (pdmnState dmn) @ modifier)), dmn)]) (ForEachMN L True))"

definition score_less :: "arith_uint256 \<times> CDeterministicMN \<Rightarrow> arith_uint256 \<times> CDeterministicMN \<Rightarrow> bool" where
  "score_less a b =
     (if CompareTo (fst a) (fst b) = 0 then COutPoint_less (collateralOutpoint (snd a)) (collateralOutpoint (snd b))
      else CompareTo (fst a) (fst b) < 0)"

text \<open>Sorting the reversed range ascending leaves the vector descending; \<open>score_key\<close> is the key of \<open>score_less\<close>.\<close>

definition score_key :: "arith_uint256 \<times> CDeterministicMN \<Rightarrow> nat \<times> uint256 \<times> u32" where
  "score_key a = (limbs_val (fst a), op_hash (collateralOutpoint (snd a)), op_n (collateralOutpoint (snd a)))"

definition CalculateQuorum :: "(byte list \<Rightarrow> uint256) \<Rightarrow> CDeterministicMNList \<Rightarrow> nat \<Rightarrow> uint256 \<Rightarrow> CDeterministicMN list" where
  "CalculateQuorum sha256 L maxSize modifier = take maxSize (map snd (rev (sort_key score_key (CalculateScores sha256 L modifier))))"

section \<open>Orders\<close>

lemma CompareByLastPaid_key: "CompareByLastPaid a b \<longleftrightarrow> last_paid_key a < last_paid_key b"
  by (auto simp: CompareByLastPaid_def last_paid_key_def Let_def less_prod_def)

lemma last_paid_key_inject: "last_paid_key a = last_paid_key b \<Longrightarrow> proTxHash a = proTxHash b"
  by (simp add: last_paid_key_def)

lemma score_less_key:
  assumes "arith_wf (fst a)" "arith_wf (fst b)"
  shows "score_less a b \<longleftrightarrow> score_key a < score_key b"
  using CompareTo_val [OF assms] by (auto simp: score_less_def score_key_def COutPoint_less_def less_prod_def)

lemma sort_key_perm: "mset xs = mset ys \<Longrightarrow> inj_on f (set xs) \<Longrightarrow> sort_key f xs = sort_key f ys"
  using sort_key_inj_key_eq [of xs "sort_key f ys" f] by simp

section \<open>The payee\<close>

text \<open>The scan keeps the first in the order among those seen, and skips the suspended.\<close>

lemma oldest_payee_Cons:
  "oldest_payee best (d # ds) = oldest_payee
     (if fRewardSuspended (pdmnState d) then best
      else case best of None \<Rightarrow> Some d | Some b \<Rightarrow> if CompareByLastPaid d b then Some d else best) ds"
  by (simp add: oldest_payee_def)

lemma oldest_payee_minimum:
  "case oldest_payee best ds of
     None \<Rightarrow> best = None \<and> (\<forall>e\<in>set ds. fRewardSuspended (pdmnState e))
   | Some d \<Rightarrow> (best = Some d \<or> d \<in> set ds \<and> \<not> fRewardSuspended (pdmnState d)) \<and> (\<forall>b. best = Some b \<longrightarrow> last_paid_key d \<le> last_paid_key b) \<and>
       (\<forall>e\<in>set ds. \<not> fRewardSuspended (pdmnState e) \<longrightarrow> last_paid_key d \<le> last_paid_key e)"
proof (induction ds arbitrary: best)
  case Nil
  then show ?case by (cases best) (auto simp: oldest_payee_def)
next
  case (Cons d ds)
  let ?next = "if fRewardSuspended (pdmnState d) then best
    else case best of None \<Rightarrow> Some d | Some b \<Rightarrow> if CompareByLastPaid d b then Some d else best"
  show ?case using Cons.IH [of ?next] unfolding oldest_payee_Cons
    by (auto simp: CompareByLastPaid_key not_less split: option.splits if_splits)
qed

text \<open>The masternode in the middle of its run, if there is exactly one candidate.\<close>

definition mid_run :: "Params \<Rightarrow> CDeterministicMNList \<Rightarrow> CDeterministicMN \<Rightarrow> bool" where
  "mid_run p L d \<longleftrightarrow> nLastPaidHeight (pdmnState d) = list_nHeight L \<and> GetEffectivePaymentWeight p L d > 1 \<and>
     nConsecutivePayments (pdmnState d) < GetEffectivePaymentWeight p L d"

definition one_paid :: "CDeterministicMNList \<Rightarrow> bool" where
  "one_paid L \<longleftrightarrow> (\<forall>d\<in>snd ` set (mnMap L). \<forall>e\<in>snd ` set (mnMap L).
     nLastPaidHeight (pdmnState d) = list_nHeight L \<longrightarrow> nLastPaidHeight (pdmnState e) = list_nHeight L \<longrightarrow> d = e)"

lemma foldl_filter: "foldl (\<lambda>s d. if P d then g s d else s) s ds = foldl g s (filter P ds)"
  by (induction ds arbitrary: s) simp_all

lemma last_paid_key_inj: "mnl_inv H L \<Longrightarrow> inj_on last_paid_key (snd ` set (mnMap L))"
  using mnl_inv_values(1) last_paid_key_inject unfolding inj_on_def by blast

text \<open>With one masternode paid at the height of the list, the masternodes in the middle of a run are the one the scan finds.\<close>

lemma mid_run_list:
  assumes "mnl_inv H L" "one_paid L"
  shows "filter (mid_run p L) (ForEachMN L True) = (case run_payee p L of None \<Rightarrow> [] | Some d \<Rightarrow> [d])"
proof -
  let ?F = "filter (mid_run p L) (ForEachMN L True)"
  have run: "run_payee p L = foldl (\<lambda>best d. Some d) None ?F"
    unfolding run_payee_def foldl_filter [symmetric] by (rule foldl_cong) (auto simp: mid_run_def Let_def)
  have same: "d = e" if "d \<in> set ?F" "e \<in> set ?F" for d e
    using that assms(2) unfolding set_filter set_ForEachMN one_paid_def mid_run_def by blast
  have "distinct ?F" using distinct_ForEachMN [OF assms(1)] by simp
  then have "?F = [] \<or> (\<exists>d. ?F = [d])" using same by (cases ?F) (auto, metis distinct.simps(2) list.set_intros neq_Nil_conv)
  then show ?thesis using run by auto
qed

lemma run_payee_iff:
  assumes "mnl_inv H L" "one_paid L"
  shows "run_payee p L = Some d \<longleftrightarrow> d \<in> snd ` set (mnMap L) \<and> IsMNValid d \<and> mid_run p L d"
    "run_payee p L = None \<longleftrightarrow> (\<forall>d \<in> snd ` set (mnMap L). IsMNValid d \<longrightarrow> \<not> mid_run p L d)"
proof -
  have "set (filter (mid_run p L) (ForEachMN L True)) = set_option (run_payee p L)"
    by (cases "run_payee p L") (simp_all add: mid_run_list [OF assms] del: set_filter)
  then have *: "{d \<in> snd ` set (mnMap L). IsMNValid d \<and> mid_run p L d} = set_option (run_payee p L)"
    by (auto simp: set_ForEachMN)
  have iff: "d \<in> snd ` set (mnMap L) \<and> IsMNValid d \<and> mid_run p L d \<longleftrightarrow> d \<in> set_option (run_payee p L)" for d using * by blast
  show "run_payee p L = Some d \<longleftrightarrow> d \<in> snd ` set (mnMap L) \<and> IsMNValid d \<and> mid_run p L d"
    unfolding iff by (cases "run_payee p L") auto
  have "run_payee p L = None \<longleftrightarrow> (\<forall>d. d \<notin> set_option (run_payee p L))" by (cases "run_payee p L") auto
  then show "run_payee p L = None \<longleftrightarrow> (\<forall>d \<in> snd ` set (mnMap L). IsMNValid d \<longrightarrow> \<not> mid_run p L d)"
    unfolding iff [symmetric] by blast
qed

lemma oldest_payee_iff:
  assumes "mnl_inv H L"
  shows "oldest_payee None (ForEachMN L True) = Some d \<longleftrightarrow> d \<in> snd ` set (mnMap L) \<and> IsMNValid d \<and> \<not> fRewardSuspended (pdmnState d) \<and>
    (\<forall>e \<in> snd ` set (mnMap L). IsMNValid e \<longrightarrow> \<not> fRewardSuspended (pdmnState e) \<longrightarrow> last_paid_key d \<le> last_paid_key e)" (is "?l \<longleftrightarrow> ?r d")
proof -
  have ok: "?r e" if "oldest_payee None (ForEachMN L True) = Some e" for e
    using that oldest_payee_minimum [of None "ForEachMN L True"] unfolding set_ForEachMN by auto
  show ?thesis
  proof
    assume r: "?r d"
    then obtain e where e: "oldest_payee None (ForEachMN L True) = Some e"
      using oldest_payee_minimum [of None "ForEachMN L True"] unfolding set_ForEachMN by (cases "oldest_payee None (ForEachMN L True)") auto
    then have "last_paid_key e = last_paid_key d" using ok [OF e] r by (meson order.antisym)
    then have "e = d" using inj_onD [OF last_paid_key_inj [OF assms]] ok [OF e] r by blast
    then show ?l using e by simp
  qed (rule ok)
qed

definition run_open :: "Params \<Rightarrow> CDeterministicMNList \<Rightarrow> CBlockIndex \<Rightarrow> bool" where
  "run_open p L prev \<longleftrightarrow> \<not> DeploymentActiveAfter (Some prev) p DEPLOYMENT_MN_RR \<and> (\<exists>e \<in> snd ` set (mnMap L). IsMNValid e \<and> mid_run p L e)"

lemma GetMNPayee_iff:
  assumes "mnl_inv H L" "one_paid L"
  shows "GetMNPayee p L prev = Some d \<longleftrightarrow> d \<in> snd ` set (mnMap L) \<and> IsMNValid d \<and>
    (if run_open p L prev then mid_run p L d
     else \<not> fRewardSuspended (pdmnState d) \<and>
       (\<forall>e \<in> snd ` set (mnMap L). IsMNValid e \<longrightarrow> \<not> fRewardSuspended (pdmnState e) \<longrightarrow> last_paid_key d \<le> last_paid_key e))"
proof (cases "mnMap L = []")
  case False
  show ?thesis
  proof (cases "run_open p L prev")
    case True
    then obtain e where "run_payee p L = Some e" using run_payee_iff [OF assms(1,2), of p] unfolding run_open_def by blast
    then show ?thesis using True False run_payee_iff(1) [OF assms(1,2), of p d] by (simp add: GetMNPayee_def run_open_def)
  next
    case nr: False
    then have "\<not> DeploymentActiveAfter (Some prev) p DEPLOYMENT_MN_RR \<Longrightarrow> run_payee p L = None"
      using run_payee_iff(2) [OF assms(1,2), of p] unfolding run_open_def by blast
    then have "GetMNPayee p L prev = oldest_payee None (ForEachMN L True)" using False by (auto simp: GetMNPayee_def)
    then show ?thesis using nr oldest_payee_iff [OF assms(1), of d] by simp
  qed
qed (simp add: GetMNPayee_def)

section \<open>The projection\<close>

lemma remaining_payments_eq:
  assumes "mnl_inv H L" "one_paid L"
  shows "remaining_payments p L =
    (case run_payee p L of
       None \<Rightarrow> ([], 0, None)
     | Some d \<Rightarrow> let n = GetEffectivePaymentWeight p L d - nConsecutivePayments (pdmnState d) in (replicate (nat n) d, n, Some d))"
proof -
  let ?g = "\<lambda>(result, remaining :: int, skipped :: CDeterministicMN option) d.
    let n = GetEffectivePaymentWeight p L d - nConsecutivePayments (pdmnState d) in (result @ replicate (nat n) d, n, Some d)"
  have "remaining_payments p L = foldl ?g ([], 0, None) (filter (mid_run p L) (ForEachMN L True))"
    unfolding remaining_payments_def foldl_filter [symmetric] by (rule foldl_cong) (auto simp: mid_run_def Let_def)
  then show ?thesis using mid_run_list [OF assms, of p] by (auto simp: Let_def split: option.splits)
qed

text \<open>The slots of a projection before the switch: those left of the open run, then all others in the order of the last payment.\<close>

definition payment_slots :: "Params \<Rightarrow> CDeterministicMNList \<Rightarrow> CDeterministicMN list" where
  "payment_slots p L =
     concat (map (\<lambda>d. replicate (nat (if run_payee p L = Some d then nConsecutivePayments (pdmnState d) else GetEffectivePaymentWeight p L d)) d)
       (ForEachMN L True))"

lemma payment_slots_split:
  assumes "mnl_inv H L" "one_paid L" "run_payee p L = Some r"
  shows "mset (concat (map (\<lambda>d. if r = d then [] else replicate (nat (GetEffectivePaymentWeight p L d)) d) (ForEachMN L True)) @
      replicate (nat (nConsecutivePayments (pdmnState r))) r) = mset (payment_slots p L)" (is "mset (concat (map ?f ?ds) @ ?rest) = _")
proof -
  let ?g = "\<lambda>d. mset (replicate (nat (if run_payee p L = Some d then nConsecutivePayments (pdmnState d) else GetEffectivePaymentWeight p L d)) d)"
  have r: "r \<in> set ?ds" using assms(3) run_payee_iff(1) [OF assms(1,2), of p r] by (simp add: set_ForEachMN)
  note dist = distinct_ForEachMN [OF assms(1), of True]
  have "mset (concat (map ?f ?ds)) = (\<Sum>d\<in>set ?ds. mset (?f d))"
    using dist by (simp add: mset_concat comp_def sum_list_distinct_conv_sum_set)
  also have "\<dots> = (\<Sum>d\<in>set ?ds - {r}. mset (?f d))" using r by (simp add: sum.remove)
  also have "\<dots> = (\<Sum>d\<in>set ?ds - {r}. ?g d)" by (rule sum.cong) (auto simp: assms(3))
  finally have "mset (concat (map ?f ?ds) @ ?rest) = (\<Sum>d\<in>set ?ds. ?g d)" 
    using sum.remove [OF finite_set r, of ?g] by (simp add: assms(3))
  also have "\<dots> = mset (payment_slots p L)"
    using dist by (simp add: payment_slots_def mset_concat comp_def sum_list_distinct_conv_sum_set)
  finally show ?thesis .
qed

lemma set_payment_slots: "set (payment_slots p L) \<subseteq> snd ` set (mnMap L)"
proof -
  have "set (payment_slots p L) \<subseteq> set (ForEachMN L True)" by (auto simp: payment_slots_def)
  then show ?thesis unfolding set_ForEachMN by blast
qed

definition resize :: "nat \<Rightarrow> 'a list \<Rightarrow> 'a option list" where
  "resize n xs = take n (map Some xs) @ replicate (n - length xs) None"

lemma projected_before:
  assumes "mnl_inv H L" "one_paid L" "\<not> DeploymentActiveAfter (Some prev) p DEPLOYMENT_MN_RR" "0 \<le> nCount"
  shows "GetProjectedMNPayees p L prev nCount =
    resize (nat (min nCount (GetValidPaymentWeightedMNsCount p L)))
      ((case run_payee p L of None \<Rightarrow> [] | Some d \<Rightarrow> replicate (nat (GetEffectivePaymentWeight p L d - nConsecutivePayments (pdmnState d))) d) @
       sort_key last_paid_key (payment_slots p L))"
proof (cases "run_payee p L")
  case None
  then show ?thesis using assms(3,4) remaining_payments_eq [OF assms(1,2), of p]
    by (simp add: GetProjectedMNPayees_def Let_def resize_def payment_slots_def)
next
  case (Some r)
  have sub: "set (concat (map (\<lambda>d. if r = d then [] else replicate (nat (GetEffectivePaymentWeight p L d)) d) (ForEachMN L True)) @
      replicate (nat (nConsecutivePayments (pdmnState r))) r) \<subseteq> snd ` set (mnMap L)"
    using set_payment_slots [of p L] mset_eq_setD [OF payment_slots_split [OF assms(1,2) Some]] by simp
  note sorted = sort_key_perm [OF payment_slots_split [OF assms(1,2) Some] inj_on_subset [OF last_paid_key_inj [OF assms(1)] sub]]
  show ?thesis using assms(3,4) remaining_payments_eq [OF assms(1,2), of p] Some
    mset_eq_length [OF payment_slots_split [OF assms(1,2) Some]]
    by (simp add: GetProjectedMNPayees_def Let_def resize_def sorted cong: if_cong)
qed

lemma projected_after:
  assumes "DeploymentActiveAfter (Some prev) p DEPLOYMENT_MN_RR" "0 \<le> nCount"
  shows "GetProjectedMNPayees p L prev nCount = resize (nat (min nCount (int (GetValidMNsCount L)))) (sort_key last_paid_key (ForEachMN L True))"
proof -
  have "concat (map (\<lambda>d. if None = Some d then [] else replicate (nat 1) d) ds) = ds" for ds :: "CDeterministicMN list"
    by (induction ds) simp_all
  then show ?thesis using assms by (simp add: GetProjectedMNPayees_def Let_def resize_def)
qed

lemma weighted_count_sum: "GetValidPaymentWeightedMNsCount p L = sum_list (map (GetEffectivePaymentWeight p L) (ForEachMN L True))"
proof -
  have "foldl (\<lambda>res d. if \<not> IsMNValid d then res else res + GetEffectivePaymentWeight p L d) (n :: int) ds =
      n + sum_list (map (GetEffectivePaymentWeight p L) (filter IsMNValid ds))" for n ds
    by (induction ds arbitrary: n) simp_all
  then show ?thesis by (simp add: GetValidPaymentWeightedMNsCount_def ForEachMN_def)
qed

lemma effective_weight_pos:
  "1 \<le> payment_weight (GetMnType p (dmn_nType d)) \<Longrightarrow> GetEffectivePaymentWeight p L d \<ge> 0 \<and> (GetEffectivePaymentWeight p L d > 0 \<longleftrightarrow> \<not> fRewardSuspended (pdmnState d))"
  by (simp add: GetEffectivePaymentWeight_def Let_def)

lemma hd_sort_key: "xs \<noteq> [] \<Longrightarrow> hd (sort_key f xs) \<in> set xs \<and> (\<forall>x\<in>set xs. f (hd (sort_key f xs)) \<le> f x)"
proof -
  assume "xs \<noteq> []"
  then obtain y ys where ys: "sort_key f xs = y # ys" by (metis length_sort list.size(3) neq_Nil_conv length_0_conv)
  have "sorted (map f (y # ys))" using sorted_sort_key [of f xs] ys by simp
  moreover have "set xs = set (y # ys)" using set_sort [of f xs] ys by simp
  ultimately show ?thesis using ys by auto
qed

lemma weighted_count_pos:
  assumes "\<forall>d \<in> snd ` set (mnMap L). 1 \<le> payment_weight (GetMnType p (dmn_nType d))" "d \<in> set (ForEachMN L True)" "GetEffectivePaymentWeight p L d > 0"
  shows "GetValidPaymentWeightedMNsCount p L \<ge> 1"
proof -
  have "\<forall>x\<in>set (map (GetEffectivePaymentWeight p L) (ForEachMN L True)). 0 \<le> x"
    using assms(1) effective_weight_pos unfolding set_map set_ForEachMN by blast
  moreover have "GetEffectivePaymentWeight p L d \<in> set (map (GetEffectivePaymentWeight p L) (ForEachMN L True))" using assms(2) by simp
  ultimately show ?thesis unfolding weighted_count_sum using assms(3) member_le_sum_list by fastforce
qed

lemma projection_head:
  assumes inv: "mnl_inv H L" "one_paid L" and rr: "\<not> DeploymentActiveAfter (Some prev) p DEPLOYMENT_MN_RR" and n: "1 \<le> nCount"
    and w: "\<forall>d \<in> snd ` set (mnMap L). 1 \<le> payment_weight (GetMnType p (dmn_nType d))" and payee: "GetMNPayee p L prev = Some d"
  shows "\<exists>rest. GetProjectedMNPayees p L prev nCount = Some d # rest"
proof -
  note pay = GetMNPayee_iff [OF inv, of p prev d, THEN iffD1, OF payee]
  have fe: "d \<in> set (ForEachMN L True)" using pay by (simp add: set_ForEachMN)
  have pos: "GetEffectivePaymentWeight p L d > 0"
    using pay effective_weight_pos [of p d L] w by (auto simp: mid_run_def split: if_splits)
  have one: "nat (min nCount (GetValidPaymentWeightedMNsCount p L)) \<ge> 1" using weighted_count_pos [OF w fe pos] n by simp
  define xs where "xs = (case run_payee p L of None \<Rightarrow> [] | Some d \<Rightarrow> replicate (nat (GetEffectivePaymentWeight p L d - nConsecutivePayments (pdmnState d))) d) @
    sort_key last_paid_key (payment_slots p L)"
  have "xs \<noteq> [] \<and> hd xs = d"
  proof (cases "run_open p L prev")
    case True
    then have r: "run_payee p L = Some d" using pay run_payee_iff(1) [OF inv, of p d] by simp
    then have "nat (GetEffectivePaymentWeight p L d - nConsecutivePayments (pdmnState d)) > 0" using pay True by (simp add: mid_run_def)
    then show ?thesis using r by (simp add: xs_def)
  next
    case False
    then have r: "run_payee p L = None" using rr run_payee_iff(2) [OF inv, of p] unfolding run_open_def by blast
    have slots: "set (payment_slots p L) = {e \<in> set (ForEachMN L True). \<not> fRewardSuspended (pdmnState e)}"
      using r w effective_weight_pos [of p _ L] by (fastforce simp: payment_slots_def set_ForEachMN)
    then have ne: "payment_slots p L \<noteq> []" using fe pay False by fastforce
    have "last_paid_key (hd (sort_key last_paid_key (payment_slots p L))) = last_paid_key d"
      using hd_sort_key [OF ne, of last_paid_key] pay False fe unfolding slots set_ForEachMN by (simp, meson order.antisym)
    moreover have "hd (sort_key last_paid_key (payment_slots p L)) \<in> snd ` set (mnMap L)"
      using hd_sort_key [OF ne, of last_paid_key] set_payment_slots by blast
    ultimately have "hd (sort_key last_paid_key (payment_slots p L)) = d" using inj_onD [OF last_paid_key_inj [OF inv(1)]] pay by blast
    then show ?thesis using r ne by (simp add: xs_def) (metis length_sort length_0_conv)
  qed
  then obtain ys where "xs = d # ys" by (metis list.collapse)
  then show ?thesis using projected_before [OF inv rr, of nCount] n one unfolding xs_def [symmetric]
    by (cases "nat (min nCount (GetValidPaymentWeightedMNsCount p L))") (simp_all add: resize_def)
qed

section \<open>Independence of the iteration order\<close>

lemma same_masternodes:
  assumes "mnl_inv H L" "mnl_inv H L'" "GetMN L' = GetMN L"
  shows "mset (map snd (mnMap L')) = mset (map snd (mnMap L))"
proof -
  have "map_of (mnMap L') = map_of (mnMap L)" using assms(3) by (simp add: GetMN_def fun_eq_iff)
  then have "set (mnMap L') = set (mnMap L)"
    using map_of_inject_set [OF mnl_invD(1) [OF assms(2)] mnl_invD(1) [OF assms(1)]] by simp
  then have "set (map snd (mnMap L')) = set (map snd (mnMap L))" by simp
  then show ?thesis
    using set_eq_iff_mset_eq_distinct [OF mnl_inv_values(2) [OF assms(2)] mnl_inv_values(2) [OF assms(1)]] by blast
qed

lemma option_inject_trans: "x = Some y \<Longrightarrow> x = Some z \<Longrightarrow> y = z"
  by simp

lemma option_same: "(\<And>d. x = Some d \<longleftrightarrow> y = Some d) \<Longrightarrow> x = y"
  by (cases x; cases y) auto

lemma filter_perm: "mset xs = mset ys \<Longrightarrow> mset (filter P xs) = mset (filter P ys)"
  by simp

lemma concat_map_perm:
  assumes "mset xs = mset ys"
  shows "mset (concat (map f xs)) = mset (concat (map f ys))"
proof -
  have "mset (concat (map f zs)) = sum_mset (image_mset (\<lambda>x. mset (f x)) (mset zs))" for zs by (induction zs) simp_all
  then show ?thesis using assms by simp
qed

lemma sum_list_perm: "mset xs = mset ys \<Longrightarrow> sum_list (map f xs) = (sum_list (map f ys) :: int)"
  by (metis mset_map sum_mset_sum_list)

lemma projected_same:
  assumes inv: "mnl_inv H L" "mnl_inv H L'" "one_paid L" "one_paid L'" and each: "mset (ForEachMN L' True) = mset (ForEachMN L True)"
    and w: "GetEffectivePaymentWeight p L' = GetEffectivePaymentWeight p L" and run: "run_payee p L' = run_payee p L"
  shows "GetProjectedMNPayees p L' prev nCount = GetProjectedMNPayees p L prev nCount"
proof (cases "nCount < 0")
  case True
  then show ?thesis by (simp add: GetProjectedMNPayees_def)
next
  case False
  have sub: "set (ForEachMN L' True) \<subseteq> snd ` set (mnMap L')" unfolding set_ForEachMN by blast
  show ?thesis
  proof (cases "DeploymentActiveAfter (Some prev) p DEPLOYMENT_MN_RR")
    case True
    have "GetValidMNsCount L' = GetValidMNsCount L" using mset_eq_length [OF each] by (simp add: ForEachMN_def GetValidMNsCount_def)
    moreover have "sort_key last_paid_key (ForEachMN L' True) = sort_key last_paid_key (ForEachMN L True)"
      by (rule sort_key_perm [OF each inj_on_subset [OF last_paid_key_inj [OF inv(2)] sub]])
    ultimately show ?thesis using True False by (simp add: projected_after)
  next
    case rr: False
    have slots: "mset (payment_slots p L') = mset (payment_slots p L)"
      unfolding payment_slots_def w run by (rule concat_map_perm [OF each])
    have "sort_key last_paid_key (payment_slots p L') = sort_key last_paid_key (payment_slots p L)"
      by (rule sort_key_perm [OF slots inj_on_subset [OF last_paid_key_inj [OF inv(2)] set_payment_slots]])
    moreover have "GetValidPaymentWeightedMNsCount p L' = GetValidPaymentWeightedMNsCount p L"
      unfolding weighted_count_sum w by (rule sum_list_perm [OF each])
    ultimately show ?thesis using False projected_before [OF inv(1,3) rr, of nCount] projected_before [OF inv(2,4) rr, of nCount, unfolded w run] by simp
  qed
qed

lemma score_key_inj:
  assumes "mnl_inv H L"
  shows "inj_on score_key (set (CalculateScores sha256 L modifier))"
proof (rule inj_onI)
  fix a b assume ab: "a \<in> set (CalculateScores sha256 L modifier)" "b \<in> set (CalculateScores sha256 L modifier)" "score_key a = score_key b"
  let ?score = "\<lambda>d. UintToArith256 (sha256 (confirmedHashWithProRegTxHash (pdmnState d) @ modifier))"
  have el: "fst c = ?score (snd c) \<and> GetMN L (proTxHash (snd c)) = Some (snd c)" if "c \<in> set (CalculateScores sha256 L modifier)" for c
  proof -
    have "fst c = ?score (snd c)" "snd c \<in> set (ForEachMN L True)"
      using that by (auto simp: CalculateScores_def split: if_splits)
    then obtain h where "(h, snd c) \<in> set (mnMap L)" by (auto simp: set_ForEachMN)
    then have h: "GetMN L h = Some (snd c)" using mnl_invD(1) [OF assms] by (simp add: GetMN_def)
    show ?thesis using \<open>fst c = ?score (snd c)\<close> registryD(1) [OF mnl_invD(2) [OF assms] h] h by simp
  qed
  have coll: "collateralOutpoint (snd a) = collateralOutpoint (snd b)"
    using ab(3) by (intro COutPoint.equality) (simp_all add: score_key_def)
  note R = mnl_invD(2) [OF assms] and ga = el [OF ab(1), THEN conjunct2] and gb = el [OF ab(2), THEN conjunct2]
  have "OutPointProp (collateralOutpoint (snd a)) \<in> mn_props (snd a)" "OutPointProp (collateralOutpoint (snd a)) \<in> mn_props (snd b)"
    using registryD(2) [OF R ga] registryD(2) [OF R gb] unfolding coll by (simp_all add: mn_props_def mn_slots_def mn_ok_def coll)
  from ga [unfolded registry_disjoint [OF R ga gb this]] gb have "snd a = snd b" by (rule option_inject_trans)
  then show "a = b" using el [OF ab(1), THEN conjunct1] el [OF ab(2), THEN conjunct1] by (simp add: prod_eq_iff)
qed

section \<open>Properties\<close>


lemma example_valid [simp]: "IsMNValid (example_mn i)" "\<not> fRewardSuspended (pdmnState (example_mn i))" "CompareByLastPaid_GetHeight (example_mn i) = 5"
  "dmn_nType (example_mn i) = MnRegular" "nLastPaidHeight (pdmnState (example_mn i)) = 0"
  by (simp_all add: IsMNValid_def IsMNPoSeBanned_def IsBanned_def example_mn_def MNState_default_def CompareByLastPaid_GetHeight_def)

lemma example_one_paid: "mnMap L = [(a, example_mn i), (b, example_mn j)] \<Longrightarrow> list_nHeight L = -1 \<Longrightarrow> one_paid L"
  by (auto simp: one_paid_def)




end
