(* ===== verification/Masternode_Service.thy ===== *)
theory Masternode_Service
  imports Masternode_List
begin

text \<open>
  Proof of service on the masternode list: penalties and bans for failed key generation (\<^verbatim>\<open>PoSePunish\<close>,
  \<^verbatim>\<open>DecreaseScores\<close>) and the verdicts of a service commitment (\<^verbatim>\<open>ApplyServiceCommitment\<close>), of
  \<^verbatim>\<open>src/src/evo/deterministicmns.cpp\<close>. All of them change states without touching a unique property, so none of them can
  throw on a list that satisfies the invariant; the lemmas state the map they leave.
\<close>

section \<open>Model\<close>

definition CalcMaxPoSePenalty :: "CDeterministicMNList \<Rightarrow> int" where
  "CalcMaxPoSePenalty L = max 100 (int (GetAllMNsCount L))"

definition CalcPenalty :: "CDeterministicMNList \<Rightarrow> int \<Rightarrow> abort + int" where
  "CalcPenalty L percent = (if \<not> percent > 0 then Inl AssertFailed else Inr (cdiv (CalcMaxPoSePenalty L * percent) 100))"

definition PoSePunish :: "(uprop \<Rightarrow> uint256) \<Rightarrow> uint256 \<Rightarrow> int \<Rightarrow> CDeterministicMNList \<Rightarrow> abort + CDeterministicMNList" where
  "PoSePunish H h penalty L =
     (if \<not> penalty > 0 then Inl AssertFailed
      else case GetMN L h of
        None \<Rightarrow> Inl Thrown
      | Some dmn \<Rightarrow>
          let maxPenalty = CalcMaxPoSePenalty L;
              newState = (pdmnState dmn)\<lparr>nPoSePenalty := min maxPenalty (nPoSePenalty (pdmnState dmn) + penalty)\<rparr>;
              newState = (if nPoSePenalty newState \<ge> maxPenalty \<and> \<not> IsBanned newState then BanIfNotBanned newState (list_nHeight L) else newState)
          in UpdateMN H h newState L)"

definition PoSeDecrease :: "(uprop \<Rightarrow> uint256) \<Rightarrow> CDeterministicMN \<Rightarrow> CDeterministicMNList \<Rightarrow> abort + CDeterministicMNList" where
  "PoSeDecrease H dmn L =
     (if \<not> (nPoSePenalty (pdmnState dmn) > 0 \<and> \<not> IsBanned (pdmnState dmn)) then Inl AssertFailed
      else UpdateMN_dmn H dmn ((pdmnState dmn)\<lparr>nPoSePenalty := nPoSePenalty (pdmnState dmn) - 1\<rparr>) L)"

definition DecreaseScores :: "(uprop \<Rightarrow> uint256) \<Rightarrow> CDeterministicMNList \<Rightarrow> abort + CDeterministicMNList" where
  "DecreaseScores H L = sum_fold (PoSeDecrease H) (filter (\<lambda>dmn. nPoSePenalty (pdmnState dmn) > 0) (ForEachMN L True)) L"

definition apply_service_at ::
  "(uprop \<Rightarrow> uint256) \<Rightarrow> CPoSeServiceCommitment \<Rightarrow> bool \<Rightarrow> bool \<Rightarrow> int \<Rightarrow> Params \<Rightarrow> nat \<times> uint256 \<Rightarrow> CDeterministicMNList \<Rightarrow> abort + CDeterministicMNList" where
  "apply_service_at H commitment massOutage enforce height p ih L =
     (case GetMN L (snd ih) of
        None \<Rightarrow> Inr L
      | Some dmn \<Rightarrow> UpdateMN H (snd ih) (service_state commitment (fst ih) massOutage enforce height p (pdmnState dmn)) L)"

definition ApplyServiceCommitment ::
  "(uprop \<Rightarrow> uint256) \<Rightarrow> CPoSeServiceCommitment \<Rightarrow> CDeterministicMNList \<Rightarrow> int \<Rightarrow> Params \<Rightarrow> CDeterministicMNList \<Rightarrow> abort + CDeterministicMNList" where
  "ApplyServiceCommitment H commitment epochBaseList height p L =
     (let order = sort (map proTxHash (ForEachMN epochBaseList False)) in
      if length order \<noteq> length (sc_missed commitment) then Inr L
      else if sc_nVersion commitment \<ge> OBSERVED_VERSION \<and> length (sc_observed commitment) \<noteq> length order then Inr L
      else
        let size = (of_nat (length order) :: u64);
            missedCount = (of_int (CountMissed commitment) :: u64);
            massOutage = (size > 0 \<and> missedCount * 100 \<ge> size * of_int (nDSLMassOutagePct p));
            enforce = (height \<ge> nDSLEnforcementHeight p)
        in sum_fold (apply_service_at H commitment massOutage enforce height p) (enumerate 0 order) L)"

section \<open>Penalties\<close>

abbreviation list_ok :: "(uprop \<Rightarrow> uint256) \<Rightarrow> CDeterministicMNList \<Rightarrow> bool" where
  "list_ok H L \<equiv> inj H \<and> mnl_inv H L"

lemma max_penalty_dom: "mnl_inv H L \<Longrightarrow> CalcMaxPoSePenalty L = max 100 (int (card (dom (GetMN L))))"
  by (simp add: CalcMaxPoSePenalty_def count_card)

lemma dom_updated_at [simp]: "dom (updated_at key F xs R) = dom R"
  by (auto simp: updated_at_def dom_def split: option.splits)

text \<open>The state after a punishment.\<close>

definition punished :: "int \<Rightarrow> int \<Rightarrow> int \<Rightarrow> CDeterministicMNState \<Rightarrow> CDeterministicMNState" where
  "punished maxPenalty height penalty st =
     (let st = st\<lparr>nPoSePenalty := min maxPenalty (nPoSePenalty st + penalty)\<rparr> in
      if nPoSePenalty st = maxPenalty \<and> \<not> IsBanned st then st\<lparr>nPoSeBanHeight := height\<rparr> else st)"

lemma keeps_punished: "keeps_props st (punished m height penalty st)"
  by (simp add: keeps_props_def punished_def Let_def)

lemma PoSePunish_spec:
  assumes "list_ok H L" "GetMN L h = Some d" "penalty > 0"
  shows "\<exists>L'. PoSePunish H h penalty L = Inr L' \<and> list_ok H L' \<and> list_nHeight L' = list_nHeight L \<and>
    GetMN L' = (GetMN L)(h \<mapsto> d\<lparr>pdmnState := punished (CalcMaxPoSePenalty L) (list_nHeight L) penalty (pdmnState d)\<rparr>)"
proof -
  have eq: "PoSePunish H h penalty L = UpdateMN H h (punished (CalcMaxPoSePenalty L) (list_nHeight L) penalty (pdmnState d)) L"
    using assms(2,3) by (auto simp: PoSePunish_def punished_def Let_def BanIfNotBanned_def)
  obtain L' where L': "UpdateMN H h (punished (CalcMaxPoSePenalty L) (list_nHeight L) penalty (pdmnState d)) L = Inr L'" "list_ok H L'"
      "GetMN L' = (GetMN L)(h \<mapsto> d\<lparr>pdmnState := punished (CalcMaxPoSePenalty L) (list_nHeight L) penalty (pdmnState d)\<rparr>)"
    using mnl.update_keeps [OF assms(1,2) keeps_punished] by blast
  moreover have "list_nHeight L' = list_nHeight L"
    using L'(1) assms(2) by (auto simp: UpdateMN_def GetMN_def dest: UpdateMN_dmn_fields(2))
  ultimately show ?thesis unfolding eq by (intro exI [of _ L'] conjI) auto
qed

text \<open>One block of forgiveness.\<close>

definition forgiven :: "CDeterministicMNState \<Rightarrow> CDeterministicMNState" where
  "forgiven st = (if nPoSePenalty st > 0 \<and> \<not> IsBanned st then st\<lparr>nPoSePenalty := nPoSePenalty st - 1\<rparr> else st)"

lemma sum_fold_frame: "(\<And>x s s'. f x s = Inr s' \<Longrightarrow> g s' = g s) \<Longrightarrow> sum_fold f xs s = Inr s' \<Longrightarrow> g s' = g s"
  by (induction xs arbitrary: s) (auto simp: sum_bind_ok)

lemma DecreaseScores_spec:
  assumes "list_ok H L"
  shows "\<exists>L'. DecreaseScores H L = Inr L' \<and> list_ok H L' \<and> list_nHeight L' = list_nHeight L \<and>
    GetMN L' = (\<lambda>h. map_option (pdmnState_update forgiven) (GetMN L h))"
proof -
  let ?xs = "filter (\<lambda>d. nPoSePenalty (pdmnState d) > 0) (ForEachMN L True)"
  let ?F = "\<lambda>_ st. st\<lparr>nPoSePenalty := nPoSePenalty st - 1\<rparr>"
  have inv: "mnl_inv H L" using assms by blast
  have found: "GetMN L (proTxHash x) = Some x \<and> nPoSePenalty (pdmnState x) > 0 \<and> \<not> IsBanned (pdmnState x)" if "x \<in> set ?xs" for x
    using that ForEachMN_found [OF inv, of x True] by (auto simp: ForEachMN_def IsMNValid_def IsMNPoSeBanned_def)
  have dist: "distinct (map proTxHash ?xs)"
    by (rule distinct_map_filter [OF distinct_ForEachMN_hashes [OF inv]])
  have "\<exists>L'. sum_fold (PoSeDecrease H) ?xs L = Inr L' \<and> GetMN L' = updated_at proTxHash ?F ?xs (GetMN L) \<and> list_ok H L'"
  proof (rule mnl.update_loop)
    show "list_ok H L" "distinct (map proTxHash ?xs)" "\<forall>x\<in>set ?xs. GetMN L (proTxHash x) = GetMN L (proTxHash x)" using assms dist by simp_all
  next
    fix x d L1 assume x: "x \<in> set ?xs" and d: "GetMN L1 (proTxHash x) = Some d" "GetMN L (proTxHash x) = Some d"
    then have "d = x" using found [OF x] by simp
    then show "PoSeDecrease H x L1 = UpdateMN H (proTxHash x) (?F x (pdmnState d)) L1"
      using found [OF x] d(1) unfolding PoSeDecrease_def UpdateMN_def GetMN_def by simp
  next
    fix x L1 assume "x \<in> set ?xs" "GetMN L (proTxHash x) = None"
    then show "PoSeDecrease H x L1 = Inr L1" using found [of x] by simp
  qed (simp add: keeps_props_def)
  then obtain L' where L': "DecreaseScores H L = Inr L'" "GetMN L' = updated_at proTxHash ?F ?xs (GetMN L)" "list_ok H L'"
    unfolding DecreaseScores_def by blast
  have "updated_at proTxHash ?F ?xs (GetMN L) h = map_option (pdmnState_update forgiven) (GetMN L h)" for h
  proof (cases "h \<in> proTxHash ` set ?xs")
    case True
    then obtain x where x: "x \<in> set ?xs" "h = proTxHash x" by blast
    show ?thesis unfolding x(2) updated_at_found [OF x(1) dist] using found [OF x(1)] by (simp add: forgiven_def)
  next
    case False
    have "pdmnState_update forgiven d = d" if d: "GetMN L h = Some d" for d
    proof -
      have "d \<in> snd ` set (mnMap L)" "proTxHash d = h" using d registryD(1) [OF mnl_invD(2) [OF inv] d] member_iff [OF inv, of d] by auto
      then have "d \<notin> set ?xs" using False by blast
      then have "forgiven (pdmnState d) = pdmnState d"
        using \<open>d \<in> snd ` set (mnMap L)\<close> by (auto simp: ForEachMN_def forgiven_def IsMNValid_def IsMNPoSeBanned_def)
      then show ?thesis by simp
    qed
    then show ?thesis unfolding updated_at_other [OF False] by (cases "GetMN L h") simp_all
  qed
  moreover have "list_nHeight L' = list_nHeight L"
    using L'(1) unfolding DecreaseScores_def
    by (rule sum_fold_frame [rotated]) (auto simp: PoSeDecrease_def split: if_splits dest: UpdateMN_dmn_fields(2))
  ultimately show ?thesis using L' by auto
qed

text \<open>Blocks in which nothing happens to a masternode but the forgiveness of \<^verbatim>\<open>DecreaseScores\<close>.\<close>

definition blocks_pass :: "(uprop \<Rightarrow> uint256) \<Rightarrow> nat \<Rightarrow> CDeterministicMNList \<Rightarrow> abort + CDeterministicMNList" where
  "blocks_pass H k L = sum_fold (\<lambda>_. DecreaseScores H) (replicate k ()) L"

lemma blocks_pass_spec:
  assumes "list_ok H L"
  shows "\<exists>L'. blocks_pass H k L = Inr L' \<and> list_ok H L' \<and> list_nHeight L' = list_nHeight L \<and>
    GetMN L' = (\<lambda>h. map_option (pdmnState_update (forgiven ^^ k)) (GetMN L h))"
  using assms
proof (induction k arbitrary: L)
  case 0
  have "map_option (pdmnState_update (forgiven ^^ 0)) (GetMN L h) = GetMN L h" for h by (cases "GetMN L h") simp_all
  then have "GetMN L = (\<lambda>h. map_option (pdmnState_update (forgiven ^^ 0)) (GetMN L h))" by (intro ext) (rule sym)
  moreover have "blocks_pass H 0 L = Inr L" by (simp add: blocks_pass_def)
  ultimately show ?case using 0 by blast
next
  case (Suc k)
  obtain L1 where L1: "DecreaseScores H L = Inr L1" "list_ok H L1" "list_nHeight L1 = list_nHeight L"
      "GetMN L1 = (\<lambda>h. map_option (pdmnState_update forgiven) (GetMN L h))"
    using DecreaseScores_spec [OF Suc.prems] by blast
  obtain L2 where L2: "blocks_pass H k L1 = Inr L2" "list_ok H L2" "list_nHeight L2 = list_nHeight L1"
      "GetMN L2 = (\<lambda>h. map_option (pdmnState_update (forgiven ^^ k)) (GetMN L1 h))"
    using Suc.IH [OF L1(2)] by blast
  have "GetMN L2 = (\<lambda>h. map_option (pdmnState_update (forgiven ^^ Suc k)) (GetMN L h))"
    unfolding L2(4) L1(4) by (simp add: option.map_comp comp_def funpow_swap1)
  moreover have "blocks_pass H (Suc k) L = Inr L2" using L1(1) L2(1) by (simp add: blocks_pass_def)
  ultimately show ?case using L1(3) L2(2,3) by metis
qed

lemma forgiven_iter:
  "0 \<le> nPoSePenalty st \<Longrightarrow> IsBanned ((forgiven ^^ k) st) = IsBanned st \<and>
     nPoSePenalty ((forgiven ^^ k) st) = (if IsBanned st then nPoSePenalty st else max 0 (nPoSePenalty st - int k))"
proof (induction k)
  case (Suc k)
  have "IsBanned (forgiven st) = IsBanned st \<and>
      nPoSePenalty (forgiven st) = (if nPoSePenalty st > 0 \<and> \<not> IsBanned st then nPoSePenalty st - 1 else nPoSePenalty st)" for st
    by (simp add: forgiven_def IsBanned_def)
  then show ?case using Suc by auto
qed simp

lemma forgiven_bans: "nPoSeBanHeight ((forgiven ^^ k) st) = nPoSeBanHeight st"
  by (induction k) (simp_all add: forgiven_def)

lemma two_punishments:
  fixes k :: nat
  assumes fresh: "\<not> IsBanned st" and score: "0 \<le> nPoSePenalty st" and height: "height \<noteq> -1" and p: "0 < p" "p < m"
  defines "e \<equiv> punished m height p ((forgiven ^^ k) (punished m height p st))"
  shows "int k \<le> 2 * p - m \<longrightarrow> nPoSeBanHeight e = height"
    "nPoSePenalty st = 0 \<and> p \<le> int k \<longrightarrow> \<not> IsBanned e \<and> nPoSePenalty e = p"
proof -
  let ?s1 = "punished m height p st" let ?s2 = "(forgiven ^^ k) ?s1"
  have pen1: "nPoSePenalty ?s1 = min m (nPoSePenalty st + p)" and ban1: "IsBanned ?s1 = (nPoSePenalty st + p \<ge> m)"
      "IsBanned ?s1 \<Longrightarrow> nPoSeBanHeight ?s1 = height"
    using fresh height by (auto simp: punished_def Let_def IsBanned_def split: if_splits)
  have s2: "IsBanned ?s2 = IsBanned ?s1" "nPoSeBanHeight ?s2 = nPoSeBanHeight ?s1"
      "nPoSePenalty ?s2 = (if IsBanned ?s1 then nPoSePenalty ?s1 else max 0 (nPoSePenalty ?s1 - int k))"
    using forgiven_iter [of ?s1 k] forgiven_bans [of k ?s1] pen1 score p by auto
  have e: "nPoSePenalty e = min m (nPoSePenalty ?s2 + p)"
      "IsBanned e = (IsBanned ?s2 \<or> nPoSePenalty ?s2 + p \<ge> m)"
      "nPoSeBanHeight e = (if nPoSePenalty ?s2 + p \<ge> m \<and> \<not> IsBanned ?s2 then height else nPoSeBanHeight ?s2)"
    unfolding e_def using height by (auto simp: punished_def Let_def IsBanned_def)
  show "int k \<le> 2 * p - m \<longrightarrow> nPoSeBanHeight e = height"
    unfolding e(3) s2 using ban1 pen1 score by auto
  show "nPoSePenalty st = 0 \<and> p \<le> int k \<longrightarrow> \<not> IsBanned e \<and> nPoSePenalty e = p"
    unfolding e(1,2) s2 using ban1 pen1 p by auto
qed

section \<open>Commitments\<close>

lemma sorted_rank:
  fixes xs :: "'a :: linorder list"
  assumes "sorted xs" "distinct xs" "i < length xs"
  shows "card {y \<in> set xs. y < xs ! i} = i"
proof -
  have "{y \<in> set xs. y < xs ! i} = (!) xs ` {..<i}"
  proof (intro set_eqI iffI)
    fix y assume "y \<in> {y \<in> set xs. y < xs ! i}"
    then obtain j where j: "j < length xs" "y = xs ! j" "xs ! j < xs ! i" by (auto simp: in_set_conv_nth)
    then have "j < i" using sorted_nth_mono [OF assms(1), of i j] by (meson leD not_le_imp_less)
    then show "y \<in> (!) xs ` {..<i}" using j(2) by blast
  next
    fix y assume "y \<in> (!) xs ` {..<i}"
    then show "y \<in> {y \<in> set xs. y < xs ! i}" using sorted_distinct_nth_less [OF assms(1,2)] assms(3) by auto
  qed
  moreover have "inj_on ((!) xs) {..<i}" using assms(2,3) by (auto simp: inj_on_def nth_eq_iff_index_eq)
  ultimately show ?thesis by (simp add: card_image)
qed

lemma keeps_service: "keeps_props st (service_state c i mass enforce height p st)"
  by (simp add: keeps_props_def service_state_def Let_def)

text \<open>The index of a masternode in a commitment: how many hashes of the epoch-base list are smaller.\<close>

definition epoch_rank :: "CDeterministicMNList \<Rightarrow> uint256 \<Rightarrow> nat" where
  "epoch_rank B h = card {g \<in> dom (GetMN B). g < h}"

lemma dom_GetMN: "dom (GetMN L) = fst ` set (mnMap L)"
  by (simp add: GetMN_def dom_map_of_conv_image_fst [symmetric] dom_def)

lemma epoch_order:
  assumes "mnl_inv H B"
  defines "order \<equiv> sort (map proTxHash (ForEachMN B False))"
  shows "set order = dom (GetMN B)" "distinct order" "length order = GetAllMNsCount B"
    "i < length order \<Longrightarrow> epoch_rank B (order ! i) = i"
proof -
  have m: "map proTxHash (ForEachMN B False) = map fst (mnMap B)" using mnl_inv_hashes [OF assms(1)] by (simp add: ForEachMN_def)
  show set: "set order = dom (GetMN B)" by (simp only: order_def set_sort m dom_GetMN set_map)
  show dist: "distinct order" by (simp only: order_def distinct_sort m mnl_invD(1) [OF assms(1)])
  show "length order = GetAllMNsCount B" by (simp only: order_def length_sort m length_map GetAllMNsCount_def)
  show "epoch_rank B (order ! i) = i" if "i < length order"
    using sorted_rank [OF _ dist that] by (simp add: epoch_rank_def set [symmetric] order_def)
qed

lemma apply_service_loop:
  assumes L: "list_ok H L" and order: "distinct order" and rank: "\<And>i. i < length order \<Longrightarrow> r (order ! i) = i"
  shows "\<exists>L'. sum_fold (apply_service_at H c mass enforce height p) (enumerate 0 order) L = Inr L' \<and> list_ok H L' \<and>
    GetMN L' = (\<lambda>h. map_option (\<lambda>d. if h \<in> set order then d\<lparr>pdmnState := service_state c (r h) mass enforce height p (pdmnState d)\<rparr> else d) (GetMN L h))"
proof -
  let ?xs = "enumerate 0 order" and ?F = "\<lambda>x. service_state c (fst x) mass enforce height p"
  have dist: "distinct (map snd ?xs)" using order by simp
  have "\<exists>L'. sum_fold (apply_service_at H c mass enforce height p) ?xs L = Inr L' \<and> GetMN L' = updated_at snd ?F ?xs (GetMN L) \<and> list_ok H L'"
  proof (rule mnl.update_loop)
    show "list_ok H L" "distinct (map snd ?xs)" "\<forall>x\<in>set ?xs. GetMN L (snd x) = GetMN L (snd x)" using L dist by simp_all
  qed (simp_all add: apply_service_at_def keeps_service)
  then obtain L' where L': "sum_fold (apply_service_at H c mass enforce height p) ?xs L = Inr L'" "GetMN L' = updated_at snd ?F ?xs (GetMN L)" "list_ok H L'"
    by blast
  have "updated_at snd ?F ?xs (GetMN L) h =
      map_option (\<lambda>d. if h \<in> set order then d\<lparr>pdmnState := service_state c (r h) mass enforce height p (pdmnState d)\<rparr> else d) (GetMN L h)" for h
  proof (cases "h \<in> set order")
    case True
    then obtain i where i: "i < length order" "order ! i = h" by (auto simp: in_set_conv_nth)
    then have x: "(i, h) \<in> set ?xs" by (auto simp: in_set_enumerate_eq)
    show ?thesis using updated_at_found [OF x dist, of ?F "GetMN L"] rank [OF i(1)] i(2) True by simp
  next
    case False
    then have "h \<notin> snd ` set ?xs" by (metis list.set_map map_snd_enumerate)
    then show ?thesis using False by (simp add: updated_at_other option.map_ident)
  qed
  then show ?thesis using L' by auto
qed

lemma unat_u64: "n < 2 ^ 64 \<Longrightarrow> unat (of_nat n :: u64) = n"
  by (simp add: unsigned_of_nat take_bit_nat_eq_self)

lemma mass_outage_nat:
  assumes "n < 2 ^ 32" "m \<le> n" "0 \<le> pct" "pct \<le> 100"
  shows "((of_nat n :: u64) > 0 \<and> (of_int (int m) :: u64) * 100 \<ge> of_nat n * of_int pct) = (n > 0 \<and> 100 * m \<ge> n * nat pct)"
proof -
  have "n * nat pct \<le> n * 100" using assms(4) by (intro mult_le_mono2) simp
  also have "\<dots> < 2 ^ 64" using assms(1) by simp
  finally have fits: "n < 2 ^ 64" "m * 100 < 2 ^ 64" "n * nat pct < 2 ^ 64" using assms(1,2) by simp_all
  have "(of_int (int m) :: u64) * 100 = of_nat (m * 100)" "(of_nat n :: u64) * of_int pct = of_nat (n * nat pct)"
    using assms(3) by (simp_all add: of_nat_nat)
  then show ?thesis using fits [THEN unat_u64] by (simp add: word_le_nat_alt word_less_nat_alt mult.commute del: of_nat_mult)
qed

text \<open>What a commitment leaves of the map of the list.\<close>

definition service_verdicts ::
  "CPoSeServiceCommitment \<Rightarrow> CDeterministicMNList \<Rightarrow> int \<Rightarrow> Params \<Rightarrow> (uint256 \<Rightarrow> CDeterministicMN option) \<Rightarrow> uint256 \<Rightarrow> CDeterministicMN option" where
  "service_verdicts c B height p R h =
     (let n = card (dom (GetMN B));
          mass = (n > 0 \<and> 100 * length (filter id (sc_missed c)) \<ge> n * nat (nDSLMassOutagePct p)) in
      if n = length (sc_missed c) \<and> (sc_nVersion c \<ge> OBSERVED_VERSION \<longrightarrow> length (sc_observed c) = n) \<and> GetMN B h \<noteq> None
      then map_option (pdmnState_update (service_state c (epoch_rank B h) mass (height \<ge> nDSLEnforcementHeight p) height p)) (R h)
      else R h)"

text \<open>\<^bold>\<open>C11\<close>: \<^verbatim>\<open>ApplyServiceCommitment\<close> never throws on a consistent list and keeps it consistent. A commitment whose
  bitmaps do not have the size of the epoch-base list changes nothing. Otherwise exactly the masternodes of the epoch base that are
  still registered get a verdict, each the one stored at the number of smaller hashes in the base (its rank, so the order in which
  the list is stored does not matter); the \<^verbatim>\<open>uint64_t\<close> comparison that suspends verdicts in a mass outage is the
  comparison of percentages; and a verdict changes the four service fields of a state only.\<close>

theorem service_commitment_exact:
  assumes L: "inj H" "mnl_inv H L" and B: "mnl_inv H B"
    and small: "GetAllMNsCount B < 2 ^ 32" and pct: "0 \<le> nDSLMassOutagePct p" "nDSLMassOutagePct p \<le> 100"
  shows "\<exists>L'. ApplyServiceCommitment H c B height p L = Inr L' \<and> mnl_inv H L' \<and>
    GetMN L' = service_verdicts c B height p (GetMN L) \<and>
    (\<forall>i mass enforce st. (service_state c i mass enforce height p st)
       \<lparr>nLastServiceEpoch := nLastServiceEpoch st, nMissedEpochs := nMissedEpochs st,
        fRewardSuspended := fRewardSuspended st, nDSLBanHeight := nDSLBanHeight st\<rparr> = st)"
proof -
  define order where "order = sort (map proTxHash (ForEachMN B False))"
  note order = epoch_order [OF B, folded order_def]
  have frame: "\<forall>i mass enforce st. (service_state c i mass enforce height p st)
       \<lparr>nLastServiceEpoch := nLastServiceEpoch st, nMissedEpochs := nMissedEpochs st,
        fRewardSuspended := fRewardSuspended st, nDSLBanHeight := nDSLBanHeight st\<rparr> = st"
    by (simp add: service_state_def Let_def)
  have n: "length order = card (dom (GetMN B))" using order(1,2) by (metis distinct_card)
  let ?missed = "length (filter id (sc_missed c))"
  let ?mass = "length order > 0 \<and> 100 * ?missed \<ge> length order * nat (nDSLMassOutagePct p)"
  let ?fits = "length order = length (sc_missed c) \<and> (sc_nVersion c \<ge> OBSERVED_VERSION \<longrightarrow> length (sc_observed c) = length order)"
  show ?thesis
  proof (cases ?fits)
    case True
    have m: "((of_nat (length order) :: u64) > 0 \<and> (of_int (CountMissed c) :: u64) * 100 \<ge> of_nat (length order) * of_int (nDSLMassOutagePct p)) = ?mass"
      unfolding CountMissed_def
      by (rule mass_outage_nat [OF _ _ pct]) (use small order(3) True length_filter_le [of id "sc_missed c"] in simp_all)
    have "ApplyServiceCommitment H c B height p L =
        sum_fold (apply_service_at H c ?mass (height \<ge> nDSLEnforcementHeight p) height p) (enumerate 0 order) L"
      unfolding ApplyServiceCommitment_def Let_def order_def [symmetric] m using True by (auto simp del: sum_fold.simps)
    moreover have "(\<lambda>h. map_option (\<lambda>d. if h \<in> set order then d\<lparr>pdmnState := service_state c (epoch_rank B h) ?mass (height \<ge> nDSLEnforcementHeight p) height p (pdmnState d)\<rparr> else d) (GetMN L h))
        = service_verdicts c B height p (GetMN L)"
    proof
      fix h
      show "map_option (\<lambda>d. if h \<in> set order then d\<lparr>pdmnState := service_state c (epoch_rank B h) ?mass (height \<ge> nDSLEnforcementHeight p) height p (pdmnState d)\<rparr> else d) (GetMN L h)
          = service_verdicts c B height p (GetMN L) h"
        using True unfolding service_verdicts_def Let_def n [symmetric] order(1)
        by (cases "GetMN L h") (auto simp: dom_def simp del: n)
    qed
    ultimately show ?thesis
      using apply_service_loop [of H L order "epoch_rank B" c ?mass "height \<ge> nDSLEnforcementHeight p" height p] L order(2,4) frame by auto
  next
    case False
    then have "ApplyServiceCommitment H c B height p L = Inr L"
      unfolding ApplyServiceCommitment_def Let_def order_def [symmetric] by auto
    moreover have "service_verdicts c B height p (GetMN L) = GetMN L"
      using False unfolding service_verdicts_def [abs_def] Let_def n [symmetric] by (intro ext) auto
    ultimately show ?thesis using L frame by simp
  qed
qed

theorem service_commitment_exact_witness:
  "\<exists>L L'. mnl_inv example_prop_hash L \<and> ApplyServiceCommitment example_prop_hash
       (example_commitment\<lparr>sc_missed := [True, False], sc_observed := [True, True]\<rparr>) L 0 (main_params\<lparr>nDSLMassOutagePct := 60\<rparr>) L = Inr L' \<and>
     nMissedEpochs (pdmnState (the (GetMN L' [1]))) = 1 \<and> nMissedEpochs (pdmnState (the (GetMN L' [2]))) = 0"
proof -
  let ?c = "example_commitment\<lparr>sc_missed := [True, False], sc_observed := [True, True]\<rparr>" and ?p = "main_params\<lparr>nDSLMassOutagePct := 60\<rparr>"
  obtain L where L: "mnl_inv example_prop_hash L" "mnMap L = [([2], example_mn 2), ([1], example_mn 1)]" "GetMN L = [[2] \<mapsto> example_mn 2, [1] \<mapsto> example_mn 1]"
    using example_pair [of 2 1] by auto
  have d: "dom (GetMN L) = {[1], [2]}" unfolding L(3) by auto
  have "{g. (g = [1] \<or> g = [2]) \<and> g < ([1] :: uint256)} = {}" "{g. (g = [1] \<or> g = [2]) \<and> g < ([2] :: uint256)} = {[1]}"
    by (auto simp: list_less_def)
  then have r: "epoch_rank L [1] = 0" "epoch_rank L [2] = 1" by (simp_all add: epoch_rank_def d)
  have "GetAllMNsCount L < 2 ^ 32" by (simp add: GetAllMNsCount_def L(2))
  from service_commitment_exact [OF inj_example_prop_hash L(1) L(1) this, of ?p ?c 0]
  obtain L' where "ApplyServiceCommitment example_prop_hash ?c L 0 ?p L = Inr L'" "GetMN L' = service_verdicts ?c L 0 ?p (GetMN L)"
    by auto
  moreover have "nMissedEpochs (pdmnState (the (service_verdicts ?c L 0 ?p (GetMN L) [1]))) = 1"
      "nMissedEpochs (pdmnState (the (service_verdicts ?c L 0 ?p (GetMN L) [2]))) = 0"
    unfolding service_verdicts_def d r
    by (simp_all add: L(3) example_commitment_def service_state_def IsObserved_def example_mn_def MNState_default_def OBSERVED_VERSION_def Let_def)
  ultimately show ?thesis using L(1) by auto
qed

text \<open>\<^bold>\<open>C10\<close>: a masternode that fails twice is banned. On a consistent list, \<^verbatim>\<open>CalcPenalty(66)\<close> returns a positive
  penalty \<open>p\<close> below the maximum \<open>m\<close>. Punishing an unbanned masternode with it, letting \<open>k\<close> blocks of \<^verbatim>\<open>DecreaseScores\<close> pass
  and punishing it again never throws. If \<open>k \<le> 2 * p - m\<close> the masternode is banned at the end, at the height of one of the two
  failures; if it started without a penalty and \<open>p \<le> k\<close> the first failure is forgotten and it is not banned.\<close>

theorem two_failures_ban:
  assumes L: "inj H" "mnl_inv H L" and d: "GetMN L h = Some d" and fresh: "\<not> IsBanned (pdmnState d)"
    and score: "0 \<le> nPoSePenalty (pdmnState d)" and height: "list_nHeight L \<noteq> -1"
  shows "\<exists>p L1 L2 L3 e. CalcPenalty L 66 = Inr p \<and> 0 < p \<and> p < CalcMaxPoSePenalty L \<and>
    PoSePunish H h p L = Inr L1 \<and> blocks_pass H k L1 = Inr L2 \<and> PoSePunish H h p L2 = Inr L3 \<and> GetMN L3 h = Some e \<and>
    (int k \<le> 2 * p - CalcMaxPoSePenalty L \<longrightarrow> nPoSeBanHeight (pdmnState e) = list_nHeight L) \<and>
    (nPoSePenalty (pdmnState d) = 0 \<and> p \<le> int k \<longrightarrow> \<not> IsBanned (pdmnState e) \<and> nPoSePenalty (pdmnState e) = p)"
proof -
  let ?m = "CalcMaxPoSePenalty L"
  define p where "p = ?m * 66 div 100"
  have m: "100 \<le> ?m" by (simp add: CalcMaxPoSePenalty_def)
  have p: "CalcPenalty L 66 = Inr p" "0 < p" "p < ?m"
    using m by (simp_all add: CalcPenalty_def p_def cdiv_def)
  let ?s = "pdmnState d" and ?P = "punished ?m (list_nHeight L) p"
  obtain L1 where L1: "PoSePunish H h p L = Inr L1" "list_ok H L1" "list_nHeight L1 = list_nHeight L"
      "GetMN L1 = (GetMN L)(h \<mapsto> d\<lparr>pdmnState := ?P ?s\<rparr>)"
    using PoSePunish_spec [of H L h d p] L d p(2) by blast
  obtain L2 where L2: "blocks_pass H k L1 = Inr L2" "list_ok H L2" "list_nHeight L2 = list_nHeight L1"
      "GetMN L2 = (\<lambda>h. map_option (pdmnState_update (forgiven ^^ k)) (GetMN L1 h))"
    using blocks_pass_spec [OF L1(2)] by blast
  let ?s2 = "(forgiven ^^ k) (?P ?s)"
  have d2: "GetMN L2 h = Some (d\<lparr>pdmnState := ?s2\<rparr>)" unfolding L2(4) L1(4) by simp
  have "dom (GetMN L2) = dom (GetMN L)" unfolding L2(4) L1(4) using d by (auto split: if_splits)
  then have m2: "CalcMaxPoSePenalty L2 = ?m" using max_penalty_dom L(2) L2(2) by metis
  obtain L3 where L3: "PoSePunish H h p L2 = Inr L3" "GetMN L3 h = Some (d\<lparr>pdmnState := ?P ?s2\<rparr>)"
    using PoSePunish_spec [OF L2(2) d2 p(2)] unfolding m2 L2(3) L1(3) by auto
  show ?thesis using p L1(1) L2(1) L3 two_punishments [OF fresh score height p(2,3), of k]
    by (intro exI [of _ p] exI [of _ L1] exI [of _ L2] exI [of _ L3] exI [of _ "d\<lparr>pdmnState := ?P ?s2\<rparr>"] conjI) simp_all
qed

theorem two_failures_ban_witness:
  "\<exists>L L1 L2 L3. mnl_inv example_prop_hash L \<and> PoSePunish example_prop_hash [1] 66 L = Inr L1 \<and>
     blocks_pass example_prop_hash 32 L1 = Inr L2 \<and> PoSePunish example_prop_hash [1] 66 L2 = Inr L3 \<and>
     nPoSeBanHeight (pdmnState (the (GetMN L3 [1]))) = 500"
proof -
  obtain L0 where L0: "mnl_inv example_prop_hash L0" "mnMap L0 = [([2], example_mn 2), ([1], example_mn 1)]" "GetMN L0 = [[2] \<mapsto> example_mn 2, [1] \<mapsto> example_mn 1]"
    using example_pair [of 2 1] by auto
  let ?L = "L0\<lparr>list_nHeight := 500\<rparr>"
  have L: "mnl_inv example_prop_hash ?L" using L0(1) by (simp add: mnl_inv_def GetMN_def)
  have d: "GetMN ?L [1] = Some (example_mn 1)" using L0(2) by (simp add: GetMN_def)
  have "CalcPenalty ?L 66 = Inr 66" "CalcMaxPoSePenalty ?L = 100" by (simp_all add: CalcPenalty_def CalcMaxPoSePenalty_def GetAllMNsCount_def L0(2) cdiv_def)
  then show ?thesis
    using two_failures_ban [OF inj_example_prop_hash L d, of 32] L
    by - (rule exI [of _ ?L], auto simp: example_mn_def MNState_default_def IsBanned_def)
qed

end
