(* ===== verification/Masternode_Diff.thy ===== *)
theory Masternode_Diff
  imports Masternode_Service "HOL-Library.Multiset"
begin

text \<open>
  Differences of masternode lists: \<^verbatim>\<open>CDeterministicMNListDiff\<close>, \<^verbatim>\<open>BuildDiff\<close> and \<^verbatim>\<open>ApplyDiff\<close> of
  \<^verbatim>\<open>src/src/evo/deterministicmns.h\<close> and \<^verbatim>\<open>src/src/evo/deterministicmns.cpp\<close>. A node stores a full list now and then and a difference
  for every block in between; the lists in between are the stored list with the differences applied. The property is
  that this gives the list back, in whatever order the hash map of updates is iterated.
\<close>

section \<open>Model\<close>

text \<open>\<open>updatedMNs\<close> is an unordered map: its entries in some order. \<^verbatim>\<open>emplace\<close> keeps an entry that is there. The pointer
  comparisons that spare \<^verbatim>\<open>BuildDiff\<close> equal states decide nothing: equal states have an empty difference.\<close>

record CDeterministicMNListDiff =
  addedMNs :: "CDeterministicMN list"
  updatedMNs :: "(u64 \<times> CDeterministicMNStateDiff) list"
  removedMns :: "u64 list"

definition emplace :: "'k \<Rightarrow> 'v \<Rightarrow> ('k \<times> 'v) list \<Rightarrow> ('k \<times> 'v) list" where
  "emplace k v m = (if map_of m k = None then m @ [(k, v)] else m)"

definition diff_update ::
  "(CBLSLazyPublicKey \<Rightarrow> uint256) \<Rightarrow> CDeterministicMNList \<Rightarrow> CDeterministicMN \<Rightarrow> CDeterministicMNListDiff \<Rightarrow> abort + CDeterministicMNListDiff" where
  "diff_update key_hash L toPtr diffRet =
     (case GetMN L (proTxHash toPtr) of
        None \<Rightarrow> Inr (diffRet\<lparr>addedMNs := addedMNs diffRet @ [toPtr]\<rparr>)
      | Some fromPtr \<Rightarrow>
          let stateDiff = CDeterministicMNStateDiff_of key_hash (pdmnState fromPtr) (pdmnState toPtr) in
          if diff_fields stateDiff \<noteq> 0
          then map_sum id (\<lambda>i. diffRet\<lparr>updatedMNs := emplace i stateDiff (updatedMNs diffRet)\<rparr>) (GetInternalId toPtr)
          else Inr diffRet)"

definition diff_removed :: "CDeterministicMNList \<Rightarrow> CDeterministicMN \<Rightarrow> CDeterministicMNListDiff \<Rightarrow> abort + CDeterministicMNListDiff" where
  "diff_removed to fromPtr diffRet =
     (case GetMN to (proTxHash fromPtr) of
        None \<Rightarrow> map_sum id (\<lambda>i. diffRet\<lparr>removedMns := insort_insert i (removedMns diffRet)\<rparr>) (GetInternalId fromPtr)
      | Some _ \<Rightarrow> Inr diffRet)"

definition BuildDiff ::
  "(CBLSLazyPublicKey \<Rightarrow> uint256) \<Rightarrow> CDeterministicMNList \<Rightarrow> CDeterministicMNList \<Rightarrow> abort + CDeterministicMNListDiff" where
  "BuildDiff key_hash L to =
     sum_bind (sum_fold (diff_update key_hash L) (ForEachMN to False) \<lparr>addedMNs = [], updatedMNs = [], removedMns = []\<rparr>) (\<lambda>diffRet.
     sum_bind (sum_fold (diff_removed to) (ForEachMN L False) diffRet) (\<lambda>diffRet.
       if length (addedMNs diffRet) > 1 \<and> list_ex (\<lambda>dmn. internalId dmn = - 1) (addedMNs diffRet) then Inl AssertFailed
       else Inr (diffRet\<lparr>addedMNs := sort_key internalId (addedMNs diffRet)\<rparr>)))"

definition apply_removed :: "(uprop \<Rightarrow> uint256) \<Rightarrow> u64 \<Rightarrow> CDeterministicMNList \<Rightarrow> abort + CDeterministicMNList" where
  "apply_removed H i result = (case GetMNByInternalId result i of None \<Rightarrow> Inl Thrown | Some dmn \<Rightarrow> RemoveMN H (proTxHash dmn) result)"

definition apply_updated :: "(uprop \<Rightarrow> uint256) \<Rightarrow> u64 \<times> CDeterministicMNStateDiff \<Rightarrow> CDeterministicMNList \<Rightarrow> abort + CDeterministicMNList" where
  "apply_updated H e result = (case GetMNByInternalId result (fst e) of None \<Rightarrow> Inl Thrown | Some dmn \<Rightarrow> UpdateMN_diff H dmn (snd e) result)"

definition ApplyDiff ::
  "(uprop \<Rightarrow> uint256) \<Rightarrow> CBlockIndex \<Rightarrow> CDeterministicMNListDiff \<Rightarrow> CDeterministicMNList \<Rightarrow> abort + CDeterministicMNList" where
  "ApplyDiff H pindex diff L =
     sum_bind (GetBlockHash pindex) (\<lambda>hash.
       let result = L\<lparr>list_blockHash := hash, list_nHeight := nHeight pindex\<rparr> in
       sum_bind (sum_fold (apply_removed H) (removedMns diff) result) (\<lambda>result.
       sum_bind (sum_fold (\<lambda>dmn. AddMN H dmn True) (addedMNs diff) result)
         (sum_fold (apply_updated H) (updatedMNs diff))))"

definition HasChanges :: "CDeterministicMNListDiff \<Rightarrow> bool" where
  "HasChanges diff \<longleftrightarrow> addedMNs diff \<noteq> [] \<or> updatedMNs diff \<noteq> [] \<or> removedMns diff \<noteq> []"

section \<open>What a difference holds\<close>

definition change_of ::
  "(CBLSLazyPublicKey \<Rightarrow> uint256) \<Rightarrow> CDeterministicMNList \<Rightarrow> CDeterministicMN \<Rightarrow> (u64 \<times> CDeterministicMNStateDiff) option" where
  "change_of key_hash A d =
     (case GetMN A (proTxHash d) of
        None \<Rightarrow> None
      | Some a \<Rightarrow> let df = CDeterministicMNStateDiff_of key_hash (pdmnState a) (pdmnState d) in
          if diff_fields df \<noteq> 0 then Some (internalId d, df) else None)"

lemma change_of_iff:
  assumes "inj key_hash"
  shows "change_of key_hash A d = Some e \<longleftrightarrow> (\<exists>a. GetMN A (proTxHash d) = Some a \<and> pdmnState a \<noteq> pdmnState d \<and>
    e = (internalId d, CDeterministicMNStateDiff_of key_hash (pdmnState a) (pdmnState d)))"
  using state_diff_empty [OF assms] by (auto simp: change_of_def Let_def split: option.splits)

lemma diff_update_loop:
  assumes "distinct (map fst (updatedMNs D) @ map internalId ds)" "\<forall>d\<in>set ds. internalId d \<noteq> - 1"
  shows "sum_fold (diff_update key_hash A) ds D =
    Inr (D\<lparr>addedMNs := addedMNs D @ filter (\<lambda>d. GetMN A (proTxHash d) = None) ds,
           updatedMNs := updatedMNs D @ List.map_filter (change_of key_hash A) ds\<rparr>)"
  using assms
proof (induction ds arbitrary: D)
  case (Cons d ds)
  have new: "map_of (updatedMNs D) (internalId d) = None" using Cons.prems(1) by (auto simp: map_of_eq_None_iff)
  show ?case
  proof (cases "change_of key_hash A d")
    case None
    then have "diff_update key_hash A d D = Inr (if GetMN A (proTxHash d) = None then D\<lparr>addedMNs := addedMNs D @ [d]\<rparr> else D)"
      by (auto simp: diff_update_def change_of_def Let_def split: option.splits if_splits)
    then show ?thesis using Cons None by (auto simp: map_filter_simps)
  next
    case (Some e)
    then have "fst e = internalId d" "diff_update key_hash A d D = Inr (D\<lparr>updatedMNs := updatedMNs D @ [e]\<rparr>)" "GetMN A (proTxHash d) \<noteq> None"
      using Cons.prems(2) new by (auto simp: diff_update_def change_of_def Let_def GetInternalId_def emplace_def split: option.splits if_splits)
    then show ?thesis using Cons Some by (auto simp: map_filter_simps)
  qed
qed (simp add: map_filter_simps)

lemma diff_removed_loop:
  assumes "distinct (removedMns D)" "\<forall>a\<in>set as. internalId a \<noteq> - 1"
  shows "\<exists>rs. sum_fold (diff_removed B) as D = Inr (D\<lparr>removedMns := rs\<rparr>) \<and> distinct rs \<and>
    set rs = set (removedMns D) \<union> {internalId a |a. a \<in> set as \<and> GetMN B (proTxHash a) = None}"
  using assms
proof (induction as arbitrary: D)
  case Nil
  then show ?case by (intro exI [of _ "removedMns D"]) simp
next
  case (Cons a as)
  let ?D = "if GetMN B (proTxHash a) = None then D\<lparr>removedMns := insort_insert (internalId a) (removedMns D)\<rparr> else D"
  have "diff_removed B a D = Inr ?D"
    using Cons.prems(2) by (auto simp: diff_removed_def GetInternalId_def split: option.splits)
  moreover have "distinct (removedMns ?D)" using Cons.prems(1) by (simp add: distinct_insort_insert)
  then obtain rs where "sum_fold (diff_removed B) as ?D = Inr (?D\<lparr>removedMns := rs\<rparr>)" "distinct rs"
      "set rs = set (removedMns ?D) \<union> {internalId a |a. a \<in> set as \<and> GetMN B (proTxHash a) = None}"
    using Cons.IH [of ?D] Cons.prems(2) by (meson list.set_intros(2))
  ultimately show ?case
    by (intro exI [of _ rs]) (auto simp: set_insort_insert split: if_splits)
qed

lemma ForEachMN_ids:
  assumes "mnl_inv H L"
  shows "distinct (map internalId (ForEachMN L v))" "\<forall>d\<in>set (ForEachMN L v). internalId d \<noteq> - 1"
proof -
  note R = mnl_invD(2) [OF assms] and found = ForEachMN_found [OF assms]
  have "inj_on internalId (set (ForEachMN L v))"
  proof (rule inj_onI)
    fix d e assume "d \<in> set (ForEachMN L v)" "e \<in> set (ForEachMN L v)" "internalId d = internalId e"
    then show "d = e" using registry_id [OF R found found] found by (metis option.inject)
  qed
  then show "distinct (map internalId (ForEachMN L v))" using distinct_ForEachMN [OF assms] by (simp add: distinct_map)
  show "\<forall>d\<in>set (ForEachMN L v). internalId d \<noteq> - 1"
    using registryD(2) [OF R found] by (auto simp: mn_ok_def)
qed

lemma set_ForEachMN_all: "mnl_inv H L \<Longrightarrow> set (ForEachMN L False) = {d. GetMN L (proTxHash d) = Some d}"
  using member_iff by (auto simp: set_ForEachMN)

lemma map_filter_distinct_keys:
  assumes "distinct (map f xs)" "\<And>x y. g x = Some y \<Longrightarrow> fst y = f x"
  shows "distinct (map fst (List.map_filter g xs))"
  using assms(1)
proof (induction xs)
  case (Cons x xs)
  have "fst y \<in> f ` set xs" if "y \<in> set (List.map_filter g xs)" for y
    using that assms(2) by (induction xs) (force simp: map_filter_simps split: option.splits)+
  then show ?case using Cons assms(2) by (auto simp: map_filter_simps split: option.splits)
qed (simp add: map_filter_simps)

lemma set_map_filter: "set (List.map_filter f xs) = {y. \<exists>x\<in>set xs. f x = Some y}"
  by (induction xs) (auto simp: map_filter_simps split: option.splits)

lemma BuildDiff_spec:
  assumes "inj key_hash" "mnl_inv H A" "mnl_inv H B"
  shows "\<exists>D. BuildDiff key_hash A B = Inr D \<and>
    distinct (map proTxHash (addedMNs D)) \<and> sorted (map internalId (addedMNs D)) \<and>
    set (addedMNs D) = {d. GetMN B (proTxHash d) = Some d \<and> GetMN A (proTxHash d) = None} \<and>
    distinct (map fst (updatedMNs D)) \<and>
    set (updatedMNs D) = {(internalId b, CDeterministicMNStateDiff_of key_hash (pdmnState a) (pdmnState b)) |h a b.
       GetMN A h = Some a \<and> GetMN B h = Some b \<and> pdmnState a \<noteq> pdmnState b} \<and>
    distinct (removedMns D) \<and> set (removedMns D) = {internalId a |h a. GetMN A h = Some a \<and> GetMN B h = None}"
proof -
  let ?bs = "ForEachMN B False" and ?as = "ForEachMN A False"
  let ?add = "filter (\<lambda>d. GetMN A (proTxHash d) = None) ?bs" and ?upd = "List.map_filter (change_of key_hash A) ?bs"
  note bs = ForEachMN_ids [OF assms(3), of False] and as = ForEachMN_ids [OF assms(2), of False]
  have u: "sum_fold (diff_update key_hash A) ?bs \<lparr>addedMNs = [], updatedMNs = [], removedMns = []\<rparr> =
      Inr \<lparr>addedMNs = ?add, updatedMNs = ?upd, removedMns = []\<rparr>"
    by (subst diff_update_loop) (use bs in simp_all)
  obtain rs where rs: "sum_fold (diff_removed B) ?as \<lparr>addedMNs = ?add, updatedMNs = ?upd, removedMns = []\<rparr> =
      Inr \<lparr>addedMNs = ?add, updatedMNs = ?upd, removedMns = rs\<rparr>" "distinct rs"
      "set rs = {internalId a |a. a \<in> set ?as \<and> GetMN B (proTxHash a) = None}"
    using diff_removed_loop [of "\<lparr>addedMNs = ?add, updatedMNs = ?upd, removedMns = []\<rparr>" ?as B] as(2) by auto
  have "\<not> list_ex (\<lambda>dmn. internalId dmn = - 1) ?add" using bs(2) by (auto simp: list_ex_iff)
  then have "BuildDiff key_hash A B = Inr \<lparr>addedMNs = sort_key internalId ?add, updatedMNs = ?upd, removedMns = rs\<rparr>"
    unfolding BuildDiff_def by (simp add: u rs(1))
  moreover have "distinct (map proTxHash (sort_key internalId ?add))"
    using distinct_map_filter [OF distinct_ForEachMN_hashes [OF assms(3)]]
    by (simp add: distinct_map)
  moreover have "set ?add = {d. GetMN B (proTxHash d) = Some d \<and> GetMN A (proTxHash d) = None}"
    by (auto simp: set_ForEachMN_all [OF assms(3)])
  moreover have "distinct (map fst ?upd)"
    using bs(1) by (rule map_filter_distinct_keys) (auto simp: change_of_iff [OF assms(1)])
  moreover have "set ?upd = {(internalId b, CDeterministicMNStateDiff_of key_hash (pdmnState a) (pdmnState b)) |h a b.
       GetMN A h = Some a \<and> GetMN B h = Some b \<and> pdmnState a \<noteq> pdmnState b}" (is "_ = ?U")
  proof (intro set_eqI iffI)
    fix e assume "e \<in> set ?upd"
    then show "e \<in> ?U"
      by (force simp: set_map_filter set_ForEachMN_all [OF assms(3)] change_of_iff [OF assms(1)])
  next
    fix e assume "e \<in> ?U"
    then obtain h a b where e: "e = (internalId b, CDeterministicMNStateDiff_of key_hash (pdmnState a) (pdmnState b))"
        "GetMN A h = Some a" "GetMN B h = Some b" "pdmnState a \<noteq> pdmnState b" by blast
    have h: "proTxHash b = h" using registryD(1) [OF mnl_invD(2) [OF assms(3)] e(3)] .
    then have "b \<in> set ?bs" "change_of key_hash A b = Some e"
      using e by (simp_all add: set_ForEachMN_all [OF assms(3)] change_of_iff [OF assms(1)])
    then show "e \<in> set ?upd" unfolding set_map_filter by blast
  qed
  moreover have "set rs = {internalId a |h a. GetMN A h = Some a \<and> GetMN B h = None}"
    unfolding rs(3) set_ForEachMN_all [OF assms(2)] using registryD(1) [OF mnl_invD(2) [OF assms(2)]] by blast
  ultimately show ?thesis using rs(2) by auto
qed

section \<open>Applying a difference\<close>

lemma registry_submap: "registry_ok R \<Longrightarrow> R' \<subseteq>\<^sub>m R \<Longrightarrow> registry_ok R'"
  unfolding registry_ok_def map_le_def by (metis domI)

lemma removed_loop:
  assumes "list_ok H L" "distinct ids" "\<forall>i\<in>set ids. \<exists>h d. GetMN L h = Some d \<and> internalId d = i"
  shows "\<exists>L'. sum_fold (apply_removed H) ids L = Inr L' \<and> list_ok H L' \<and>
    GetMN L' = (\<lambda>h. case GetMN L h of None \<Rightarrow> None | Some d \<Rightarrow> if internalId d \<in> set ids then None else Some d)"
  using assms
proof (induction ids arbitrary: L)
  case Nil
  then show ?case by (auto split: option.splits)
next
  case (Cons i ids)
  have inv: "mnl_inv H L" and R: "registry_ok (GetMN L)" using Cons.prems(1) mnl_invD(2) by blast+
  obtain h d where d: "GetMN L h = Some d" "internalId d = i" using Cons.prems(3) by auto
  have h: "proTxHash d = h" by (rule registryD(1) [OF R d(1)])
  obtain L1 where L1: "RemoveMN H h L = Inr L1" "GetMN L1 = (GetMN L)(h := None)" "list_ok H L1"
    using mnl.remove_law [OF Cons.prems(1) d(1)] by blast
  have "apply_removed H i L = Inr L1"
    using internal_lookup [OF inv, of i d] d h L1(1) by (simp add: apply_removed_def)
  moreover have "\<exists>h' d'. GetMN L1 h' = Some d' \<and> internalId d' = j" if j: "j \<in> set ids" for j
  proof -
    obtain h' d' where "GetMN L h' = Some d'" "internalId d' = j" using Cons.prems(3) j by auto
    moreover have "h' \<noteq> h" using calculation d Cons.prems(2) j by auto
    ultimately show ?thesis using L1(2) by (intro exI [of _ h'] exI [of _ d']) simp
  qed
  then obtain L2 where L2: "sum_fold (apply_removed H) ids L1 = Inr L2" "list_ok H L2"
      "GetMN L2 = (\<lambda>h. case GetMN L1 h of None \<Rightarrow> None | Some d \<Rightarrow> if internalId d \<in> set ids then None else Some d)"
    using Cons.IH [OF L1(3)] Cons.prems(2) by auto
  moreover have "GetMN L2 = (\<lambda>h. case GetMN L h of None \<Rightarrow> None | Some d \<Rightarrow> if internalId d \<in> set (i # ids) then None else Some d)"
    unfolding L2(3) L1(2)
  proof (rule ext)
    fix k
    show "(case ((GetMN L)(h := None)) k of None \<Rightarrow> None | Some d \<Rightarrow> if internalId d \<in> set ids then None else Some d) =
        (case GetMN L k of None \<Rightarrow> None | Some d \<Rightarrow> if internalId d \<in> set (i # ids) then None else Some d)"
    proof (cases "k = h")
      case False
      then show ?thesis using registry_id [OF R _ d(1), of k] d(2) by (cases "GetMN L k") auto
    qed (simp add: d)
  qed
  ultimately show ?case by (intro exI [of _ L2] conjI) simp_all
qed

definition by_hash :: "CDeterministicMN list \<Rightarrow> uint256 \<rightharpoonup> CDeterministicMN" where
  "by_hash ds = map_of (map (\<lambda>d. (proTxHash d, d)) ds)"

lemma dom_by_hash: "dom (by_hash ds) = proTxHash ` set ds"
  by (force simp: by_hash_def dom_map_of_conv_image_fst)

lemma by_hash_iff: "distinct (map proTxHash ds) \<Longrightarrow> by_hash ds h = Some d \<longleftrightarrow> d \<in> set ds \<and> proTxHash d = h"
  by (force simp: by_hash_def comp_def)

lemma added_loop:
  assumes "list_ok H L" "distinct (map proTxHash ds)" "\<forall>d\<in>set ds. GetMN L (proTxHash d) = None" "registry_ok (GetMN L ++ by_hash ds)"
  shows "\<exists>L'. sum_fold (\<lambda>d. AddMN H d True) ds L = Inr L' \<and> list_ok H L' \<and> GetMN L' = GetMN L ++ by_hash ds"
  using assms
proof (induction ds arbitrary: L)
  case Nil
  then show ?case by (simp add: by_hash_def)
next
  case (Cons d ds)
  have new: "proTxHash d \<notin> dom (by_hash ds)" using Cons.prems(2) by (auto simp: by_hash_def dom_map_of_conv_image_fst)
  have eq: "GetMN L ++ by_hash (d # ds) = (GetMN L)(proTxHash d \<mapsto> d) ++ by_hash ds"
    using new by (auto simp: by_hash_def map_add_def fun_eq_iff split: option.splits)
  have "(GetMN L)(proTxHash d \<mapsto> d) \<subseteq>\<^sub>m GetMN L ++ by_hash (d # ds)"
  proof (unfold map_le_def eq, intro ballI)
    fix k assume "k \<in> dom ((GetMN L)(proTxHash d \<mapsto> d))"
    then have "k \<notin> dom (by_hash ds)" using new Cons.prems(3) by (cases "k = proTxHash d") (auto simp: dom_by_hash)
    then show "((GetMN L)(proTxHash d \<mapsto> d)) k = ((GetMN L)(proTxHash d \<mapsto> d) ++ by_hash ds) k" by (simp add: map_add_dom_app_simps)
  qed
  then obtain L1 where L1: "AddMN H d True L = Inr L1" "GetMN L1 = (GetMN L)(proTxHash d \<mapsto> d)" "list_ok H L1"
    using mnl.add_returns [OF Cons.prems(1), of d True] Cons.prems(3) registry_submap [OF Cons.prems(4)] by auto
  have none: "\<forall>x\<in>set ds. GetMN L1 (proTxHash x) = None"
    using Cons.prems(2,3) unfolding L1(2) by (simp add: image_iff) metis
  have ok1: "registry_ok (GetMN L1 ++ by_hash ds)" using Cons.prems(4) unfolding eq L1(2) .
  obtain L2 where "sum_fold (\<lambda>d. AddMN H d True) ds L1 = Inr L2" "list_ok H L2" "GetMN L2 = GetMN L1 ++ by_hash ds"
    using Cons.IH [OF L1(3) _ none ok1] Cons.prems(2) by auto
  then show ?case unfolding eq L1(2) [symmetric] using L1(1) by (intro exI [of _ L2]) simp
qed

text \<open>The lists on the way: those updated already are as in the target, the others as they were.\<close>

definition mixed :: "(uint256 \<rightharpoonup> CDeterministicMN) \<Rightarrow> (uint256 \<rightharpoonup> CDeterministicMN) \<Rightarrow> uint256 set \<Rightarrow> uint256 \<rightharpoonup> CDeterministicMN" where
  "mixed R T S h = (case T h of None \<Rightarrow> None | Some b \<Rightarrow> if h \<in> S \<or> R h = None then Some b else R h)"

text \<open>What the rules of the chain guarantee of the lists of two blocks: the identity of a masternode does not change, and a
  property a masternode takes over from another is one of a masternode that was removed.\<close>

definition diffable :: "(uint256 \<rightharpoonup> CDeterministicMN) \<Rightarrow> (uint256 \<rightharpoonup> CDeterministicMN) \<Rightarrow> bool" where
  "diffable R T \<longleftrightarrow>
     (\<forall>h a b. R h = Some a \<longrightarrow> T h = Some b \<longrightarrow> a\<lparr>pdmnState := pdmnState b\<rparr> = b) \<and>
     (\<forall>h h' a b. R h = Some a \<longrightarrow> T h' = Some b \<longrightarrow> h \<noteq> h' \<longrightarrow> mn_props a \<inter> mn_props b \<noteq> {} \<longrightarrow> T h = None)"

lemma same_identity: "a\<lparr>pdmnState := st\<rparr> = b \<Longrightarrow> internalId a = internalId b"
  by (drule sym) simp

lemma mixed_ok:
  assumes R: "registry_ok R" and T: "registry_ok T" and df: "diffable R T"
  shows "registry_ok (mixed R T S)"
proof -
  have src: "\<exists>b. T h = Some b \<and> internalId e = internalId b \<and> proTxHash e = h \<and> mn_ok e \<and> (e = b \<or> R h = Some e)" if e: "mixed R T S h = Some e" for h e
  proof -
    obtain b where b: "T h = Some b" and c: "e = b \<or> R h = Some e" using e by (auto simp: mixed_def split: option.splits if_splits)
    have "internalId e = internalId b" if "R h = Some e"
    proof -
      have "e\<lparr>pdmnState := pdmnState b\<rparr> = b" using df that b unfolding diffable_def by blast
      then show ?thesis by (rule same_identity)
    qed
    then show ?thesis using b c registryD [OF R] registryD [OF T] by metis
  qed
  have "internalId d \<noteq> internalId e \<and> mn_props d \<inter> mn_props e = {}"
    if d: "mixed R T S h = Some d" and e: "mixed R T S h' = Some e" and ne: "h \<noteq> h'" for h d h' e
  proof -
    obtain b c where b: "T h = Some b" "internalId d = internalId b" "d = b \<or> R h = Some d"
      and c: "T h' = Some c" "internalId e = internalId c" "e = c \<or> R h' = Some e" using src [OF d] src [OF e] by blast
    have "mn_props d \<inter> mn_props e = {}"
    proof (rule ccontr)
      assume "mn_props d \<inter> mn_props e \<noteq> {}"
      then obtain v where v: "v \<in> mn_props d" "v \<in> mn_props e" by blast
      have "R h = Some d \<and> e = c \<Longrightarrow> T h = None" "R h' = Some e \<and> d = b \<Longrightarrow> T h' = None"
        using df v ne b(1) c(1) unfolding diffable_def by blast+
      then show False using b c ne registry_disjoint [OF T _ _ v] registry_disjoint [OF R _ _ v] by auto
    qed
    then show ?thesis using b(1,2) c(1,2) ne registry_id [OF T b(1) c(1)] by auto
  qed
  then show ?thesis using src unfolding registry_ok_def by blast
qed

lemma mixed_step: "T h = Some b \<Longrightarrow> (mixed R T S)(h \<mapsto> b) = mixed R T (insert h S)"
  by (rule ext) (auto simp: mixed_def split: option.splits)

lemma updated_loop:
  assumes key: "inj key_hash" and R: "registry_ok R" and T: "registry_ok T" and df: "diffable R T"
    and "list_ok H L" "GetMN L = mixed R T S" "distinct (map fst es)"
    and "\<forall>e\<in>set es. \<exists>h a b. R h = Some a \<and> T h = Some b \<and> h \<notin> S \<and>
      e = (internalId b, CDeterministicMNStateDiff_of key_hash (pdmnState a) (pdmnState b))"
  shows "\<exists>L'. sum_fold (apply_updated H) es L = Inr L' \<and> list_ok H L' \<and>
    GetMN L' = mixed R T (S \<union> {h. \<exists>b. T h = Some b \<and> internalId b \<in> fst ` set es})"
  using assms(5-)
proof (induction es arbitrary: L S)
  case Nil
  then show ?case by simp
next
  case (Cons e es)
  obtain h a b where e: "R h = Some a" "T h = Some b" "h \<notin> S" "e = (internalId b, CDeterministicMNStateDiff_of key_hash (pdmnState a) (pdmnState b))"
    using Cons.prems(4) by auto
  have inv: "mnl_inv H L" using Cons.prems(1) by blast
  have ab: "a\<lparr>pdmnState := pdmnState b\<rparr> = b" using df [unfolded diffable_def, THEN conjunct1, rule_format, OF e(1,2)] .
  have id: "internalId a = internalId b" by (rule same_identity [OF ab])
  have a: "GetMN L h = Some a" unfolding Cons.prems(2) using e by (simp add: mixed_def)
  have h: "proTxHash a = h" by (rule registryD(1) [OF R e(1)])
  have "GetMNByInternalId L (internalId b) = Some a" using internal_lookup [OF inv] a h id by simp
  then have upd: "apply_updated H e L = UpdateMN H h (pdmnState b) L"
    using a by (simp add: apply_updated_def e(4) UpdateMN_diff_def state_diff_restores [OF key] UpdateMN_def GetMN_def)
  have "keyIDOwner (pdmnState b) \<noteq> CKeyID_null" using registryD(2) [OF T e(2)] by (simp add: mn_ok_def)
  moreover have "registry_ok ((GetMN L)(h \<mapsto> a\<lparr>pdmnState := pdmnState b\<rparr>))"
    unfolding ab Cons.prems(2) mixed_step [of T h b, OF e(2)] by (rule mixed_ok [OF R T df])
  ultimately obtain L1 where L1: "apply_updated H e L = Inr L1" "list_ok H L1" "GetMN L1 = mixed R T (insert h S)"
    using mnl.update_returns [OF Cons.prems(1) a, of "pdmnState b"] unfolding upd ab Cons.prems(2) mixed_step [of T h b, OF e(2)] by blast
  have later: "\<forall>x\<in>set es. \<exists>h' a b. R h' = Some a \<and> T h' = Some b \<and> h' \<notin> insert h S \<and>
      x = (internalId b, CDeterministicMNStateDiff_of key_hash (pdmnState a) (pdmnState b))"
  proof
    fix x assume x: "x \<in> set es"
    then obtain h' a' b' where x': "R h' = Some a'" "T h' = Some b'" "h' \<notin> S" "x = (internalId b', CDeterministicMNStateDiff_of key_hash (pdmnState a') (pdmnState b'))"
      using Cons.prems(4) by auto
    have "fst x \<noteq> fst e" using Cons.prems(3) x by (metis distinct.simps(2) image_eqI list.map(2) list.set_map)
    then have "h' \<noteq> h" using x'(2,4) e(2,4) by auto
    then show "\<exists>h' a b. R h' = Some a \<and> T h' = Some b \<and> h' \<notin> insert h S \<and>
      x = (internalId b, CDeterministicMNStateDiff_of key_hash (pdmnState a) (pdmnState b))" using x' by blast
  qed
  then obtain L2 where L2: "sum_fold (apply_updated H) es L1 = Inr L2" "list_ok H L2"
      "GetMN L2 = mixed R T (insert h S \<union> {h. \<exists>b. T h = Some b \<and> internalId b \<in> fst ` set es})"
    using Cons.IH [OF L1(2,3) _ later] Cons.prems(3) by auto
  have same: "internalId c = internalId b \<longleftrightarrow> k = h" if "T k = Some c" for k c
    using registry_id [OF T that e(2)] that e(2) by auto
  have "(\<exists>c. T k = Some c \<and> internalId c \<in> fst ` set (e # es)) \<longleftrightarrow> k = h \<or> (\<exists>c. T k = Some c \<and> internalId c \<in> fst ` set es)" for k
    using same [of k] e(2) unfolding e(4) by (cases "T k") auto
  then have "insert h S \<union> {h. \<exists>b. T h = Some b \<and> internalId b \<in> fst ` set es} = S \<union> {h. \<exists>b. T h = Some b \<and> internalId b \<in> fst ` set (e # es)}"
    by blast
  then show ?case using L1(1) L2 by (intro exI [of _ L2]) simp
qed

lemma removed_ids:
  assumes "registry_ok R" "R h = Some d"
  shows "internalId d \<in> {internalId a |h a. R h = Some a \<and> T h = None} \<longleftrightarrow> T h = None"
proof
  assume "internalId d \<in> {internalId a |h a. R h = Some a \<and> T h = None}"
  then obtain k a where k: "internalId d = internalId a" "R k = Some a" "T k = None" by blast
  then show "T h = None" using registry_id [OF assms k(2)] by simp
qed (use assms(2) in blast)

lemma mixed_all:
  assumes "diffable R T"
    and "set es = {(internalId b, F a b) |h a b. R h = Some a \<and> T h = Some b \<and> pdmnState a \<noteq> pdmnState b}"
  shows "mixed R T {h. \<exists>b. T h = Some b \<and> internalId b \<in> fst ` set es} = T"
proof (rule ext)
  fix h
  show "mixed R T {h. \<exists>b. T h = Some b \<and> internalId b \<in> fst ` set es} h = T h"
  proof (cases "T h")
    case None
    then show ?thesis by (simp add: mixed_def)
  next
    case (Some b)
    have "a = b" if "R h = Some a" "internalId b \<notin> fst ` set es" for a
    proof -
      have "pdmnState a = pdmnState b"
      proof (rule ccontr)
        assume "pdmnState a \<noteq> pdmnState b"
        then have "(internalId b, F a b) \<in> set es" unfolding assms(2) using that(1) Some by blast
        then show False using that(2) by (metis fst_conv image_eqI)
      qed
      moreover have "a\<lparr>pdmnState := pdmnState b\<rparr> = b" using assms(1) that(1) Some unfolding diffable_def by blast
      ultimately show ?thesis by (metis CDeterministicMN.surjective CDeterministicMN.update_convs(6) CDeterministicMN.select_convs(6))
    qed
    then show ?thesis using Some by (auto simp: mixed_def)
  qed
qed

lemma added_by_hash:
  assumes "registry_ok T" "distinct (map proTxHash ds)" "set ds = {d. T (proTxHash d) = Some d \<and> R (proTxHash d) = None}"
  shows "by_hash ds h = (if R h = None then T h else None)"
proof (cases "by_hash ds h")
  case None
  have "T h = None" if "R h = None"
  proof (rule ccontr)
    assume "T h \<noteq> None"
    then obtain d where d: "T h = Some d" by blast
    then have "proTxHash d = h" by (rule registryD(1) [OF assms(1)])
    then show False using d that None by_hash_iff [OF assms(2), of h d] assms(3) by simp
  qed
  then show ?thesis using None by simp
next
  case (Some d)
  then show ?thesis using by_hash_iff [OF assms(2), of h d] assms(3) by auto
qed

lemma removed_frame:
  "sum_fold (apply_removed H) ids L = Inr L' \<Longrightarrow> (list_blockHash L', list_nHeight L') = (list_blockHash L, list_nHeight L)"
  by (rule sum_fold_frame) (auto simp: apply_removed_def split: option.splits dest: RemoveMN_fields(2,3))

lemma added_frame:
  "sum_fold (\<lambda>d. AddMN H d True) ds L = Inr L' \<Longrightarrow> (list_blockHash L', list_nHeight L') = (list_blockHash L, list_nHeight L)"
  by (rule sum_fold_frame) (auto dest: AddMN_fields)

lemma updated_frame:
  "sum_fold (apply_updated H) es L = Inr L' \<Longrightarrow> (list_blockHash L', list_nHeight L') = (list_blockHash L, list_nHeight L)"
  by (rule sum_fold_frame) (auto simp: apply_updated_def UpdateMN_diff_def split: option.splits dest: UpdateMN_dmn_fields(2,3))

text \<open>\<^bold>\<open>C40\<close>: stored differences give the list back. For two consistent lists of which the chain rules hold (a masternode keeps its
  identity; no masternode takes over the address, keys or collateral of one that stays), \<^verbatim>\<open>BuildDiff\<close> returns, and \<^verbatim>\<open>ApplyDiff\<close> of its
  result to the first list returns a consistent list with the same masternodes as the second, state by state, at the block it is applied
  for. This holds for every order in which the hash map of updates is iterated.\<close>

theorem list_diff_round_trip:
  assumes H: "inj H" "inj key_hash" and A: "mnl_inv H A" and B: "mnl_inv H B" and df: "diffable (GetMN A) (GetMN B)"
    and pindex: "phashBlock pindex = Some hash"
  shows "\<exists>D. BuildDiff key_hash A B = Inr D \<and>
    (\<forall>es. mset es = mset (updatedMNs D) \<longrightarrow>
      (\<exists>R. ApplyDiff H pindex (D\<lparr>updatedMNs := es\<rparr>) A = Inr R \<and> mnl_inv H R \<and> GetMN R = GetMN B \<and>
        list_blockHash R = hash \<and> list_nHeight R = nHeight pindex))"
proof -
  note RA = mnl_invD(2) [OF A] and RB = mnl_invD(2) [OF B]
  obtain D where D: "BuildDiff key_hash A B = Inr D" "distinct (map proTxHash (addedMNs D))"
      "set (addedMNs D) = {d. GetMN B (proTxHash d) = Some d \<and> GetMN A (proTxHash d) = None}"
      "distinct (map fst (updatedMNs D))"
      "set (updatedMNs D) = {(internalId b, CDeterministicMNStateDiff_of key_hash (pdmnState a) (pdmnState b)) |h a b.
         GetMN A h = Some a \<and> GetMN B h = Some b \<and> pdmnState a \<noteq> pdmnState b}"
      "distinct (removedMns D)" "set (removedMns D) = {internalId a |h a. GetMN A h = Some a \<and> GetMN B h = None}"
    using BuildDiff_spec [OF H(2) A B] by - (elim exE conjE, rule that; assumption)
  have "\<exists>R. ApplyDiff H pindex (D\<lparr>updatedMNs := es\<rparr>) A = Inr R \<and> mnl_inv H R \<and> GetMN R = GetMN B \<and>
        list_blockHash R = hash \<and> list_nHeight R = nHeight pindex" if es: "mset es = mset (updatedMNs D)" for es
  proof -
    let ?A = "A\<lparr>list_blockHash := hash, list_nHeight := nHeight pindex\<rparr>"
    have "list_ok H ?A" using A H(1) by (simp add: mnl_inv_def)
    then obtain L1 where L1: "sum_fold (apply_removed H) (removedMns D) ?A = Inr L1" "list_ok H L1"
        "GetMN L1 = (\<lambda>h. case GetMN A h of None \<Rightarrow> None | Some d \<Rightarrow> if internalId d \<in> set (removedMns D) then None else Some d)"
      using removed_loop [of H ?A "removedMns D"] D(6,7) by auto
    have kept: "GetMN L1 h = (if GetMN B h = None then None else GetMN A h)" for h
      unfolding L1(3) D(7) by (cases "GetMN A h") (simp_all only: removed_ids [OF RA] option.case if_True if_False if_cancel)
    have add: "by_hash (addedMNs D) h = (if GetMN A h = None then GetMN B h else None)" for h
      by (rule added_by_hash [OF RB D(2,3)])
    have base: "GetMN L1 ++ by_hash (addedMNs D) = mixed (GetMN A) (GetMN B) {}"
      by (rule ext) (simp add: map_add_def kept add mixed_def split: option.splits)
    obtain L2 where L2: "sum_fold (\<lambda>d. AddMN H d True) (addedMNs D) L1 = Inr L2" "list_ok H L2" "GetMN L2 = mixed (GetMN A) (GetMN B) {}"
      using added_loop [OF L1(2) D(2)] mixed_ok [OF RA RB df] kept unfolding base by (simp add: D(3)) blast
    have "set es = set (updatedMNs D)" "distinct (map fst es)" using es D(4) mset_eq_setD [OF es] mset_eq_imp_distinct_iff [of "map fst es" "map fst (updatedMNs D)"] by simp_all
    then obtain L3 where L3: "sum_fold (apply_updated H) es L2 = Inr L3" "list_ok H L3"
        "GetMN L3 = mixed (GetMN A) (GetMN B) {h. \<exists>b. GetMN B h = Some b \<and> internalId b \<in> fst ` set (updatedMNs D)}"
      using updated_loop [OF H(2) RA RB df L2(2,3), of es] by (simp add: D(5)) blast
    have "GetMN L3 = GetMN B" using L3(3) mixed_all [OF df D(5)] by simp
    moreover have "ApplyDiff H pindex (D\<lparr>updatedMNs := es\<rparr>) A = Inr L3"
      by (simp add: ApplyDiff_def GetBlockHash_def pindex L1(1) L2(1) L3(1))
    moreover have "list_blockHash L3 = hash" "list_nHeight L3 = nHeight pindex"
      using removed_frame [OF L1(1)] added_frame [OF L2(1)] updated_frame [OF L3(1)] by simp_all
    ultimately show ?thesis using L3(2) by blast
  qed
  then show ?thesis using D(1) by blast
qed

theorem list_diff_round_trip_witness:
  "\<exists>A B D R. GetMN A = [[1] \<mapsto> example_mn 1, [2] \<mapsto> example_mn 2] \<and>
     GetMN B = [[2] \<mapsto> (example_mn 2)\<lparr>pdmnState := (pdmnState (example_mn 2))\<lparr>nPoSePenalty := 5\<rparr>\<rparr>, [3] \<mapsto> example_mn 3] \<and>
     BuildDiff example_key_hash A B = Inr D \<and> ApplyDiff example_prop_hash (CBlockIndex_default\<lparr>phashBlock := Some [9]\<rparr>) D A = Inr R \<and> GetMN R = GetMN B"
proof -
  let ?p = "CBlockIndex_default\<lparr>phashBlock := Some [9]\<rparr>"
  let ?d = "(example_mn 2)\<lparr>pdmnState := (pdmnState (example_mn 2))\<lparr>nPoSePenalty := 5\<rparr>\<rparr>"
  obtain A where A: "mnl_inv example_prop_hash A" "GetMN A = [[1] \<mapsto> example_mn 1, [2] \<mapsto> example_mn 2]" using example_pair [of 1 2] by auto
  obtain B0 where B0: "mnl_inv example_prop_hash B0" "GetMN B0 = [[2] \<mapsto> example_mn 2, [3] \<mapsto> example_mn 3]" using example_pair [of 2 3] by auto
  obtain B where B: "mnl_inv example_prop_hash B" "GetMN B = (GetMN B0)([2] \<mapsto> ?d)"
    using mnl.update_keeps [of example_prop_hash B0 "[2]" "example_mn 2" "(pdmnState (example_mn 2))\<lparr>nPoSePenalty := 5\<rparr>"] B0 inj_example_prop_hash
    by (auto simp: keeps_props_def)
  have B2: "GetMN B = [[2] \<mapsto> ?d, [3] \<mapsto> example_mn 3]" unfolding B(2) B0(2) by auto
  have "mn_props ?d = mn_props (example_mn 2)" by (simp add: mn_props_slots)
  then have df: "diffable (GetMN A) (GetMN B)" unfolding A(2) B2 by (auto simp: diffable_def)
  from list_diff_round_trip [OF inj_example_prop_hash inj_example_key_hash A(1) B(1) df, of ?p "[9]"]
  obtain D R where "BuildDiff example_key_hash A B = Inr D" "ApplyDiff example_prop_hash ?p D A = Inr R" "GetMN R = GetMN B" by auto
  then show ?thesis using A(2) B2 by blast
qed

end
