(* ===== verification/Spec2Isabelle.thy ===== *)
theory Spec2Isabelle
  imports Chain_Work Chain_View Llmq_Options Coins_Update Stake_Kernel Masternode_Payment Masternode_Diff
begin

text \<open>
  A verification library for the consensus core of the DeFCoN node, a proof-of-stake chain with deterministic masternodes
  derived from Dash (C++, under \<^verbatim>\<open>src/src\<close>).

  \<^bold>\<open>The program and its parts.\<close> Blocks form a tree of index entries; one branch is the active chain, chosen by accumulated
  work. A block is accepted if its header meets its difficulty or its stake kernel, and if its transactions are well formed, final
  and spend coins that exist. Connecting a block updates a layered cache of unspent outputs and writes undo data that
  disconnecting uses. Special transactions and quorum commitments in the block update the list of masternodes, from which
  payees and quorum members are drawn; quorums lock the chain and attest the service of masternodes. Consensus parameters say from which height on
  each rule holds.

  \<^bold>\<open>Conventions\<close> (\<open>Defcon_Prelude\<close>). A struct is a record with the names of its fields, an enum a datatype. Unsigned
  integers whose wrap-around is observable are words of their width; signed ones are \<open>int\<close>, since their overflow is undefined in
  C++, and the theorems bound them where it matters. A call that can fail an assertion, throw or dereference a null pointer returns a
  sum whose left side is the datatype \<open>abort\<close>; a rejected transaction or a configuration error is a value too. \<^verbatim>\<open>sum_bind\<close> sequences such calls, \<open>sum_fold\<close> is a loop
  of them. Hash functions, signature checks and the database below the cache are arguments; where a result needs a hash not to
  collide, this is a hypothesis of the theorem, and its witness gives a concrete injective function.

  \<^bold>\<open>Numbers.\<close> \<open>Arith_Uint256\<close> models \<^verbatim>\<open>arith_uint256.h/.cpp\<close> limb by limb and refines it to natural numbers modulo
  \<open>2 ^ 256\<close> (locale \<open>modular_uint\<close>); \<open>Compact_Target\<close> the compact form of targets, its rounding and its overflow flag.

  \<^bold>\<open>Chain.\<close> \<open>Block_Index\<close> models \<^verbatim>\<open>chain.h/.cpp\<close>: entries in a store, with the skip list, ancestors and
  common ancestors (locale \<open>ancestor_query\<close>). \<open>Chain_View\<close> is \<^verbatim>\<open>CChain\<close> with locators, fork search and median time. \<open>Chain_Work\<close>
  is \<^verbatim>\<open>pow.cpp\<close> and the work of \<^verbatim>\<open>chain.cpp\<close>. Walks along
  \<^verbatim>\<open>pprev\<close> in an arbitrary store are partial functions, where \<open>None\<close> is not returning; on well-formed stores they are proved to return.

  \<^bold>\<open>Rules by height.\<close> \<open>Consensus_Params\<close>, \<open>Llmq_Params\<close> and \<open>Chain_Config\<close> are the parameter structs, the table of quorum
  profiles and the startup checks of \<^verbatim>\<open>chainparams.cpp\<close>; \<open>Llmq_Options\<close> resolves which quorum serves which role
  (\<^verbatim>\<open>llmq/options.cpp\<close>). The theorems tie the two: what the startup checks accept, the resolvers never use outside its window.

  \<^bold>\<open>Transactions.\<close> \<open>Serialization\<close> is \<^verbatim>\<open>serialize.h\<close>, with the locale \<open>codec\<close> for element formats and the containers
  built from them; \<open>Transaction\<close> is \<^verbatim>\<open>primitives/transaction.h\<close> with the checks of \<^verbatim>\<open>tx_check.cpp\<close> and the lock times of
  \<^verbatim>\<open>tx_verify.cpp\<close>; \<open>Tx_Verify\<close> the value and maturity rules against the coins.

  \<^bold>\<open>Coins.\<close> \<open>Coins_Cache\<close> is \<^verbatim>\<open>coins.h/.cpp\<close>, refined to the set of unspent outputs (locale \<open>utxo_store\<close>);
  \<open>Coins_Update\<close> connects and disconnects the transactions of a block as \<^verbatim>\<open>validation.cpp\<close> does. \<open>Stake_Kernel\<close> is
  \<^verbatim>\<open>pos/kernel.cpp\<close>, over the coins and the chain.

  \<^bold>\<open>Masternodes.\<close> \<open>Masternode_State\<close> is the state of one masternode with its differences (\<^verbatim>\<open>evo/dmnstate.h\<close>);
  \<open>Masternode_List\<close> the list of all (\<^verbatim>\<open>evo/deterministicmns.h/.cpp\<close>), refined to a finite map in which no two masternodes share
  an id, a collateral, an address or a key (locale \<open>masternode_registry\<close>); \<open>Masternode_Payment\<close> selects payees and quorum members
  from it, independently of the order in which the hash map stores it; \<open>Masternode_Service\<close> punishes, forgives and applies service commitments.

  \<^bold>\<open>Bounds.\<close> No loop is cut by fuel except where stated in its theory. Stream readers are total on every byte list. Theorems that
  speak of \<^verbatim>\<open>uint64_t\<close> or \<^verbatim>\<open>int64_t\<close> results name the range in which the mathematical value fits; these ranges hold for all values
  that the money range, the block index and the size limits of the wire format admit.

  \<^bold>\<open>Not modelled.\<close> The peer-to-peer layer, the wallet, RPC and GUI (input and output); the script interpreter and signatures,
  the hash functions and BLS (third-party or bit-level cryptography, arguments here); the memory pool, governance and mixing (policy
  and services above consensus); distributed key generation and signing (network protocols over threshold cryptography); files and
  databases; and the parts of \<^verbatim>\<open>validation.cpp\<close> that schedule these.
\<close>

end
